(* ===== verification/Zfs_Prelude.thy ===== *)
theory Zfs_Prelude
  imports Main "HOL-Library.Word"
begin

unbundle bit_operations_syntax

text \<open>
  Shared vocabulary of the development: the machine integer types of the kernel, the
  power-of-two macros of \<^verbatim>\<open>uts/common/sys/sysmacros.h\<close>, the bit-field macros of
  \<^verbatim>\<open>uts/common/fs/zfs/sys/spa.h\<close>, a loop combinator for bodies that may panic, and the
  generic lemmas the components use. A failed \<^verbatim>\<open>VERIFY\<close>, a call of \<^verbatim>\<open>panic()\<close> and a
  \<^verbatim>\<open>NULL\<close> dereference are the result \<^term>\<open>None\<close> of an operation.
\<close>

section \<open>Machine integers\<close>

type_synonym u8 = "8 word"
type_synonym u16 = "16 word"
type_synonym u32 = "32 word"
type_synonym u64 = "64 word"

named_theorems p2_simps
  \<open>the power-of-two and bit-field macros in terms of the word library\<close>

definition P2ALIGN :: "u64 \<Rightarrow> u64 \<Rightarrow> u64" where
  "P2ALIGN x align = x AND - align"

definition P2PHASE :: "u64 \<Rightarrow> u64 \<Rightarrow> u64" where
  "P2PHASE x align = x AND (align - 1)"

definition P2ROUNDUP :: "u64 \<Rightarrow> u64 \<Rightarrow> u64" where
  "P2ROUNDUP x align = - (- x AND - align)"

definition BF64_DECODE :: "u64 \<Rightarrow> nat \<Rightarrow> nat \<Rightarrow> u64" where
  "BF64_DECODE x low len = P2PHASE (drop_bit low x) (push_bit len 1)"

definition BF64_ENCODE :: "u64 \<Rightarrow> nat \<Rightarrow> nat \<Rightarrow> u64" where
  "BF64_ENCODE x low len = push_bit low (P2PHASE x (push_bit len 1))"

lemma P2PHASE_take_bit [p2_simps]: "P2PHASE x (2 ^ n) = take_bit n x"
  by (simp add: P2PHASE_def take_bit_eq_mask mask_eq_exp_minus_1)

lemma BF64_DECODE_bits [p2_simps]: "BF64_DECODE x low len = take_bit len (drop_bit low x)"
  by (simp add: BF64_DECODE_def p2_simps)

lemma BF64_ENCODE_bits [p2_simps]: "BF64_ENCODE x low len = push_bit low (take_bit len x)"
  by (simp add: BF64_ENCODE_def p2_simps)

lemma bit_BF64_ENCODE:
  "bit (BF64_ENCODE x low len) n \<longleftrightarrow> low \<le> n \<and> n < 64 \<and> n - low < len \<and> bit x (n - low)"
  by (auto simp: p2_simps bit_simps)

lemma BF64_ENCODE_decode:
  assumes "low + len \<le> 64"
  shows "BF64_DECODE (BF64_ENCODE x low len) low len = take_bit len x"
  using assms by (intro bit_eqI) (auto simp: p2_simps bit_simps)

lemma BF64_DECODE_or: "BF64_DECODE (x OR y) low len = BF64_DECODE x low len OR BF64_DECODE y low len"
  by (intro bit_eqI) (auto simp: p2_simps bit_simps)

lemma BF64_DECODE_other:
  assumes "low + len \<le> low' \<or> low' + len' \<le> low"
  shows "BF64_DECODE (BF64_ENCODE x low' len') low len = 0"
  using assms by (intro bit_eqI) (auto simp: p2_simps bit_simps)

lemma take_bit_word_add0:
  fixes a b :: u64
  assumes "take_bit n a = 0" "take_bit n b = 0"
  shows "take_bit n (a + b) = 0"
proof (cases "n < 64")
  case True
  have d: "2 ^ n dvd unat x \<longleftrightarrow> take_bit n x = 0" for x :: u64
    by (simp add: and_mask_dvd_nat take_bit_eq_mask)
  have "(2 :: nat) ^ n dvd 2 ^ 64" using True by (intro le_imp_power_dvd) simp
  then have "2 ^ n dvd (unat a + unat b) mod 2 ^ 64"
    using assms by (intro dvd_mod) (auto simp: d)
  then show ?thesis by (simp add: d [symmetric] unat_word_ariths)
next
  case False
  have "take_bit n x = x" for x :: u64 using False by (simp add: take_bit_word_eq_self)
  with assms show ?thesis by simp
qed

lemma take_bit_small: "unat x < 2 ^ n \<Longrightarrow> take_bit n x = x" for x :: u64
  unfolding word_unat_eq_iff unsigned_take_bit_eq by (rule take_bit_nat_eq_self)

subsection \<open>Ranges of 64-bit offsets\<close>

lemma unat_lt64: "unat (x :: u64) < 2 ^ 64"
  using unsigned_less [of x] by simp

lemma unat_of_nat64: "n < 2 ^ 64 \<Longrightarrow> unat (of_nat n :: u64) = n"
  by (simp add: unat_of_nat)

lemma unat_image_interval: "unat ` {a ..< b :: u64} = {unat a ..< unat b}"
proof (intro set_eqI iffI)
  fix n assume n: "n \<in> {unat a ..< unat b}"
  then have "n < 2 ^ 64" using unat_lt64 [of b] by simp
  then have "n = unat (of_nat n :: u64)" by (simp add: unat_of_nat64)
  moreover have "of_nat n \<in> {a ..< b}"
    using n calculation by (simp add: word_le_nat_alt word_less_nat_alt)
  ultimately show "n \<in> unat ` {a ..< b}" by blast
qed (auto simp: word_le_nat_alt word_less_nat_alt)

lemma card_word_interval: "a \<le> b \<Longrightarrow> card {a ..< b :: u64} = unat (b - a)"
proof -
  assume ab: "a \<le> b"
  have "inj_on unat {a ..< b}" by (simp add: inj_on_def word_unat_eq_iff)
  then have "card {a ..< b} = card (unat ` {a ..< b})" by (simp add: card_image)
  then show ?thesis using ab by (simp add: unat_image_interval unat_sub)
qed

lemma card_range: "start \<le> start + sz \<Longrightarrow> card {start ..< start + sz :: u64} = unat sz"
  by (simp add: card_word_interval)

section \<open>Loops whose body may panic\<close>

fun foldM :: "('s \<Rightarrow> 'a \<Rightarrow> 's option) \<Rightarrow> 's \<Rightarrow> 'a list \<Rightarrow> 's option" where
  "foldM f s [] = Some s"
| "foldM f s (x # xs) = (case f s x of None \<Rightarrow> None | Some s' \<Rightarrow> foldM f s' xs)"

lemma foldM_append:
  "foldM f s (xs @ ys) = (case foldM f s xs of None \<Rightarrow> None | Some s' \<Rightarrow> foldM f s' ys)"
  by (induction xs arbitrary: s) (auto split: option.splits)

text \<open>The rule for such a loop: an invariant relates what has been done to the state.\<close>

lemma foldM_rule:
  assumes "I [] s"
    and "\<And>done x rest s. xs = done @ x # rest \<Longrightarrow> I done s \<Longrightarrow> \<exists>s'. f s x = Some s' \<and> I (done @ [x]) s'"
  shows "\<exists>s'. foldM f s xs = Some s' \<and> I xs s'"
proof -
  have "xs = pre @ post \<Longrightarrow> I pre s \<Longrightarrow> \<exists>s'. foldM f s post = Some s' \<and> I xs s'" for pre post s
  proof (induction post arbitrary: pre s)
    case (Cons x post)
    obtain s' where "f s x = Some s'" "I (pre @ [x]) s'" using assms(2) Cons.prems by blast
    then show ?case using Cons.IH [of "pre @ [x]" s'] Cons.prems(1) by simp
  qed simp
  from this [of "[]" xs s] assms(1) show ?thesis by simp
qed

end
