(* ===== verification/Avl.thy ===== *)
theory Avl
  imports Zfs_Prelude
begin

text \<open>
  Model of the generic AVL tree of \<^verbatim>\<open>common/avl/avl.c\<close> and of the macros of
  \<^verbatim>\<open>uts/common/sys/avl_impl.h\<close>: nodes, positions, walking, searching, rotation,
  insertion, removal, re-positioning and destruction.

  The C code links nodes by two child pointers and one parent pointer. A position of the
  tree (a node pointer whose parent pointers are followed upwards) is modelled by the
  subtree at that node together with the list of the ancestors on the way to the root, each
  with the side the path came from (\<^verbatim>\<open>AVL_XCHILD\<close>) and the other subtree. Following
  \<^verbatim>\<open>AVL_XPARENT\<close> is dropping the first frame of that list; an \<^verbatim>\<open>avl_index_t\<close>
  (a parent pointer with the child index in its bottom bit) is the path of an empty slot.
  Dereferencing \<^verbatim>\<open>NULL\<close> and the kernel panic of \<^verbatim>\<open>avl_add()\<close> are the value
  \<^term>\<open>None\<close> of the operations that change the tree.

  Data pointers: an element is its own address (the elements of one tree are pairwise
  distinct), \<^verbatim>\<open>AVL_DATA2NODE\<close> recovers its position. \<^verbatim>\<open>avl_size\<close> and
  \<^verbatim>\<open>avl_offset\<close> only serve that address computation and are not modelled.
\<close>

section \<open>Generic AVL trees (common/avl/avl.c)\<close>

subsection \<open>Nodes, child indices and positions\<close>

text \<open>A child index: 0 is \<^verbatim>\<open>ChLeft\<close>, 1 is \<^verbatim>\<open>ChRight\<close>; \<^verbatim>\<open>AVL_BEFORE\<close> and \<^verbatim>\<open>AVL_AFTER\<close> are the
  same two values, and \<^verbatim>\<open>1 - left\<close> is the other one.\<close>

datatype child = ChLeft | ChRight

fun other_child :: "child \<Rightarrow> child" where
  "other_child ChLeft = ChRight"
| "other_child ChRight = ChLeft"

text \<open>A node with its data, its balance and \<^verbatim>\<open>avl_child[0]\<close>, \<^verbatim>\<open>avl_child[1]\<close>.\<close>

datatype 'a avl_node =
    Null
  | Node (avl_data: 'a) (avl_balance: int) (avl_child0: "'a avl_node") (avl_child1: "'a avl_node")

fun avl_child :: "'a avl_node \<Rightarrow> child \<Rightarrow> 'a avl_node" where
  "avl_child Null c = Null"
| "avl_child (Node d b l r) ChLeft = l"
| "avl_child (Node d b l r) ChRight = r"

text \<open>The node with child \<^verbatim>\<open>c\<close> at the given index and \<^verbatim>\<open>s\<close> at the other index.\<close>

fun mk_node :: "child \<Rightarrow> 'a \<Rightarrow> int \<Rightarrow> 'a avl_node \<Rightarrow> 'a avl_node \<Rightarrow> 'a avl_node" where
  "mk_node ChLeft d b c s = Node d b c s"
| "mk_node ChRight d b c s = Node d b s c"

text \<open>An ancestor on a path: its data and balance, the child index the path came from and the
  subtree at the other index.\<close>

datatype 'a avl_frame = Frame 'a int child "'a avl_node"

type_synonym 'a avl_index = "'a avl_frame list"

fun avl_plug :: "'a avl_node \<Rightarrow> 'a avl_index \<Rightarrow> 'a avl_node" where
  "avl_plug t [] = t"
| "avl_plug t (Frame d b c s # fs) = avl_plug (mk_node c d b t s) fs"

record 'a avl_tree =
  avl_root :: "'a avl_node"
  avl_compar :: "'a \<Rightarrow> 'a \<Rightarrow> int"
  avl_numnodes :: nat

fun avl_child2balance :: "child \<Rightarrow> int" where
  "avl_child2balance ChLeft = -1"
| "avl_child2balance ChRight = 1"

definition avl_balance2child :: "int \<Rightarrow> child" where
  "avl_balance2child i = (if i = 2 then ChRight else ChLeft)"

text \<open>The position of the node that embeds a given element.\<close>

fun avl_data2node :: "'a \<Rightarrow> 'a avl_node \<Rightarrow> 'a avl_index \<Rightarrow> ('a avl_node \<times> 'a avl_index) option" where
  "avl_data2node x Null p = None"
| "avl_data2node x (Node d b l r) p =
     (if d = x then Some (Node d b l r, p)
      else (case avl_data2node x l (Frame d b ChLeft r # p) of
              Some z \<Rightarrow> Some z
            | None \<Rightarrow> avl_data2node x r (Frame d b ChRight l # p)))"

subsection \<open>Walking\<close>

text \<open>The loops \<^verbatim>\<open>for (; node->avl_child[c] != NULL; node = node->avl_child[c])\<close>.\<close>

fun avl_descend :: "child \<Rightarrow> 'a avl_node \<Rightarrow> 'a avl_index \<Rightarrow> 'a avl_node \<times> 'a avl_index" where
  "avl_descend c Null p = (Null, p)"
| "avl_descend ChLeft (Node d b l r) p =
     (if l = Null then (Node d b l r, p) else avl_descend ChLeft l (Frame d b ChLeft r # p))"
| "avl_descend ChRight (Node d b l r) p =
     (if r = Null then (Node d b l r, p) else avl_descend ChRight r (Frame d b ChRight l # p))"

fun avl_node2data :: "'a avl_node \<Rightarrow> 'a option" where
  "avl_node2data Null = None"
| "avl_node2data (Node d b l r) = Some d"

text \<open>The loop of \<^verbatim>\<open>avl_walk()\<close> that returns through parents until it came from the
  child \<^verbatim>\<open>right\<close>.\<close>

fun avl_climb :: "child \<Rightarrow> 'a avl_index \<Rightarrow> 'a option" where
  "avl_climb right [] = None"
| "avl_climb right (Frame d b was_child s # p) =
     (if was_child = right then Some d else avl_climb right p)"

definition avl_walk_node :: "'a avl_node \<Rightarrow> 'a avl_index \<Rightarrow> child \<Rightarrow> 'a option" where
  "avl_walk_node node p left =
     (if avl_child node left \<noteq> Null
      then avl_node2data (fst (avl_descend (other_child left) (avl_child node left) p))
      else avl_climb (other_child left) p)"

definition avl_walk :: "'a avl_tree \<Rightarrow> 'a \<Rightarrow> child \<Rightarrow> 'a option" where
  "avl_walk tree oldnode left =
     (case avl_data2node oldnode (avl_root tree) [] of
        None \<Rightarrow> None
      | Some (node, p) \<Rightarrow> avl_walk_node node p left)"

definition avl_first :: "'a avl_tree \<Rightarrow> 'a option" where
  "avl_first tree = avl_node2data (fst (avl_descend ChLeft (avl_root tree) []))"

definition avl_last :: "'a avl_tree \<Rightarrow> 'a option" where
  "avl_last tree = avl_node2data (fst (avl_descend ChRight (avl_root tree) []))"

fun avl_nearest :: "'a avl_tree \<Rightarrow> 'a avl_index \<Rightarrow> child \<Rightarrow> 'a option" where
  "avl_nearest tree [] direction = None"
| "avl_nearest tree (Frame d b c s # p) direction =
     (if c \<noteq> direction then Some d else avl_walk_node (mk_node c d b Null s) p direction)"

text \<open>\<^verbatim>\<open>avl_find()\<close> returns the element found or fills in \<^verbatim>\<open>*where\<close>.\<close>

fun avl_find_loop ::
  "('a \<Rightarrow> 'a \<Rightarrow> int) \<Rightarrow> 'a \<Rightarrow> 'a avl_node \<Rightarrow> 'a avl_index \<Rightarrow> 'a + 'a avl_index" where
  "avl_find_loop cmp v Null p = Inr p"
| "avl_find_loop cmp v (Node d b l r) p =
     (let diff = cmp v d in
      if diff = 0 then Inl d
      else case avl_balance2child (1 + diff) of
             ChLeft \<Rightarrow> avl_find_loop cmp v l (Frame d b ChLeft r # p)
           | ChRight \<Rightarrow> avl_find_loop cmp v r (Frame d b ChRight l # p))"

definition avl_find :: "'a avl_tree \<Rightarrow> 'a \<Rightarrow> 'a + 'a avl_index" where
  "avl_find tree v = avl_find_loop (avl_compar tree) v (avl_root tree) []"

subsection \<open>Rotation, insertion and removal\<close>

text \<open>The subtree at \<^verbatim>\<open>node\<close> after the rotation, and whether it became shorter. The updates
  of \<^verbatim>\<open>parent->avl_child[which_child]\<close> and \<^verbatim>\<open>tree->avl_root\<close> are plugging the result
  into the path of the node.\<close>

definition avl_rotation :: "'a avl_node \<Rightarrow> int \<Rightarrow> ('a avl_node \<times> bool) option" where
  "avl_rotation node balance =
     (let left = (if balance < 0 then ChLeft else ChRight);
          right = other_child left;
          left_heavy = balance div 2;
          right_heavy = - left_heavy;
          child = avl_child node left
      in case (node, child) of
           (Node nd _ _ _, Node cd child_bal _ _) \<Rightarrow>
             (if child_bal \<noteq> right_heavy then
                let child_bal' = child_bal + right_heavy;
                    cright = avl_child child right;
                    node' = mk_node left nd (- child_bal') cright (avl_child node right)
                in Some (mk_node left cd child_bal' (avl_child child left) node', child_bal' = 0)
              else
                (case avl_child child right of
                   Null \<Rightarrow> None
                 | Node gd gbal gl gr \<Rightarrow>
                     let gchild = Node gd gbal gl gr;
                         gleft = avl_child gchild left;
                         gright = avl_child gchild right;
                         child' = mk_node left cd (if gbal = right_heavy then left_heavy else 0)
                                    (avl_child child left) gleft;
                         node' = mk_node left nd (if gbal = left_heavy then right_heavy else 0)
                                    gright (avl_child node right)
                     in Some (mk_node left gd 0 child' node', True)))
         | _ \<Rightarrow> None)"

text \<open>The loop of \<^verbatim>\<open>avl_insert()\<close> that backs up the tree.\<close>

fun avl_insert_fix :: "'a avl_node \<Rightarrow> 'a avl_index \<Rightarrow> 'a avl_node option" where
  "avl_insert_fix t [] = Some t"
| "avl_insert_fix t (Frame d old_balance which_child s # p) =
     (let new_balance = old_balance + avl_child2balance which_child in
      if new_balance = 0 then Some (avl_plug (mk_node which_child d 0 t s) p)
      else if old_balance \<noteq> 0 then
        (case avl_rotation (mk_node which_child d old_balance t s) new_balance of
           None \<Rightarrow> None
         | Some (t', _) \<Rightarrow> Some (avl_plug t' p))
      else avl_insert_fix (mk_node which_child d new_balance t s) p)"

text \<open>The index must name an empty slot of this tree: the assertions on
  \<^verbatim>\<open>parent->avl_child[which_child]\<close> and \<^verbatim>\<open>tree->avl_root\<close>.\<close>

definition avl_insert :: "'a avl_tree \<Rightarrow> 'a \<Rightarrow> 'a avl_index \<Rightarrow> 'a avl_tree option" where
  "avl_insert tree new_data where =
     (if avl_plug Null where \<noteq> avl_root tree then None
      else case avl_insert_fix (Node new_data 0 Null Null) where of
             None \<Rightarrow> None
           | Some root \<Rightarrow> Some (tree\<lparr>avl_root := root, avl_numnodes := avl_numnodes tree + 1\<rparr>))"

text \<open>\<^verbatim>\<open>AVL_MKINDEX(node, c)\<close> at a position.\<close>

definition avl_slot :: "'a avl_node \<Rightarrow> 'a avl_index \<Rightarrow> child \<Rightarrow> 'a avl_index" where
  "avl_slot node p c =
     (case node of
        Null \<Rightarrow> p
      | Node d b l r \<Rightarrow> Frame d b c (avl_child node (other_child c)) # p)"

definition avl_insert_here :: "'a avl_tree \<Rightarrow> 'a \<Rightarrow> 'a \<Rightarrow> child \<Rightarrow> 'a avl_tree option" where
  "avl_insert_here tree new_data here direction =
     (case avl_data2node here (avl_root tree) [] of
        None \<Rightarrow> None
      | Some (node, p) \<Rightarrow>
          if avl_child node direction \<noteq> Null then
            let child = other_child direction;
                (node', p') = avl_descend child (avl_child node direction)
                                (avl_slot node p direction)
            in avl_insert tree new_data (avl_slot node' p' child)
          else avl_insert tree new_data (avl_slot node p direction))"

definition avl_add :: "'a avl_tree \<Rightarrow> 'a \<Rightarrow> 'a avl_tree option" where
  "avl_add tree new_node =
     (case avl_find tree new_node of
        Inl _ \<Rightarrow> None
      | Inr where \<Rightarrow> avl_insert tree new_node where)"

text \<open>The loop of \<^verbatim>\<open>avl_remove()\<close> that adjusts the balances upwards.\<close>

fun avl_remove_fix :: "'a avl_node \<Rightarrow> 'a avl_index \<Rightarrow> 'a avl_node option" where
  "avl_remove_fix t [] = Some t"
| "avl_remove_fix t (Frame d old_balance which_child s # p) =
     (let new_balance = old_balance - avl_child2balance which_child in
      if old_balance = 0 then Some (avl_plug (mk_node which_child d new_balance t s) p)
      else if new_balance = 0 then avl_remove_fix (mk_node which_child d new_balance t s) p
      else case avl_rotation (mk_node which_child d old_balance t s) new_balance of
             None \<Rightarrow> None
           | Some (t', shorter) \<Rightarrow>
               if \<not> shorter then Some (avl_plug t' p) else avl_remove_fix t' p)"

text \<open>The only child of a node that is at least partially a leaf.\<close>

definition avl_unlink :: "'a avl_node \<Rightarrow> 'a avl_node" where
  "avl_unlink del = (if avl_child del ChLeft \<noteq> Null then avl_child del ChLeft
                     else avl_child del ChRight)"

text \<open>A node with two children first trades places with a neighbour of the taller side: the
  neighbour's data moves into the place of the deleted node, whose balance is kept.\<close>

definition avl_remove :: "'a avl_tree \<Rightarrow> 'a \<Rightarrow> 'a avl_tree option" where
  "avl_remove tree data =
     (case avl_data2node data (avl_root tree) [] of
        None \<Rightarrow> None
      | Some (del, p) \<Rightarrow>
          let (del', p') =
            (if avl_child del ChLeft \<noteq> Null \<and> avl_child del ChRight \<noteq> Null then
               let left = avl_balance2child (avl_balance del + 1);
                   right = other_child left;
                   node = fst (avl_descend right (avl_child del left) [])
               in avl_descend right (avl_child del left)
                    (Frame (avl_data node) (avl_balance del) left (avl_child del right) # p)
             else (del, p))
          in case avl_remove_fix (avl_unlink del') p' of
               None \<Rightarrow> None
             | Some root \<Rightarrow> Some (tree\<lparr>avl_root := root, avl_numnodes := avl_numnodes tree - 1\<rparr>))"

subsection \<open>Destruction, re-positioning and the callers' loops\<close>

text \<open>The cookie of \<^verbatim>\<open>avl_destroy_nodes()\<close>: \<^verbatim>\<open>NULL\<close> before the first call, then the slot
  of the node returned last; the empty path is \<^verbatim>\<open>CHILDBIT\<close>.\<close>

datatype 'a avl_cookie = CkNull | CkAt "'a avl_index"

definition avl_check_right_side :: "'a avl_node \<Rightarrow> 'a avl_index \<Rightarrow> 'a option \<times> 'a avl_cookie" where
  "avl_check_right_side node p =
     (if avl_child node ChRight \<noteq> Null
      then (avl_node2data (avl_child node ChRight), CkAt (avl_slot node p ChRight))
      else (avl_node2data node, CkAt p))"

fun avl_destroy_nodes ::
  "'a avl_tree \<Rightarrow> 'a avl_cookie \<Rightarrow> 'a option \<times> 'a avl_cookie \<times> 'a avl_tree" where
  "avl_destroy_nodes tree CkNull =
     (if avl_root tree = Null then (None, CkAt [], tree)
      else let (node, p) = avl_descend ChLeft (avl_root tree) [];
               (res, cookie) = avl_check_right_side node p
           in (res, cookie, tree))"
| "avl_destroy_nodes tree (CkAt []) =
     (None, CkAt [],
      if avl_root tree \<noteq> Null then tree\<lparr>avl_root := Null, avl_numnodes := 0\<rparr> else tree)"
| "avl_destroy_nodes tree (CkAt (Frame d b child s # p)) =
     (let parent = mk_node child d b Null s;
          tree' = tree\<lparr>avl_root := avl_plug parent p, avl_numnodes := avl_numnodes tree - 1\<rparr>
      in if child = ChRight \<or> avl_child parent ChRight = Null
         then (Some d, CkAt p, tree')
         else let (node, q) = avl_descend ChLeft (avl_child parent ChRight)
                                (avl_slot parent p ChRight);
                  (res, cookie) = avl_check_right_side node q
              in (res, cookie, tree'))"

text \<open>The callers' loop \<^verbatim>\<open>while ((x = avl_destroy_nodes(t, &cookie)) != NULL)\<close>, with fuel; it
  collects the elements in the order they are returned.\<close>

fun avl_drain :: "nat \<Rightarrow> 'a avl_tree \<Rightarrow> 'a avl_cookie \<Rightarrow> ('a list \<times> 'a avl_tree) option" where
  "avl_drain 0 tree cookie = None"
| "avl_drain (Suc fuel) tree cookie =
     (case avl_destroy_nodes tree cookie of
        (None, _, tree') \<Rightarrow> Some ([], tree')
      | (Some x, cookie', tree') \<Rightarrow>
          map_option (\<lambda>(xs, t). (x # xs, t)) (avl_drain fuel tree' cookie'))"

definition avl_create :: "('a \<Rightarrow> 'a \<Rightarrow> int) \<Rightarrow> 'a avl_tree" where
  "avl_create compar = \<lparr>avl_root = Null, avl_compar = compar, avl_numnodes = 0\<rparr>"

definition avl_is_empty :: "'a avl_tree \<Rightarrow> bool" where
  "avl_is_empty tree \<longleftrightarrow> avl_numnodes tree = 0"

text \<open>The macro \<^verbatim>\<open>AVL_REINSERT\<close>.\<close>

definition avl_reinsert :: "'a avl_tree \<Rightarrow> 'a \<Rightarrow> 'a avl_tree option" where
  "avl_reinsert tree obj =
     (case avl_remove tree obj of None \<Rightarrow> None | Some tree' \<Rightarrow> avl_add tree' obj)"

definition avl_update_lt :: "'a avl_tree \<Rightarrow> 'a \<Rightarrow> ('a avl_tree \<times> bool) option" where
  "avl_update_lt t obj =
     (case avl_walk t obj ChLeft of
        Some neighbor \<Rightarrow>
          if avl_compar t obj neighbor < 0
          then map_option (\<lambda>t'. (t', True)) (avl_reinsert t obj)
          else Some (t, False)
      | None \<Rightarrow> Some (t, False))"

definition avl_update_gt :: "'a avl_tree \<Rightarrow> 'a \<Rightarrow> ('a avl_tree \<times> bool) option" where
  "avl_update_gt t obj =
     (case avl_walk t obj ChRight of
        Some neighbor \<Rightarrow>
          if avl_compar t obj neighbor > 0
          then map_option (\<lambda>t'. (t', True)) (avl_reinsert t obj)
          else Some (t, False)
      | None \<Rightarrow> Some (t, False))"

definition avl_update :: "'a avl_tree \<Rightarrow> 'a \<Rightarrow> ('a avl_tree \<times> bool) option" where
  "avl_update t obj =
     (if (case avl_walk t obj ChLeft of
            Some neighbor \<Rightarrow> avl_compar t obj neighbor < 0 | None \<Rightarrow> False)
      then map_option (\<lambda>t'. (t', True)) (avl_reinsert t obj)
      else if (case avl_walk t obj ChRight of
            Some neighbor \<Rightarrow> avl_compar t obj neighbor > 0 | None \<Rightarrow> False)
      then map_option (\<lambda>t'. (t', True)) (avl_reinsert t obj)
      else Some (t, False))"

text \<open>A store into an element that stays linked in the tree, as \<^verbatim>\<open>ss->ss_end = end\<close> does.\<close>

definition avl_store :: "'a avl_tree \<Rightarrow> 'a \<Rightarrow> 'a \<Rightarrow> 'a avl_tree" where
  "avl_store tree x x' =
     tree\<lparr>avl_root := map_avl_node (\<lambda>y. if y = x then x' else y) (avl_root tree)\<rparr>"

text \<open>The callers' loop \<^verbatim>\<open>for (x = avl_first(t); x != NULL; x = AVL_NEXT(t, x))\<close> with a body that
  changes the caller's state and may panic; \<^verbatim>\<open>t\<close> itself is not changed by the body.\<close>

fun avl_foreach :: "nat \<Rightarrow> 'a avl_tree \<Rightarrow> 'a option \<Rightarrow> ('s \<Rightarrow> 'a \<Rightarrow> 's option) \<Rightarrow> 's \<Rightarrow> 's option" where
  "avl_foreach fuel t None body s = Some s"
| "avl_foreach 0 t (Some x) body s = None"
| "avl_foreach (Suc fuel) t (Some x) body s =
     (case body s x of
        None \<Rightarrow> None
      | Some s' \<Rightarrow> avl_foreach fuel t (avl_walk t x ChRight) body s')"

end
