(* ===== verification/Avl_Invariant.thy ===== *)
theory Avl_Invariant
  imports Avl "HOL-Library.Multiset"
begin

text \<open>
  Invariants of the AVL tree and the effect of each operation on the in-order list of its
  elements. The balance fields are the height differences and lie between -1 and 1; under
  that invariant no operation dereferences \<^verbatim>\<open>NULL\<close>, and insertion and removal restore
  it. The last part shows that \<^verbatim>\<open>avl_destroy_nodes()\<close> returns every node once, children
  before parents.
\<close>

subsection \<open>Abstraction and invariant\<close>

fun avl_inorder :: "'a avl_node \<Rightarrow> 'a list" where
  "avl_inorder Null = []"
| "avl_inorder (Node d b l r) = avl_inorder l @ d # avl_inorder r"

fun avl_height :: "'a avl_node \<Rightarrow> nat" where
  "avl_height Null = 0"
| "avl_height (Node d b l r) = 1 + max (avl_height l) (avl_height r)"

fun avl_balanced :: "'a avl_node \<Rightarrow> bool" where
  "avl_balanced Null = True"
| "avl_balanced (Node d b l r) \<longleftrightarrow>
     b = int (avl_height r) - int (avl_height l) \<and> \<bar>b\<bar> \<le> 1 \<and> avl_balanced l \<and> avl_balanced r"

fun avl_before :: "'a avl_index \<Rightarrow> 'a list" where
  "avl_before [] = []"
| "avl_before (Frame d b ChLeft s # p) = avl_before p"
| "avl_before (Frame d b ChRight s # p) = avl_before p @ avl_inorder s @ [d]"

fun avl_after :: "'a avl_index \<Rightarrow> 'a list" where
  "avl_after [] = []"
| "avl_after (Frame d b ChLeft s # p) = d # avl_inorder s @ avl_after p"
| "avl_after (Frame d b ChRight s # p) = avl_after p"

lemma other_child_simps [simp]:
  "other_child (other_child c) = c" "other_child c \<noteq> c" "c \<noteq> other_child c"
  by (cases c; simp)+

lemma inorder_Null_iff [simp]: "avl_inorder t = [] \<longleftrightarrow> t = Null" "[] = avl_inorder t \<longleftrightarrow> t = Null"
  by (cases t; simp)+

lemma height_0_iff [simp]: "avl_height t = 0 \<longleftrightarrow> t = Null"
  by (cases t) auto

lemma mk_node_neq_Null [simp]: "mk_node c d b t s \<noteq> Null"
  by (cases c) auto

lemma mk_node_child [simp]: "avl_child (mk_node c d b t s) c = t"
   "avl_child (mk_node c d b t s) (other_child c) = s"
  by (cases c; simp)+

lemma inorder_plug [simp]:
  "avl_inorder (avl_plug t p) = avl_before p @ avl_inorder t @ avl_after p"
proof (induction p arbitrary: t)
  case (Cons f p)
  obtain d b c s where f: "f = Frame d b c s" by (cases f)
  show ?case using Cons f by (cases c) auto
qed simp

lemma height_mk_node [simp]:
  "avl_height (mk_node c d b t s) = 1 + max (avl_height t) (avl_height s)"
  by (cases c) auto

lemma balanced_mk_node:
  "avl_balanced (mk_node c d b t s) \<longleftrightarrow>
     b = avl_child2balance c * (int (avl_height t) - int (avl_height s)) \<and> \<bar>b\<bar> \<le> 1 \<and>
     avl_balanced t \<and> avl_balanced s"
  by (cases c) auto

lemma balanced_plug_sub: "avl_balanced (avl_plug t p) \<Longrightarrow> avl_balanced t"
proof (induction p arbitrary: t)
  case (Cons f p)
  obtain d b c s where f: "f = Frame d b c s" by (cases f)
  show ?case using Cons.prems Cons.IH [of "mk_node c d b t s"] f
    by (auto simp: balanced_mk_node)
qed simp

lemma balanced_plug_replace:
  "avl_balanced (avl_plug t p) \<Longrightarrow> avl_balanced t' \<Longrightarrow> avl_height t' = avl_height t \<Longrightarrow>
   avl_balanced (avl_plug t' p)"
proof (induction p arbitrary: t t')
  case (Cons f p)
  obtain d b c s where f: "f = Frame d b c s" by (cases f)
  have bal: "avl_balanced (mk_node c d b t s)"
    using Cons.prems(1) f by (auto dest: balanced_plug_sub)
  show ?case
    using Cons.prems bal f
    by (auto simp: balanced_mk_node intro!: Cons.IH [of "mk_node c d b t s"])
qed simp

lemma child2balance_cases: "avl_child2balance c = -1 \<or> avl_child2balance c = 1"
  by (cases c) auto

subsection \<open>Rotation\<close>

lemma rotation_single:
  assumes "avl_balanced (Node cd cb cl cr)" "avl_balanced s"
    and "avl_height (Node cd cb cl cr) = avl_height s + 2"
  shows "cb \<noteq> 1 \<Longrightarrow> avl_rotation (Node d b0 (Node cd cb cl cr) s) (-2) =
           Some (Node cd (cb + 1) cl (Node d (- cb - 1) cr s), cb = -1) \<and>
         avl_balanced (Node cd (cb + 1) cl (Node d (- cb - 1) cr s))"
    and "cb \<noteq> -1 \<Longrightarrow> avl_rotation (Node d b0 s (Node cd cb cl cr)) 2 =
           Some (Node cd (cb - 1) (Node d (1 - cb) s cl) cr, cb = 1) \<and>
         avl_balanced (Node cd (cb - 1) (Node d (1 - cb) s cl) cr)"
  using assms by (auto simp: avl_rotation_def Let_def)

lemma rotation_double:
  assumes "avl_balanced (Node cd cb cl cr)" "avl_balanced s"
    and "avl_height (Node cd cb cl cr) = avl_height s + 2"
  shows "cb = 1 \<Longrightarrow> cr = Node gd gb gl gr \<Longrightarrow>
     avl_rotation (Node d b0 (Node cd cb cl cr) s) (-2) =
       Some (Node gd 0 (Node cd (if gb = 1 then -1 else 0) cl gl)
                       (Node d (if gb = -1 then 1 else 0) gr s), True) \<and>
     avl_balanced (Node gd 0 (Node cd (if gb = 1 then -1 else 0) cl gl)
                       (Node d (if gb = -1 then 1 else 0) gr s))"
    and "cb = -1 \<Longrightarrow> cl = Node gd gb gl gr \<Longrightarrow>
     avl_rotation (Node d b0 s (Node cd cb cl cr)) 2 =
       Some (Node gd 0 (Node d (if gb = 1 then -1 else 0) s gl)
                       (Node cd (if gb = -1 then 1 else 0) gr cr), True) \<and>
     avl_balanced (Node gd 0 (Node d (if gb = 1 then -1 else 0) s gl)
                       (Node cd (if gb = -1 then 1 else 0) gr cr))"
  using assms by (auto simp: avl_rotation_def Let_def)

lemma rotation_left:
  assumes "avl_balanced t" "avl_balanced s" "avl_height t = avl_height s + 2"
  obtains t' sh where "avl_rotation (Node d b0 t s) (-2) = Some (t', sh)" "avl_balanced t'"
    "avl_inorder t' = avl_inorder t @ d # avl_inorder s"
    "avl_height t' = (if sh then avl_height t else avl_height t + 1)"
    "sh \<longleftrightarrow> avl_balance t \<noteq> 0"
proof -
  obtain cd cb cl cr where t: "t = Node cd cb cl cr" using assms(3) by (cases t) auto
  show thesis
  proof (cases "cb = 1")
    case False
    show thesis
      by (rule that [OF rotation_single(1) [OF assms [unfolded t] False, THEN conjunct1, folded t]])
         (use assms False t rotation_single(1) [OF assms [unfolded t] False] in auto)
  next
    case True
    then obtain gd gb gl gr where cr: "cr = Node gd gb gl gr" using assms(1) t by (cases cr) auto
    show thesis
      by (rule that [OF rotation_double(1) [OF assms [unfolded t] True cr, THEN conjunct1, folded t]])
         (use assms True t cr rotation_double(1) [OF assms [unfolded t] True cr] in auto)
  qed
qed

lemma rotation_right:
  assumes "avl_balanced t" "avl_balanced s" "avl_height t = avl_height s + 2"
  obtains t' sh where "avl_rotation (Node d b0 s t) 2 = Some (t', sh)" "avl_balanced t'"
    "avl_inorder t' = avl_inorder s @ d # avl_inorder t"
    "avl_height t' = (if sh then avl_height t else avl_height t + 1)"
    "sh \<longleftrightarrow> avl_balance t \<noteq> 0"
proof -
  obtain cd cb cl cr where t: "t = Node cd cb cl cr" using assms(3) by (cases t) auto
  show thesis
  proof (cases "cb = -1")
    case False
    show thesis
      by (rule that [OF rotation_single(2) [OF assms [unfolded t] False, THEN conjunct1, folded t]])
         (use assms False t rotation_single(2) [OF assms [unfolded t] False] in auto)
  next
    case True
    then obtain gd gb gl gr where cl: "cl = Node gd gb gl gr" using assms(1) t by (cases cl) auto
    show thesis
      by (rule that [OF rotation_double(2) [OF assms [unfolded t] True cl, THEN conjunct1, folded t]])
         (use assms True t cl rotation_double(2) [OF assms [unfolded t] True cl] in auto)
  qed
qed

lemma avl_rotation_spec:
  assumes "avl_balanced t" "avl_balanced s" "avl_height t = avl_height s + 2"
    and "b = 2 * avl_child2balance c"
  obtains t' sh where "avl_rotation (mk_node c d b0 t s) b = Some (t', sh)" "avl_balanced t'"
    "avl_inorder t' = avl_inorder (mk_node c d b0 t s)"
    "avl_height t' = (if sh then avl_height t else avl_height t + 1)"
    "sh \<longleftrightarrow> avl_balance t \<noteq> 0"
proof (cases c)
  case ChLeft
  then show thesis using assms rotation_left [OF assms(1-3), of d b0] that by fastforce
next
  case ChRight
  then show thesis using assms rotation_right [OF assms(1-3), of d b0] that by fastforce
qed

subsection \<open>The climb after an insertion\<close>

lemma avl_insert_fix_spec:
  assumes "avl_balanced (avl_plug t0 p)" "avl_balanced t" "avl_height t = avl_height t0 + 1"
    and "avl_balance t \<noteq> 0 \<or> t0 = Null"
  shows "\<exists>r. avl_insert_fix t p = Some r \<and> avl_balanced r \<and>
             avl_inorder r = avl_before p @ avl_inorder t @ avl_after p"
  using assms
proof (induction p arbitrary: t t0)
  case (Cons f p)
  obtain d b c s where f: "f = Frame d b c s" by (cases f)
  have bal: "avl_balanced (mk_node c d b t0 s)"
    using Cons.prems(1) f by (auto dest: balanced_plug_sub)
  let ?new = "b + avl_child2balance c"
  have ino: "avl_inorder (avl_plug (mk_node c d b' t s) p) =
      avl_before (f # p) @ avl_inorder t @ avl_after (f # p)" for b'
    by (cases c) (auto simp: f)
  consider "?new = 0" | "?new \<noteq> 0" "b \<noteq> 0" | "b = 0" by blast
  then show ?case
  proof cases
    case 1
    have "avl_balanced (mk_node c d 0 t s)" "avl_height (mk_node c d 0 t s) = avl_height (mk_node c d b t0 s)"
      using bal 1 Cons.prems(2,3) by (auto simp: balanced_mk_node) (cases c; simp)+
    then have "avl_balanced (avl_plug (mk_node c d 0 t s) p)"
      using Cons.prems(1) f by (auto intro: balanced_plug_replace)
    then show ?thesis using 1 ino f by (simp add: Let_def)
  next
    case 2
    have h: "avl_height t = avl_height s + 2" "avl_balanced s" "?new = 2 * avl_child2balance c"
      using bal 2 Cons.prems(3) by (cases c; auto)+
    obtain t' sh where r: "avl_rotation (mk_node c d b t s) ?new = Some (t', sh)" "avl_balanced t'"
      "avl_inorder t' = avl_inorder (mk_node c d b t s)"
      "avl_height t' = (if sh then avl_height t else avl_height t + 1)"
      "sh \<longleftrightarrow> avl_balance t \<noteq> 0"
      using avl_rotation_spec [OF Cons.prems(2) h(2,1,3)] .
    have "sh" using r(5) Cons.prems(3,4) h by auto
    then have "avl_height t' = avl_height (mk_node c d b t0 s)"
      using r h Cons.prems(3) by auto
    then have "avl_balanced (avl_plug t' p)"
      using Cons.prems(1) f r by (auto intro: balanced_plug_replace)
    then show ?thesis using 2 r f ino [of b] by (auto simp: Let_def)
  next
    case 3
    have "avl_balanced (mk_node c d ?new t s)"
         "avl_height (mk_node c d ?new t s) = avl_height (mk_node c d b t0 s) + 1"
         "avl_balance (mk_node c d ?new t s) \<noteq> 0"
      using bal 3 Cons.prems(2,3) by (cases c; auto)+
    then obtain r where "avl_insert_fix (mk_node c d ?new t s) p = Some r" "avl_balanced r"
       "avl_inorder r = avl_before p @ avl_inorder (mk_node c d ?new t s) @ avl_after p"
      using Cons.IH [of "mk_node c d b t0 s" "mk_node c d ?new t s"] Cons.prems(1) f by auto
    moreover have "?new \<noteq> 0" using 3 child2balance_cases [of c] by auto
    ultimately show ?thesis using 3 f ino [of ?new] by (auto simp: Let_def)
  qed
qed simp

subsection \<open>The climb after a removal\<close>

lemma avl_remove_fix_spec:
  assumes "avl_balanced (avl_plug t0 p)" "avl_balanced t" "avl_height t0 = avl_height t + 1"
  shows "\<exists>r. avl_remove_fix t p = Some r \<and> avl_balanced r \<and>
             avl_inorder r = avl_before p @ avl_inorder t @ avl_after p"
  using assms
proof (induction p arbitrary: t t0)
  case (Cons f p)
  obtain d b c s where f: "f = Frame d b c s" by (cases f)
  have bal: "avl_balanced (mk_node c d b t0 s)"
    using Cons.prems(1) f by (auto dest: balanced_plug_sub)
  let ?new = "b - avl_child2balance c"
  have ino: "avl_inorder (avl_plug (mk_node c d b' t s) p) =
      avl_before (f # p) @ avl_inorder t @ avl_after (f # p)" for b'
    by (cases c) (auto simp: f)
  consider "b = 0" | "?new = 0" "b \<noteq> 0" | "?new \<noteq> 0" "b \<noteq> 0" by blast
  then show ?case
  proof cases
    case 1
    have "avl_balanced (mk_node c d ?new t s)"
         "avl_height (mk_node c d ?new t s) = avl_height (mk_node c d b t0 s)"
      using bal 1 Cons.prems(2,3) by (cases c; auto)+
    then have "avl_balanced (avl_plug (mk_node c d ?new t s) p)"
      using Cons.prems(1) f by (auto intro: balanced_plug_replace)
    then show ?thesis using 1 ino [of ?new] f by (auto simp: Let_def)
  next
    case 2
    have "avl_balanced (mk_node c d ?new t s)"
         "avl_height (mk_node c d b t0 s) = avl_height (mk_node c d ?new t s) + 1"
      using bal 2 Cons.prems(2,3) by (cases c; auto)+
    then obtain r where "avl_remove_fix (mk_node c d ?new t s) p = Some r" "avl_balanced r"
       "avl_inorder r = avl_before p @ avl_inorder (mk_node c d ?new t s) @ avl_after p"
      using Cons.IH [of "mk_node c d b t0 s" "mk_node c d ?new t s"] Cons.prems(1) f by auto
    then show ?thesis using 2 f ino [of ?new] by (auto simp: Let_def)
  next
    case 3
    have m: "mk_node c d b t s = mk_node (other_child c) d b s t" by (cases c) auto
    have h: "avl_height s = avl_height t + 2" "avl_balanced s"
       "?new = 2 * avl_child2balance (other_child c)" "avl_height (mk_node c d b t0 s) = avl_height s + 1"
      using bal 3 Cons.prems(3) by (cases c; auto)+
    obtain t' sh where r: "avl_rotation (mk_node c d b t s) ?new = Some (t', sh)" "avl_balanced t'"
      "avl_inorder t' = avl_inorder (mk_node c d b t s)"
      "avl_height t' = (if sh then avl_height s else avl_height s + 1)"
      using avl_rotation_spec [OF h(2) Cons.prems(2) h(1,3)] unfolding m by metis
    show ?thesis
    proof (cases sh)
      case False
      then have "avl_balanced (avl_plug t' p)"
        using Cons.prems(1) f r h by (auto intro: balanced_plug_replace)
      then show ?thesis using 3 r f ino [of b] False by (auto simp: Let_def)
    next
      case True
      then obtain r' where "avl_remove_fix t' p = Some r'" "avl_balanced r'"
        "avl_inorder r' = avl_before p @ avl_inorder t' @ avl_after p"
        using Cons.IH [of "mk_node c d b t0 s" t'] Cons.prems(1) f r h by auto
      then show ?thesis using 3 r f ino [of b] True by (auto simp: Let_def)
    qed
  qed
qed simp

subsection \<open>Trees, positions and walking\<close>

definition avl_list :: "'a avl_tree \<Rightarrow> 'a list" where
  "avl_list tree = avl_inorder (avl_root tree)"

definition avl_wf :: "'a avl_tree \<Rightarrow> bool" where
  "avl_wf tree \<longleftrightarrow> avl_balanced (avl_root tree) \<and> avl_numnodes tree = length (avl_list tree)"

text \<open>An index names an empty slot of the tree.\<close>

definition avl_index_ok :: "'a avl_tree \<Rightarrow> 'a avl_index \<Rightarrow> bool" where
  "avl_index_ok tree w \<longleftrightarrow> avl_plug Null w = avl_root tree"

lemma data2node_None: "avl_data2node x t p = None \<longleftrightarrow> x \<notin> set (avl_inorder t)"
proof (induction t arbitrary: p)
  case (Node d b l r)
  show ?case
    using Node.IH(1) [of "Frame d b ChLeft r # p"] Node.IH(2) [of "Frame d b ChRight l # p"]
    by (auto split: option.splits)
qed simp

lemma data2node_Some:
  "avl_data2node x t p = Some (n, q) \<Longrightarrow>
     avl_plug n q = avl_plug t p \<and> (\<exists>b l r. n = Node x b l r)"
proof (induction t arbitrary: p)
  case (Node d b l r)
  then show ?case
    by (fastforce split: if_splits option.splits)
qed simp

lemma data2node_split:
  assumes "avl_list tree = xs @ x # ys" "distinct (avl_list tree)"
  obtains b l r q where "avl_data2node x (avl_root tree) [] = Some (Node x b l r, q)"
    "avl_plug (Node x b l r) q = avl_root tree"
    "avl_before q @ avl_inorder l = xs" "avl_inorder r @ avl_after q = ys"
proof -
  have "x \<in> set (avl_inorder (avl_root tree))" using assms(1) by (simp add: avl_list_def)
  then obtain n q where nq: "avl_data2node x (avl_root tree) [] = Some (n, q)"
    using data2node_None [of x "avl_root tree" "[]"] by fastforce
  then obtain b l r where n: "n = Node x b l r" and pl: "avl_plug n q = avl_root tree"
    using data2node_Some by fastforce
  have "avl_inorder (avl_root tree) = avl_before q @ avl_inorder n @ avl_after q"
    unfolding pl [symmetric] by simp
  then have eq: "xs @ x # ys = (avl_before q @ avl_inorder l) @ x # (avl_inorder r @ avl_after q)"
    using assms(1) n by (simp add: avl_list_def)
  have "x \<notin> set xs" "x \<notin> set ys" using assms by auto
  then have "xs = avl_before q @ avl_inorder l \<and> ys = avl_inorder r @ avl_after q"
    using eq by (metis append_Cons_eq_iff)
  then show thesis using that nq n pl by blast
qed

lemma descend_plug: "avl_descend c t p = (n, q) \<Longrightarrow> avl_plug n q = avl_plug t p"
  by (induction c t p rule: avl_descend.induct) (auto split: if_splits)

lemma descend_child: "avl_descend c t p = (n, q) \<Longrightarrow> avl_child n c = Null"
  by (induction c t p rule: avl_descend.induct) (auto split: if_splits)

lemma descend_neq_Null: "avl_descend c t p = (n, q) \<Longrightarrow> n = Null \<longleftrightarrow> t = Null"
  by (induction c t p rule: avl_descend.induct) (auto split: if_splits)

text \<open>The node a descent ends in is the first or the last of the subtree.\<close>

lemma descend_last:
  "avl_descend ChRight t p = (n, q) \<Longrightarrow> t \<noteq> Null \<Longrightarrow>
     \<exists>d b l. n = Node d b l Null \<and> avl_before q @ avl_inorder l @ [d] = avl_before p @ avl_inorder t \<and>
       avl_after q = avl_after p"
  by (induction ChRight t p rule: avl_descend.induct) (auto split: if_splits)

lemma descend_first:
  "avl_descend ChLeft t p = (n, q) \<Longrightarrow> t \<noteq> Null \<Longrightarrow>
     \<exists>d b r. n = Node d b Null r \<and> d # avl_inorder r @ avl_after q = avl_inorder t @ avl_after p \<and>
       avl_before q = avl_before p"
  by (induction ChLeft t p rule: avl_descend.induct) (auto split: if_splits)

lemma climb_left: "avl_climb ChLeft p = (if avl_after p = [] then None else Some (hd (avl_after p)))"
  by (induction p rule: avl_after.induct) auto

lemma climb_right: "avl_climb ChRight p = (if avl_before p = [] then None else Some (last (avl_before p)))"
  by (induction p rule: avl_before.induct) auto

lemma walk_node_next:
  "avl_walk_node (Node d b l r) p ChRight =
     (case avl_inorder r @ avl_after p of [] \<Rightarrow> None | y # _ \<Rightarrow> Some y)"
proof (cases "r = Null")
  case True
  then show ?thesis by (auto simp: avl_walk_node_def climb_left split: list.splits)
next
  case False
  obtain n q where nq: "avl_descend ChLeft r p = (n, q)" by fastforce
  from descend_first [OF this False] False nq show ?thesis
    by (auto simp: avl_walk_node_def split: list.splits)
qed

lemma walk_node_prev:
  "avl_walk_node (Node d b l r) p ChLeft =
     (if avl_before p @ avl_inorder l = [] then None else Some (last (avl_before p @ avl_inorder l)))"
proof (cases "l = Null")
  case True
  then show ?thesis by (auto simp: avl_walk_node_def climb_right)
next
  case False
  obtain n q where nq: "avl_descend ChRight l p = (n, q)" by fastforce
  from descend_last [OF this False] False nq show ?thesis
    apply (auto simp: avl_walk_node_def)
    by (metis append_is_Nil_conv inorder_Null_iff(1) last_append last_snoc)
qed

lemma avl_walk_next:
  assumes "distinct (avl_list tree)" "avl_list tree = xs @ x # ys"
  shows "avl_walk tree x ChRight = (case ys of [] \<Rightarrow> None | y # _ \<Rightarrow> Some y)"
proof -
  obtain b l r q where "avl_data2node x (avl_root tree) [] = Some (Node x b l r, q)"
    "avl_inorder r @ avl_after q = ys"
    using data2node_split [OF assms(2,1)] by metis
  then show ?thesis by (simp add: avl_walk_def walk_node_next)
qed

lemma avl_walk_prev:
  assumes "distinct (avl_list tree)" "avl_list tree = xs @ x # ys"
  shows "avl_walk tree x ChLeft = (if xs = [] then None else Some (last xs))"
proof -
  obtain b l r q where "avl_data2node x (avl_root tree) [] = Some (Node x b l r, q)"
    "avl_before q @ avl_inorder l = xs"
    using data2node_split [OF assms(2,1)] by metis
  then show ?thesis by (auto simp: avl_walk_def walk_node_prev)
qed

lemma avl_first_hd: "avl_first tree = (case avl_list tree of [] \<Rightarrow> None | y # _ \<Rightarrow> Some y)"
proof (cases "avl_root tree = Null")
  case False
  obtain n q where nq: "avl_descend ChLeft (avl_root tree) [] = (n, q)" by fastforce
  from descend_first [OF this False] nq show ?thesis
    by (auto simp: avl_first_def avl_list_def split: list.splits)
qed (simp add: avl_first_def avl_list_def)

lemma avl_last_last: "avl_last tree = (if avl_list tree = [] then None else Some (last (avl_list tree)))"
proof (cases "avl_root tree = Null")
  case False
  obtain n q where nq: "avl_descend ChRight (avl_root tree) [] = (n, q)" by fastforce
  from descend_last [OF this False] nq False show ?thesis
    apply (auto simp: avl_last_def avl_list_def)
    by (metis append_assoc last_snoc)
qed (simp add: avl_last_def avl_list_def)

lemma avl_nearest_before:
  "avl_nearest tree w ChLeft = (if avl_before w = [] then None else Some (last (avl_before w)))"
proof (cases w)
  case (Cons f p)
  obtain d b c s where "f = Frame d b c s" by (cases f)
  with Cons show ?thesis by (cases c) (auto simp: walk_node_prev)
qed simp

lemma avl_nearest_after:
  "avl_nearest tree w ChRight = (case avl_after w of [] \<Rightarrow> None | y # _ \<Rightarrow> Some y)"
proof (cases w)
  case (Cons f p)
  obtain d b c s where "f = Frame d b c s" by (cases f)
  with Cons show ?thesis by (cases c) (auto simp: walk_node_next split: list.splits)
qed simp

subsection \<open>Search\<close>

definition avl_search_ok :: "('a \<Rightarrow> 'a \<Rightarrow> int) \<Rightarrow> 'a \<Rightarrow> 'a list \<Rightarrow> bool" where
  "avl_search_ok cmp v xs \<longleftrightarrow>
     (\<forall>x \<in> set xs. \<bar>cmp v x\<bar> \<le> 1) \<and> sorted_wrt (\<lambda>x y. cmp v y \<le> cmp v x) xs"

lemma search_ok_Nil [simp]: "avl_search_ok cmp v []"
  by (simp add: avl_search_ok_def)

lemma search_ok_append:
  "avl_search_ok cmp v (xs @ d # ys) \<Longrightarrow> avl_search_ok cmp v xs \<and> avl_search_ok cmp v ys \<and>
     \<bar>cmp v d\<bar> \<le> 1 \<and> (\<forall>x \<in> set xs. cmp v d \<le> cmp v x) \<and> (\<forall>y \<in> set ys. cmp v y \<le> cmp v d)"
  by (auto simp: avl_search_ok_def sorted_wrt_append)

lemma find_loop_Inl:
  "avl_find_loop cmp v t p = Inl d \<Longrightarrow> d \<in> set (avl_inorder t) \<and> cmp v d = 0"
  by (induction t arbitrary: p) (auto simp: Let_def split: if_splits child.splits)

lemma find_loop_plug: "avl_find_loop cmp v t p = Inr w \<Longrightarrow> avl_plug Null w = avl_plug t p"
  by (induction t arbitrary: p) (auto simp: Let_def split: if_splits child.splits)

lemma find_loop_Inr:
  "avl_find_loop cmp v t p = Inr w \<Longrightarrow> avl_search_ok cmp v (avl_inorder t) \<Longrightarrow>
    \<exists>xs ys. avl_inorder t = xs @ ys \<and> avl_before w = avl_before p @ xs \<and> avl_after w = ys @ avl_after p \<and>
      (\<forall>x \<in> set xs. cmp v x = 1) \<and> (\<forall>y \<in> set ys. cmp v y = -1)"
proof (induction t arbitrary: p)
  case (Node d b l r)
  have ok: "avl_search_ok cmp v (avl_inorder l)" "avl_search_ok cmp v (avl_inorder r)"
    "\<bar>cmp v d\<bar> \<le> 1" "\<forall>x \<in> set (avl_inorder l). cmp v d \<le> cmp v x \<and> cmp v x \<le> 1"
    "\<forall>y \<in> set (avl_inorder r). cmp v y \<le> cmp v d \<and> -1 \<le> cmp v y"
    using Node.prems(2) search_ok_append [of cmp v "avl_inorder l" d "avl_inorder r"]
    by (auto simp: avl_search_ok_def abs_le_iff)
  have nz: "cmp v d \<noteq> 0" using Node.prems(1) by (auto simp: Let_def split: if_splits)
  show ?case
  proof (cases "cmp v d = 1")
    case True
    then have "avl_find_loop cmp v r (Frame d b ChRight l # p) = Inr w"
      using Node.prems(1) by (simp add: Let_def avl_balance2child_def)
    from Node.IH(2) [OF this ok(2)] obtain xs ys where
      "avl_inorder r = xs @ ys" "avl_before w = (avl_before p @ avl_inorder l @ [d]) @ xs"
      "avl_after w = ys @ avl_after p" "\<forall>x \<in> set xs. cmp v x = 1" "\<forall>y \<in> set ys. cmp v y = -1"
      by auto
    then show ?thesis using True ok
      by - (rule exI [where x = "avl_inorder l @ d # xs"], rule exI [where x = ys], force)
  next
    case False
    then have m: "cmp v d = -1" using nz ok(3) by arith
    then have "avl_find_loop cmp v l (Frame d b ChLeft r # p) = Inr w"
      using Node.prems(1) by (simp add: Let_def avl_balance2child_def)
    from Node.IH(1) [OF this ok(1)] obtain xs ys where
      "avl_inorder l = xs @ ys" "avl_before w = avl_before p @ xs"
      "avl_after w = ys @ d # avl_inorder r @ avl_after p"
      "\<forall>x \<in> set xs. cmp v x = 1" "\<forall>y \<in> set ys. cmp v y = -1"
      by auto
    then show ?thesis using m ok
      by - (rule exI [where x = xs], rule exI [where x = "ys @ d # avl_inorder r"], force)
  qed
qed auto

lemma avl_find_Inl: "avl_find tree v = Inl d \<Longrightarrow> d \<in> set (avl_list tree) \<and> avl_compar tree v d = 0"
  unfolding avl_find_def avl_list_def by (rule find_loop_Inl)

lemma avl_find_Inr:
  assumes "avl_find tree v = Inr w" "avl_search_ok (avl_compar tree) v (avl_list tree)"
  shows "avl_index_ok tree w" "avl_list tree = avl_before w @ avl_after w"
    "x \<in> set (avl_before w) \<Longrightarrow> avl_compar tree v x = 1"
    "x \<in> set (avl_after w) \<Longrightarrow> avl_compar tree v x = -1"
  using find_loop_Inr [of "avl_compar tree" v "avl_root tree" "[]" w]
    find_loop_plug [of "avl_compar tree" v "avl_root tree" "[]" w] assms
  by (auto simp: avl_find_def avl_list_def avl_index_ok_def)

lemma avl_find_complete:
  assumes "avl_search_ok (avl_compar tree) v (avl_list tree)"
  shows "(\<exists>d. avl_find tree v = Inl d) \<longleftrightarrow> (\<exists>d \<in> set (avl_list tree). avl_compar tree v d = 0)"
proof
  assume "\<exists>d \<in> set (avl_list tree). avl_compar tree v d = 0"
  then obtain d where d: "d \<in> set (avl_list tree)" "avl_compar tree v d = 0" by blast
  show "\<exists>d. avl_find tree v = Inl d"
  proof (cases "avl_find tree v")
    case (Inr w)
    from avl_find_Inr [OF this assms] d show ?thesis by (metis Un_iff set_append zero_neq_neg_one zero_neq_one)
  qed blast
qed (blast dest: avl_find_Inl)

lemma avl_insert_spec:
  assumes "avl_wf tree" "avl_index_ok tree w"
  obtains tree' where "avl_insert tree x w = Some tree'" "avl_wf tree'"
    "avl_list tree' = avl_before w @ x # avl_after w" "avl_compar tree' = avl_compar tree"
proof -
  have "avl_list tree = avl_before w @ avl_after w"
    using assms(2) inorder_plug [of Null w] by (simp add: avl_index_ok_def avl_list_def)
  moreover obtain r where "avl_insert_fix (Node x 0 Null Null) w = Some r" "avl_balanced r"
    "avl_inorder r = avl_before w @ x # avl_after w"
    using avl_insert_fix_spec [of Null w "Node x 0 Null Null"] assms
    by (auto simp: avl_wf_def avl_index_ok_def)
  ultimately show thesis using assms
    by (intro that [of "tree\<lparr>avl_root := r, avl_numnodes := avl_numnodes tree + 1\<rparr>"])
       (auto simp: avl_insert_def avl_wf_def avl_list_def avl_index_ok_def)
qed

lemma slot_plug: "avl_child n c = Null \<Longrightarrow> n \<noteq> Null \<Longrightarrow> avl_plug Null (avl_slot n p c) = avl_plug n p"
  by (cases n; cases c) (auto simp: avl_slot_def)

lemma slot_plug_child: "n \<noteq> Null \<Longrightarrow> avl_plug (avl_child n c) (avl_slot n p c) = avl_plug n p"
  by (cases n; cases c) (auto simp: avl_slot_def)

lemma insert_here_slot:
  assumes "avl_child n c \<noteq> Null" "avl_descend (other_child c) (avl_child n c) (avl_slot n p c) = (n', p')"
  shows "avl_plug Null (avl_slot n' p' (other_child c)) = avl_plug n p"
proof -
  have "n \<noteq> Null" using assms(1) by auto
  then show ?thesis
    using slot_plug [OF descend_child [OF assms(2)]] descend_plug [OF assms(2)]
      slot_plug_child [of n c p] descend_neq_Null [OF assms(2)] assms(1) by simp
qed

lemma avl_insert_here_spec:
  assumes "avl_wf tree" "distinct (avl_list tree)" "avl_list tree = xs @ h # ys"
  obtains tree' where "avl_insert_here tree x h c = Some tree'" "avl_wf tree'"
    "avl_list tree' = (if c = ChLeft then xs @ x # h # ys else xs @ h # x # ys)"
    "avl_compar tree' = avl_compar tree"
proof -
  obtain b l r q where d2n: "avl_data2node h (avl_root tree) [] = Some (Node h b l r, q)"
    and pl: "avl_plug (Node h b l r) q = avl_root tree"
    and xs: "avl_before q @ avl_inorder l = xs" and ys: "avl_inorder r @ avl_after q = ys"
    using data2node_split [OF assms(3,2)] by metis
  let ?n = "Node h b l r"
  obtain n' p' where de: "avl_descend (other_child c) (avl_child ?n c) (avl_slot ?n q c) = (n', p')"
    by fastforce
  let ?w = "if avl_child ?n c \<noteq> Null then avl_slot n' p' (other_child c) else avl_slot ?n q c"
  have ih: "avl_insert_here tree x h c = avl_insert tree x ?w"
    using d2n de by (simp add: avl_insert_here_def)
  have ok: "avl_index_ok tree ?w"
    using insert_here_slot [OF _ de] slot_plug [of ?n c q] pl by (auto simp: avl_index_ok_def)
  obtain tree' where t': "avl_insert tree x ?w = Some tree'" "avl_wf tree'"
    "avl_list tree' = avl_before ?w @ x # avl_after ?w" "avl_compar tree' = avl_compar tree"
    using avl_insert_spec [OF assms(1) ok] by metis
  have "avl_before ?w @ x # avl_after ?w = (if c = ChLeft then xs @ x # h # ys else xs @ h # x # ys)"
  proof (cases c)
    case ChLeft
    then show ?thesis
    proof (cases "l = Null")
      case True
      then show ?thesis using ChLeft xs ys by (auto simp: avl_slot_def)
    next
      case False
      then obtain d b' l' where "n' = Node d b' l' Null"
        "avl_before p' @ avl_inorder l' @ [d] = avl_before (avl_slot ?n q c) @ avl_inorder l"
        "avl_after p' = avl_after (avl_slot ?n q c)"
        using descend_last [of l "avl_slot ?n q c" n' p'] de ChLeft by auto
      then show ?thesis using ChLeft False xs ys by (auto simp: avl_slot_def)
    qed
  next
    case ChRight
    then show ?thesis
    proof (cases "r = Null")
      case True
      then show ?thesis using ChRight xs ys by (auto simp: avl_slot_def)
    next
      case False
      then obtain d b' r' where "n' = Node d b' Null r'"
        "d # avl_inorder r' @ avl_after p' = avl_inorder r @ avl_after (avl_slot ?n q c)"
        "avl_before p' = avl_before (avl_slot ?n q c)"
        using descend_first [of r "avl_slot ?n q c" n' p'] de ChRight by auto
      then show ?thesis using ChRight False xs ys by (auto simp: avl_slot_def)
    qed
  qed
  then show thesis using that t' ih by metis
qed

subsection \<open>Removal\<close>

lemma unlink_spec:
  assumes "avl_balanced del" "del = Node d b l r" "l = Null \<or> r = Null"
  shows "avl_balanced (avl_unlink del)" "avl_height del = avl_height (avl_unlink del) + 1"
    "avl_inorder (avl_unlink del) = avl_inorder l @ avl_inorder r"
  using assms by (auto simp: avl_unlink_def)

lemma remove_at:
  assumes "avl_balanced (avl_plug del p)" "del = Node d b l r" "l = Null \<or> r = Null"
  obtains root where "avl_remove_fix (avl_unlink del) p = Some root" "avl_balanced root"
    "avl_inorder root = avl_before p @ avl_inorder l @ avl_inorder r @ avl_after p"
  using avl_remove_fix_spec [of del p "avl_unlink del"] unlink_spec [OF balanced_plug_sub [OF assms(1)] assms(2,3)] assms
  by auto

lemma descend_append: "avl_descend c t (p @ q) = (n, r) \<Longrightarrow> \<exists>r'. avl_descend c t p = (n, r') \<and> r = r' @ q"
  apply (induction c t p arbitrary: n r rule: avl_descend.induct)
    apply (auto split: if_splits)
  done

lemma remove_interior:
  assumes bal: "avl_balanced (avl_plug (Node x b l r) p)" and ch: "l \<noteq> Null" "r \<noteq> Null"
    and n: "n = fst (avl_descend (other_child c) (avl_child (Node x b l r) c) [])"
    and de: "avl_descend (other_child c) (avl_child (Node x b l r) c)
        (Frame (avl_data n) b c (avl_child (Node x b l r) (other_child c)) # p) = (del, q)"
  obtains root where "avl_remove_fix (avl_unlink del) q = Some root" "avl_balanced root"
    "avl_inorder root = avl_before p @ avl_inorder l @ avl_inorder r @ avl_after p"
proof -
  have "n = del"
    using n descend_append [of "other_child c" "avl_child (Node x b l r) c" "[]"] de by fastforce
  have "avl_balanced (avl_plug del q)"
    unfolding descend_plug [OF de]
    using bal balanced_plug_sub [OF bal] by (cases c) (auto intro!: balanced_plug_replace [OF bal])
  then show thesis
  proof (cases c)
    case ChLeft
    then obtain d b' l' where del: "del = Node d b' l' Null"
      "avl_before q @ avl_inorder l' @ [d] = avl_before p @ avl_inorder l"
      "avl_after q = avl_data n # avl_inorder r @ avl_after p"
      using descend_last [of l "Frame (avl_data n) b ChLeft r # p" del q] de ch by auto
    obtain root where "avl_remove_fix (avl_unlink del) q = Some root" "avl_balanced root"
      "avl_inorder root = avl_before q @ avl_inorder l' @ avl_inorder Null @ avl_after q"
      using remove_at [OF \<open>avl_balanced (avl_plug del q)\<close> del(1)] by auto
    moreover have "avl_data n = d" using \<open>n = del\<close> del(1) by simp
    ultimately show thesis using that del
      by (metis append.assoc append_Cons append_Nil avl_inorder.simps(1))
  next
    case ChRight
    then obtain d b' r' where del: "del = Node d b' Null r'"
      "d # avl_inorder r' @ avl_after q = avl_inorder r @ avl_after p"
      "avl_before q = avl_before p @ avl_inorder l @ [avl_data n]"
      using descend_first [of r "Frame (avl_data n) b ChRight l # p" del q] de ch by auto
    obtain root where "avl_remove_fix (avl_unlink del) q = Some root" "avl_balanced root"
      "avl_inorder root = avl_before q @ avl_inorder Null @ avl_inorder r' @ avl_after q"
      using remove_at [OF \<open>avl_balanced (avl_plug del q)\<close> del(1)] by auto
    moreover have "avl_data n = d" using \<open>n = del\<close> del(1) by simp
    ultimately show thesis using that del
      by (metis append.assoc append_Cons append_Nil avl_inorder.simps(1))
  qed
qed

lemma avl_remove_spec:
  assumes "avl_wf tree" "distinct (avl_list tree)" "avl_list tree = xs @ x # ys"
  obtains tree' where "avl_remove tree x = Some tree'" "avl_wf tree'" "avl_list tree' = xs @ ys"
    "avl_compar tree' = avl_compar tree"
proof -
  obtain b l r p where d2n: "avl_data2node x (avl_root tree) [] = Some (Node x b l r, p)"
    and pl: "avl_plug (Node x b l r) p = avl_root tree"
    and xs: "avl_before p @ avl_inorder l = xs" and ys: "avl_inorder r @ avl_after p = ys"
    using data2node_split [OF assms(3,2)] by metis
  have bal: "avl_balanced (avl_plug (Node x b l r) p)" using assms(1) pl by (simp add: avl_wf_def)
  have "\<exists>root. avl_balanced root \<and> avl_inorder root = xs @ ys \<and>
      avl_remove tree x = Some (tree\<lparr>avl_root := root, avl_numnodes := avl_numnodes tree - 1\<rparr>)"
  proof (cases "l \<noteq> Null \<and> r \<noteq> Null")
    case True
    let ?c = "avl_balance2child (b + 1)"
    let ?n = "fst (avl_descend (other_child ?c) (avl_child (Node x b l r) ?c) [])"
    obtain del q where de: "avl_descend (other_child ?c) (avl_child (Node x b l r) ?c)
        (Frame (avl_data ?n) b ?c (avl_child (Node x b l r) (other_child ?c)) # p) = (del, q)"
      by fastforce
    obtain root where "avl_remove_fix (avl_unlink del) q = Some root" "avl_balanced root"
      "avl_inorder root = avl_before p @ avl_inorder l @ avl_inorder r @ avl_after p"
      using remove_interior [OF bal _ _ refl de] True by auto
    then show ?thesis using d2n True xs ys de
      by (auto simp: avl_remove_def Let_def)
  next
    case False
    then obtain root where "avl_remove_fix (avl_unlink (Node x b l r)) p = Some root"
      "avl_balanced root" "avl_inorder root = avl_before p @ avl_inorder l @ avl_inorder r @ avl_after p"
      using remove_at [OF bal refl] by auto
    then show ?thesis using d2n False xs ys
      by (auto simp: avl_remove_def Let_def)
  qed
  then obtain root where "avl_balanced root" "avl_inorder root = xs @ ys"
    "avl_remove tree x = Some (tree\<lparr>avl_root := root, avl_numnodes := avl_numnodes tree - 1\<rparr>)"
    by blast
  then show thesis using assms
    by (intro that [of "tree\<lparr>avl_root := root, avl_numnodes := avl_numnodes tree - 1\<rparr>"])
       (auto simp: avl_wf_def avl_list_def)
qed

subsection \<open>Destruction\<close>

fun avl_postorder :: "'a avl_node \<Rightarrow> 'a list" where
  "avl_postorder Null = []"
| "avl_postorder (Node d b l r) = avl_postorder l @ avl_postorder r @ [d]"

fun avl_rest :: "'a avl_index \<Rightarrow> 'a list" where
  "avl_rest [] = []"
| "avl_rest (Frame d b ChLeft s # p) = avl_postorder s @ d # avl_rest p"
| "avl_rest (Frame d b ChRight s # p) = d # avl_rest p"

fun avl_drain_path :: "'a avl_index \<Rightarrow> bool" where
  "avl_drain_path [] = True"
| "avl_drain_path (Frame d b ChLeft s # p) \<longleftrightarrow> avl_balanced s \<and> avl_drain_path p"
| "avl_drain_path (Frame d b ChRight s # p) \<longleftrightarrow> s = Null \<and> avl_drain_path p"

lemma length_postorder: "length (avl_postorder t) = length (avl_inorder t)"
  by (induction t) auto

lemma mset_postorder: "mset (avl_postorder t) = mset (avl_inorder t)"
  by (induction t) auto

lemma descend_left_rest:
  "avl_descend ChLeft t p = (n, q) \<Longrightarrow> avl_balanced t \<Longrightarrow> t \<noteq> Null \<Longrightarrow> avl_drain_path p \<Longrightarrow>
     \<exists>d b r. n = Node d b Null r \<and> avl_balanced n \<and> avl_drain_path q \<and>
       avl_postorder r @ d # avl_rest q = avl_postorder t @ avl_rest p"
  by (induction ChLeft t p rule: avl_descend.induct) (auto split: if_splits)

lemma balanced_right_leaf:
  "avl_balanced (Node d b Null r) \<Longrightarrow> r \<noteq> Null \<Longrightarrow> \<exists>d'. r = Node d' 0 Null Null"
  by (cases r) auto

definition avl_draining :: "'a avl_tree \<Rightarrow> 'a avl_index \<Rightarrow> bool" where
  "avl_draining tree p \<longleftrightarrow> avl_drain_path p \<and> avl_numnodes tree = length (avl_list tree) \<and>
     (\<exists>d b. avl_root tree = avl_plug (Node d b Null Null) p)"

lemma check_right_side_spec:
  assumes "avl_balanced (Node d b Null r)" "avl_drain_path q"
    and "avl_root tree = avl_plug (Node d b Null r) q" "avl_numnodes tree = length (avl_list tree)"
  obtains x p where "avl_check_right_side (Node d b Null r) q = (Some x, CkAt p)"
    "avl_draining tree p" "x # avl_rest p = avl_postorder r @ d # avl_rest q"
proof (cases "r = Null")
  case True
  then show thesis using assms
    by (intro that [of d q]) (auto simp: avl_check_right_side_def avl_draining_def)
next
  case False
  obtain d' where r: "r = Node d' 0 Null Null" using balanced_right_leaf [OF assms(1) False] ..
  show thesis using assms r
    by (intro that [of d' "avl_slot (Node d b Null r) q ChRight"])
       (auto simp: avl_check_right_side_def avl_draining_def avl_slot_def)
qed

lemma destroy_first:
  assumes "avl_wf tree" "avl_root tree \<noteq> Null"
  obtains x p where "avl_destroy_nodes tree CkNull = (Some x, CkAt p, tree)"
    "avl_draining tree p" "x # avl_rest p = avl_postorder (avl_root tree)"
proof -
  obtain n q where de: "avl_descend ChLeft (avl_root tree) [] = (n, q)" by fastforce
  then obtain d b r where n: "n = Node d b Null r" "avl_balanced n" "avl_drain_path q"
     "avl_postorder r @ d # avl_rest q = avl_postorder (avl_root tree)"
    using descend_left_rest [OF de] assms by (auto simp: avl_wf_def)
  have "avl_root tree = avl_plug n q" using descend_plug [OF de] by simp
  then obtain x p where "avl_check_right_side (Node d b Null r) q = (Some x, CkAt p)"
    "avl_draining tree p" "x # avl_rest p = avl_postorder r @ d # avl_rest q"
    using check_right_side_spec [of d b r q tree] assms(1) n unfolding avl_wf_def by metis
  then show thesis using de n assms by (intro that [of x p]) auto
qed

lemma destroy_next:
  assumes dr: "avl_draining tree (f # p)"
  obtains x q tree' where "avl_destroy_nodes tree (CkAt (f # p)) = (Some x, CkAt q, tree')"
    "avl_draining tree' q" "x # avl_rest q = avl_rest (f # p)"
proof -
  obtain d b c s where f: "f = Frame d b c s" by (cases f)
  let ?par = "mk_node c d b Null s"
  let ?tree = "tree\<lparr>avl_root := avl_plug ?par p, avl_numnodes := avl_numnodes tree - 1\<rparr>"
  have dp: "avl_drain_path (Frame d b c s # p)" using dr f by (simp add: avl_draining_def)
  have num: "avl_numnodes ?tree = length (avl_list ?tree)"
    using dr f by (cases c) (auto simp: avl_draining_def avl_list_def)
  show thesis
  proof (cases "c = ChRight \<or> avl_child ?par ChRight = Null")
    case True
    then have "?par = Node d b Null Null" "avl_drain_path p" "avl_rest (f # p) = d # avl_rest p"
      using dp f by (cases c; auto)+
    then show thesis using True num f
      by (intro that [of d p ?tree]) (auto simp: Let_def avl_draining_def)
  next
    case False
    then have c: "c = ChLeft" "s \<noteq> Null" by (cases c; simp)+
    obtain n q where de: "avl_descend ChLeft s (Frame d b ChRight Null # p) = (n, q)" by fastforce
    have "avl_balanced s" "avl_drain_path p" using dp c by auto
    then obtain d' b' r where n: "n = Node d' b' Null r" "avl_balanced n" "avl_drain_path q"
       "avl_postorder r @ d' # avl_rest q = avl_postorder s @ d # avl_rest p"
      using descend_left_rest [OF de] c by auto
    have "avl_root ?tree = avl_plug n q" using descend_plug [OF de] c by simp
    then obtain x q' where "avl_check_right_side n q = (Some x, CkAt q')"
      "avl_draining ?tree q'" "x # avl_rest q' = avl_postorder r @ d' # avl_rest q"
      using check_right_side_spec [of d' b' r q ?tree] num n by metis
    then show thesis using de n f c
      by (intro that [of x q' ?tree]) (auto simp: Let_def avl_slot_def)
  qed
qed

lemma drain_from:
  "avl_draining tree p \<Longrightarrow> length (avl_rest p) < fuel \<Longrightarrow>
   avl_drain fuel tree (CkAt p) =
     Some (avl_rest p, tree\<lparr>avl_root := Null, avl_numnodes := 0\<rparr>)"
proof (induction fuel arbitrary: tree p)
  case (Suc fuel)
  show ?case
  proof (cases p)
    case Nil
    then have "avl_root tree \<noteq> Null" using Suc.prems(1) by (auto simp: avl_draining_def)
    with Nil show ?thesis by simp
  next
    case (Cons f p')
    obtain x q tree' where s: "avl_destroy_nodes tree (CkAt (f # p')) = (Some x, CkAt q, tree')"
      "avl_draining tree' q" "x # avl_rest q = avl_rest (f # p')"
      using destroy_next Suc.prems(1) Cons by metis
    have fr: "tree'\<lparr>avl_root := Null, avl_numnodes := 0\<rparr> = tree\<lparr>avl_root := Null, avl_numnodes := 0\<rparr>"
      using s(1) by (cases f) (auto simp: Let_def split: if_splits prod.splits)
    have "length (avl_rest q) < fuel" using s(3) Suc.prems(2) Cons by (metis Suc_less_eq length_Cons)
    then show ?thesis using Suc.IH [OF s(2)] s fr Cons by simp
  qed
qed simp

lemma avl_drain_spec:
  assumes "avl_wf tree" "avl_numnodes tree < fuel"
  shows "avl_drain fuel tree CkNull =
    Some (avl_postorder (avl_root tree), tree\<lparr>avl_root := Null, avl_numnodes := 0\<rparr>)"
proof (cases "avl_root tree = Null")
  case True
  with assms show ?thesis
    by (cases fuel) (auto simp: avl_wf_def avl_list_def)
next
  case False
  obtain x p where s: "avl_destroy_nodes tree CkNull = (Some x, CkAt p, tree)"
    "avl_draining tree p" "x # avl_rest p = avl_postorder (avl_root tree)"
    using destroy_first [OF assms(1) False] by metis
  obtain fuel' where fuel: "fuel = Suc fuel'" using assms(2) by (cases fuel) auto
  have "length (avl_rest p) < fuel'"
    using s(3) assms fuel length_postorder [of "avl_root tree"]
    by (metis Suc_less_eq avl_list_def avl_wf_def length_Cons)
  then show ?thesis using drain_from [OF s(2)] s fuel by simp
qed

subsection \<open>Height\<close>

lemma avl_height_bound: "avl_balanced t \<Longrightarrow> 2 ^ (avl_height t div 2) \<le> length (avl_inorder t) + 1"
proof (induction t)
  case (Node d b l r)
  let ?m = "avl_height (Node d b l r) - 2"
  have hl: "?m \<le> avl_height l" and hr: "?m \<le> avl_height r"
    using Node.prems by auto
  show ?case
  proof (cases "avl_height (Node d b l r) \<ge> 2")
    case True
    then have "avl_height (Node d b l r) div 2 = Suc (?m div 2)" by simp
    then have "(2::nat) ^ (avl_height (Node d b l r) div 2) = 2 ^ (?m div 2) + 2 ^ (?m div 2)"
      by simp
    also have "\<dots> \<le> 2 ^ (avl_height l div 2) + 2 ^ (avl_height r div 2)"
      by (intro add_mono power_increasing div_le_mono hl hr) auto
    also have "\<dots> \<le> (length (avl_inorder l) + 1) + (length (avl_inorder r) + 1)"
      using Node by (intro add_mono) auto
    finally show ?thesis by simp
  next
    case False
    then have "avl_height (Node d b l r) div 2 = 0" by simp
    then show ?thesis by (simp del: avl_height.simps)
  qed
qed simp

subsection \<open>Stores into linked elements\<close>

lemma height_map [simp]: "avl_height (map_avl_node f t) = avl_height t"
  by (induction t) auto

lemma balanced_map [simp]: "avl_balanced (map_avl_node f t) = avl_balanced t"
  by (induction t) auto

lemma inorder_map: "avl_inorder (map_avl_node f t) = map f (avl_inorder t)"
  by (induction t) auto

lemma avl_store_compar [simp]: "avl_compar (avl_store t x x') = avl_compar t"
  by (simp add: avl_store_def)

lemma avl_store_wf [simp]: "avl_wf (avl_store t x x') = avl_wf t"
  by (simp add: avl_store_def avl_wf_def avl_list_def inorder_map)

lemma avl_store_list:
  assumes "distinct (avl_list t)" "avl_list t = xs @ x # ys"
  shows "avl_list (avl_store t x x') = xs @ x' # ys"
proof -
  have "x \<notin> set xs" "x \<notin> set ys" using assms by auto
  then have "map (\<lambda>y. if y = x then x' else y) (xs @ x # ys) = xs @ x' # ys"
    by (auto intro!: map_idI)
  then show ?thesis using assms(2) by (simp add: avl_store_def avl_list_def inorder_map)
qed

lemma avl_create_simps [simp]:
  "avl_list (avl_create c) = []" "avl_wf (avl_create c)" "avl_compar (avl_create c) = c"
  by (auto simp: avl_create_def avl_list_def avl_wf_def)

subsection \<open>The callers' loop\<close>

lemma foreach_from:
  assumes "distinct (avl_list t)"
  shows "avl_list t = xs @ ys \<Longrightarrow> length ys \<le> fuel \<Longrightarrow>
    avl_foreach fuel t (case ys of [] \<Rightarrow> None | y # _ \<Rightarrow> Some y) body s = foldM body s ys"
proof (induction ys arbitrary: xs s fuel)
  case (Cons y ys)
  obtain f where f: "fuel = Suc f" using Cons.prems(2) by (cases fuel) auto
  have "avl_walk t y ChRight = (case ys of [] \<Rightarrow> None | y # _ \<Rightarrow> Some y)"
    using avl_walk_next [OF assms Cons.prems(1)] .
  then show ?case
    using Cons.IH [of "xs @ [y]" f] Cons.prems f by (auto split: option.splits)
qed (cases fuel; simp)

lemma avl_foreach_foldM:
  assumes "distinct (avl_list t)" "length (avl_list t) \<le> fuel"
  shows "avl_foreach fuel t (avl_first t) body s = foldM body s (avl_list t)"
  using foreach_from [OF assms(1), of "[]" "avl_list t"] assms(2) by (simp add: avl_first_hd)

end
