(* ===== verification/Avl_Interface.thy ===== *)
theory Avl_Interface
  imports Avl_Invariant
begin

text \<open>
  The contracts of the AVL component. Locale \<^verbatim>\<open>avl_comparator\<close> is what \<^verbatim>\<open>avl_create()\<close>
  asks of a comparison function; locale \<^verbatim>\<open>ordered_tree\<close> is what the users of the tree rely
  on: what a search finds, and what insertion, removal and a store do to the list of
  elements. It is interpreted on the operations of \<^verbatim>\<open>avl.c\<close>. The properties of the
  component close the theory.
\<close>

subsection \<open>Comparison functions\<close>

locale avl_comparator =
  fixes cmp :: "'a \<Rightarrow> 'a \<Rightarrow> int"
  assumes cmp_range: "cmp x y \<in> {-1, 0, 1}"
    and cmp_anti: "cmp y x = - cmp x y"
    and cmp_trans: "cmp x y = -1 \<Longrightarrow> cmp y z = -1 \<Longrightarrow> cmp x z = -1"
    and cmp_cong: "cmp x y = 0 \<Longrightarrow> cmp x z = cmp y z"
begin

lemma cmp_refl: "cmp x x = 0"
  using cmp_anti [of x x] by simp

lemma cmp_mono: "cmp x y = -1 \<Longrightarrow> cmp v y \<le> cmp v x"
proof -
  assume xy: "cmp x y = -1"
  consider "cmp v x = -1" | "cmp v x = 0" | "cmp v x = 1" using cmp_range [of v x] by auto
  then show ?thesis
  proof cases
    case 1
    then show ?thesis using cmp_trans [OF _ xy, of v] by simp
  next
    case 2
    then show ?thesis using cmp_cong [OF 2, of y] xy by simp
  next
    case 3
    then show ?thesis using cmp_range [of v y] by auto
  qed
qed

lemma cmp_abs: "\<bar>cmp x y\<bar> \<le> 1"
  using cmp_range [of x y] by auto

lemma sorted_search_ok: "sorted_wrt (\<lambda>x y. cmp x y = -1) xs \<Longrightarrow> avl_search_ok cmp v xs"
  unfolding avl_search_ok_def
  by (blast intro: cmp_abs cmp_mono sorted_wrt_mono_rel [where P = "\<lambda>x y. cmp x y = -1"])

lemma sorted_distinct: "sorted_wrt (\<lambda>x y. cmp x y = -1) xs \<Longrightarrow> distinct xs"
proof (induction xs)
  case (Cons x xs)
  then have "x \<notin> set xs" using cmp_refl [of x] by force
  with Cons show ?case by simp
qed simp

lemma sorted_insert:
  assumes "sorted_wrt (\<lambda>x y. cmp x y = -1) (xs @ ys)"
    and "\<forall>x \<in> set xs. cmp v x = 1" "\<forall>y \<in> set ys. cmp v y = -1"
  shows "sorted_wrt (\<lambda>x y. cmp x y = -1) (xs @ v # ys)"
proof -
  have "cmp x v = -1" if "x \<in> set xs" for x using cmp_anti [of v x] assms(2) that by simp
  then show ?thesis using assms by (simp add: sorted_wrt_append)
qed

end

definition avl_sorted :: "'a avl_tree \<Rightarrow> bool" where
  "avl_sorted tree \<longleftrightarrow> sorted_wrt (\<lambda>x y. avl_compar tree x y = -1) (avl_list tree)"

definition avl_ok :: "'a avl_tree \<Rightarrow> bool" where
  "avl_ok tree \<longleftrightarrow> avl_wf tree \<and> avl_comparator (avl_compar tree) \<and> avl_sorted tree"

lemma avl_okD:
  assumes "avl_ok tree"
  shows avl_ok_search: "avl_search_ok (avl_compar tree) v (avl_list tree)"
    and avl_ok_distinct: "distinct (avl_list tree)" and avl_ok_wf: "avl_wf tree"
proof -
  have c: "avl_comparator (avl_compar tree)"
    and s: "sorted_wrt (\<lambda>x y. avl_compar tree x y = -1) (avl_list tree)"
    using assms by (simp_all add: avl_ok_def avl_sorted_def)
  show "avl_search_ok (avl_compar tree) v (avl_list tree)"
    by (rule avl_comparator.sorted_search_ok [OF c s])
  show "distinct (avl_list tree)" by (rule avl_comparator.sorted_distinct [OF c s])
  show "avl_wf tree" using assms by (simp add: avl_ok_def)
qed

lemma avl_add_cases:
  assumes "avl_ok tree"
  shows "case avl_add tree x of
      None \<Rightarrow> \<exists>y \<in> set (avl_list tree). avl_compar tree x y = 0
    | Some tree' \<Rightarrow> avl_ok tree' \<and> (\<forall>y \<in> set (avl_list tree). avl_compar tree x y \<noteq> 0) \<and>
        mset (avl_list tree') = add_mset x (mset (avl_list tree)) \<and> avl_compar tree' = avl_compar tree"
proof (cases "avl_find tree x")
  case (Inl d)
  then show ?thesis using avl_find_Inl [OF Inl] by (auto simp: avl_add_def)
next
  case (Inr w)
  note s = avl_find_Inr [OF Inr avl_ok_search [OF assms]]
  obtain tree' where t': "avl_insert tree x w = Some tree'" "avl_wf tree'"
    "avl_list tree' = avl_before w @ x # avl_after w" "avl_compar tree' = avl_compar tree"
    using avl_insert_spec [OF avl_ok_wf [OF assms] s(1)] by metis
  have c: "avl_comparator (avl_compar tree)"
    and so: "sorted_wrt (\<lambda>x y. avl_compar tree x y = -1) (avl_before w @ avl_after w)"
    using assms s(2) by (simp_all add: avl_ok_def avl_sorted_def)
  have "avl_ok tree'"
    unfolding avl_ok_def avl_sorted_def t'(3,4)
    using t'(2) c avl_comparator.sorted_insert [OF c so] s(3,4) by simp
  moreover have "\<forall>y \<in> set (avl_list tree). avl_compar tree x y \<noteq> 0"
    unfolding s(2) using s(3,4) by fastforce
  ultimately show ?thesis using Inr t' s(2) by (simp add: avl_add_def)
qed

lemma avl_remove_ok:
  assumes "avl_ok tree" "avl_list tree = xs @ x # ys"
  obtains tree' where "avl_remove tree x = Some tree'" "avl_ok tree'" "avl_list tree' = xs @ ys"
    "avl_compar tree' = avl_compar tree"
proof -
  obtain tree' where "avl_remove tree x = Some tree'" "avl_wf tree'" "avl_list tree' = xs @ ys"
    "avl_compar tree' = avl_compar tree"
    using avl_remove_spec [OF avl_ok_wf [OF assms(1)] avl_ok_distinct [OF assms(1)] assms(2)] .
  then show thesis using assms that [of tree']
    by (simp add: avl_ok_def avl_sorted_def sorted_wrt_append)
qed

subsection \<open>An element whose key has changed\<close>

context avl_comparator
begin

lemma sorted_between:
  assumes so: "sorted_wrt (\<lambda>x y. cmp x y = -1) (xs @ ys)"
    and "xs = [] \<or> cmp v (last xs) = 1" "ys = [] \<or> cmp v (hd ys) = -1"
  shows "sorted_wrt (\<lambda>x y. cmp x y = -1) (xs @ v # ys)"
proof (rule sorted_insert [OF so])
  show "\<forall>x \<in> set xs. cmp v x = 1"
  proof
    fix x assume x: "x \<in> set xs"
    then obtain zs z where xs: "xs = zs @ [z]" by (metis append_butlast_last_id list.set_cases list.discI)
    then have z: "cmp v z = 1" using assms(2) by auto
    have "x = z \<or> cmp x z = -1" using x xs so by (auto simp: sorted_wrt_append)
    then show "cmp v x = 1" using z cmp_mono [of x z v] cmp_abs [of v x] by auto
  qed
  show "\<forall>y \<in> set ys. cmp v y = -1"
  proof
    fix y assume y: "y \<in> set ys"
    then obtain z zs where ys: "ys = z # zs" by (cases ys) auto
    then have z: "cmp v z = -1" using assms(3) by auto
    have "y = z \<or> cmp z y = -1" using y ys so by (auto simp: sorted_wrt_append)
    then show "cmp v y = -1" using z cmp_mono [of z y v] cmp_abs [of v y] by auto
  qed
qed

end

definition avl_displaced :: "'a avl_tree \<Rightarrow> 'a list \<Rightarrow> 'a \<Rightarrow> 'a list \<Rightarrow> bool" where
  "avl_displaced t xs obj ys \<longleftrightarrow> avl_wf t \<and> avl_comparator (avl_compar t) \<and>
     avl_list t = xs @ obj # ys \<and> sorted_wrt (\<lambda>x y. avl_compar t x y = -1) (xs @ ys) \<and>
     (\<forall>y \<in> set (xs @ ys). avl_compar t obj y \<noteq> 0)"

lemma displaced_distinct:
  assumes "avl_displaced t xs obj ys"
  shows "distinct (avl_list t)"
proof -
  have c: "avl_comparator (avl_compar t)" using assms by (simp add: avl_displaced_def)
  have "sorted_wrt (\<lambda>x y. avl_compar t x y = -1) (xs @ ys)"
    using assms by (simp add: avl_displaced_def)
  then have "distinct (xs @ ys)" by (rule avl_comparator.sorted_distinct [OF c])
  moreover have "obj \<notin> set (xs @ ys)"
    using assms avl_comparator.cmp_refl [OF c, of obj] by (force simp: avl_displaced_def)
  ultimately show ?thesis using assms by (auto simp: avl_displaced_def)
qed

lemma reinsert_displaced:
  assumes dis: "avl_displaced t xs obj ys"
  obtains t' where "avl_reinsert t obj = Some t'" "avl_ok t'" "mset (avl_list t') = mset (avl_list t)"
proof -
  obtain t1 where t1: "avl_remove t obj = Some t1" "avl_wf t1" "avl_list t1 = xs @ ys"
    "avl_compar t1 = avl_compar t"
    using avl_remove_spec [OF _ displaced_distinct [OF dis]] dis unfolding avl_displaced_def by metis
  then have ok: "avl_ok t1" using dis by (simp add: avl_ok_def avl_sorted_def avl_displaced_def)
  obtain t' where "avl_add t1 obj = Some t'" "avl_ok t'"
    "mset (avl_list t') = add_mset obj (mset (avl_list t1))"
    using avl_add_cases [OF ok, of obj] t1 dis
    by (auto simp: avl_displaced_def split: option.splits)
  then show thesis using t1 dis
    by (intro that [of t']) (auto simp: avl_reinsert_def avl_displaced_def)
qed

lemma not_displaced:
  assumes "avl_displaced t xs obj ys"
    and "xs = [] \<or> avl_compar t obj (last xs) = 1" "ys = [] \<or> avl_compar t obj (hd ys) = -1"
  shows "avl_ok t"
  using assms avl_comparator.sorted_between [of "avl_compar t" xs ys obj]
  by (simp add: avl_displaced_def avl_ok_def avl_sorted_def)

lemma displaced_cmp:
  assumes "avl_displaced t xs obj ys" "y \<in> set (xs @ ys)"
  shows "avl_compar t obj y = 1 \<or> avl_compar t obj y = -1"
  using assms avl_comparator.cmp_range [of "avl_compar t" obj y] by (auto simp: avl_displaced_def)

lemma avl_update_displaced:
  assumes dis: "avl_displaced t xs obj ys"
  obtains t' b where "avl_update t obj = Some (t', b)" "avl_ok t'"
    "mset (avl_list t') = mset (avl_list t)"
proof -
  note d = displaced_distinct [OF dis]
  have l: "avl_list t = xs @ obj # ys" using dis by (simp add: avl_displaced_def)
  obtain t' where t': "avl_reinsert t obj = Some t'" "avl_ok t'" "mset (avl_list t') = mset (avl_list t)"
    using reinsert_displaced [OF dis] .
  show thesis
  proof (cases "(xs \<noteq> [] \<and> avl_compar t obj (last xs) < 0) \<or> (ys \<noteq> [] \<and> avl_compar t obj (hd ys) > 0)")
    case True
    then have "avl_update t obj = Some (t', True)"
      using t' by (cases ys) (auto simp: avl_update_def avl_walk_prev [OF d l] avl_walk_next [OF d l])
    then show thesis using t' that by blast
  next
    case False
    have "xs = [] \<or> avl_compar t obj (last xs) = 1" "ys = [] \<or> avl_compar t obj (hd ys) = -1"
      using False displaced_cmp [OF dis, of "last xs"] displaced_cmp [OF dis, of "hd ys"] by force+
    then have "avl_ok t" by (rule not_displaced [OF dis])
    moreover have "avl_update t obj = Some (t, False)"
      using False by (cases ys) (auto simp: avl_update_def avl_walk_prev [OF d l] avl_walk_next [OF d l])
    ultimately show thesis using that by blast
  qed
qed

lemma avl_update_lt_displaced:
  assumes dis: "avl_displaced t xs obj ys" and "\<forall>y \<in> set ys. avl_compar t obj y = -1"
  shows "avl_update_lt t obj = avl_update t obj"
proof -
  note d = displaced_distinct [OF dis]
  have l: "avl_list t = xs @ obj # ys" using dis by (simp add: avl_displaced_def)
  show ?thesis using assms(2)
    by (cases ys) (auto simp: avl_update_def avl_update_lt_def avl_walk_prev [OF d l] avl_walk_next [OF d l])
qed

lemma avl_update_gt_displaced:
  assumes dis: "avl_displaced t xs obj ys" and "\<forall>x \<in> set xs. avl_compar t obj x = 1"
  shows "avl_update_gt t obj = avl_update t obj"
proof -
  note d = displaced_distinct [OF dis]
  have l: "avl_list t = xs @ obj # ys" using dis by (simp add: avl_displaced_def)
  have "\<not> (xs \<noteq> [] \<and> avl_compar t obj (last xs) < 0)" using assms(2) by force
  then show ?thesis
    by (cases ys) (auto simp: avl_update_def avl_update_gt_def avl_walk_prev [OF d l] avl_walk_next [OF d l])
qed

subsection \<open>The interface the users of the tree rely on\<close>

locale ordered_tree =
  fixes elems :: "'t \<Rightarrow> 'a list"
    and wf_tree :: "'t \<Rightarrow> bool"
    and compar :: "'t \<Rightarrow> 'a \<Rightarrow> 'a \<Rightarrow> int"
    and find :: "'t \<Rightarrow> 'a \<Rightarrow> 'a + 'i"
    and valid_index :: "'t \<Rightarrow> 'i \<Rightarrow> bool"
    and below :: "'i \<Rightarrow> 'a list"
    and above :: "'i \<Rightarrow> 'a list"
    and insert_at :: "'t \<Rightarrow> 'a \<Rightarrow> 'i \<Rightarrow> 't option"
    and remove :: "'t \<Rightarrow> 'a \<Rightarrow> 't option"
    and store :: "'t \<Rightarrow> 'a \<Rightarrow> 'a \<Rightarrow> 't"
  assumes find_hit: "find t v = Inl d \<Longrightarrow> d \<in> set (elems t) \<and> compar t v d = 0"
    and find_miss: "find t v = Inr i \<Longrightarrow> avl_search_ok (compar t) v (elems t) \<Longrightarrow>
      valid_index t i \<and> (\<forall>x \<in> set (below i). compar t v x = 1) \<and>
      (\<forall>x \<in> set (above i). compar t v x = -1)"
    and index_split: "valid_index t i \<Longrightarrow> elems t = below i @ above i"
    and insert_law: "wf_tree t \<Longrightarrow> valid_index t i \<Longrightarrow>
      \<exists>t'. insert_at t x i = Some t' \<and> wf_tree t' \<and> compar t' = compar t \<and>
           elems t' = below i @ x # above i"
    and remove_law: "wf_tree t \<Longrightarrow> distinct (elems t) \<Longrightarrow> elems t = xs @ x # ys \<Longrightarrow>
      \<exists>t'. remove t x = Some t' \<and> wf_tree t' \<and> compar t' = compar t \<and> elems t' = xs @ ys"
    and store_law: "distinct (elems t) \<Longrightarrow> elems t = xs @ x # ys \<Longrightarrow>
      elems (store t x x') = xs @ x' # ys"
    and store_wf: "wf_tree (store t x x') = wf_tree t"
    and store_compar: "compar (store t x x') = compar t"
begin

lemma find_cases:
  assumes "avl_search_ok (compar t) v (elems t)"
  obtains (hit) d where "find t v = Inl d" "d \<in> set (elems t)" "compar t v d = 0"
    | (miss) i where "find t v = Inr i" "valid_index t i" "elems t = below i @ above i"
        "\<forall>x \<in> set (below i). compar t v x = 1" "\<forall>x \<in> set (above i). compar t v x = -1"
  using find_hit [of t v] find_miss [OF _ assms] index_split
  by (cases "find t v") blast+

lemma find_iff:
  assumes "avl_search_ok (compar t) v (elems t)"
  shows "(\<exists>d. find t v = Inl d) \<longleftrightarrow> (\<exists>d \<in> set (elems t). compar t v d = 0)"
  using assms by (cases rule: find_cases) auto

lemma remove_store:
  assumes "wf_tree t" "distinct (elems t)" "elems t = xs @ x # y # ys"
  shows "\<exists>t'. remove t x = Some t' \<and> wf_tree (store t' y y') \<and>
     compar (store t' y y') = compar t \<and> elems (store t' y y') = xs @ y' # ys"
proof -
  obtain t' where t': "remove t x = Some t'" "wf_tree t'" "compar t' = compar t" "elems t' = xs @ y # ys"
    using remove_law [OF assms] by blast
  moreover have "distinct (elems t')" using assms(2,3) t'(4) by auto
  ultimately show ?thesis
    using store_law [of t' xs y ys y'] by (simp add: store_wf store_compar)
qed

end

interpretation avl: ordered_tree avl_list avl_wf avl_compar avl_find avl_index_ok avl_before avl_after
  avl_insert avl_remove avl_store
proof unfold_locales
  fix t :: "'a avl_tree" and v d assume "avl_find t v = Inl d"
  then show "d \<in> set (avl_list t) \<and> avl_compar t v d = 0" by (rule avl_find_Inl)
next
  fix t :: "'a avl_tree" and v i assume "avl_find t v = Inr i" "avl_search_ok (avl_compar t) v (avl_list t)"
  then show "avl_index_ok t i \<and> (\<forall>x \<in> set (avl_before i). avl_compar t v x = 1) \<and>
      (\<forall>x \<in> set (avl_after i). avl_compar t v x = -1)"
    using avl_find_Inr [of t v i] by simp
next
  fix t :: "'a avl_tree" and i assume "avl_index_ok t i"
  then show "avl_list t = avl_before i @ avl_after i"
    using inorder_plug [of Null i] by (simp add: avl_index_ok_def avl_list_def)
next
  fix t :: "'a avl_tree" and i x assume "avl_wf t" "avl_index_ok t i"
  then show "\<exists>t'. avl_insert t x i = Some t' \<and> avl_wf t' \<and> avl_compar t' = avl_compar t \<and>
           avl_list t' = avl_before i @ x # avl_after i"
    using avl_insert_spec [of t i x] by metis
next
  fix t :: "'a avl_tree" and xs x ys
  assume "avl_wf t" "distinct (avl_list t)" "avl_list t = xs @ x # ys"
  then show "\<exists>t'. avl_remove t x = Some t' \<and> avl_wf t' \<and> avl_compar t' = avl_compar t \<and>
      avl_list t' = xs @ ys"
    using avl_remove_spec [of t xs x ys] by metis
qed (simp_all add: avl_store_list)

subsection \<open>Properties\<close>

text \<open>A comparison function and a tree the examples below are evaluated on.\<close>

definition int_compare :: "int \<Rightarrow> int \<Rightarrow> int" where
  "int_compare x y = (if x < y then -1 else if x > y then 1 else 0)"

interpretation int_cmp: avl_comparator int_compare
  by unfold_locales (auto simp: int_compare_def split: if_splits)

definition avl_sample :: "int avl_tree" where
  "avl_sample = \<lparr>avl_root = Node 2 1 (Node 1 0 Null Null) (Node 4 1 Null (Node 8 0 Null Null)),
                avl_compar = int_compare, avl_numnodes = 4\<rparr>"

lemma avl_sample_ok: "avl_ok avl_sample"
  by (simp add: avl_ok_def avl_wf_def avl_sorted_def avl_list_def avl_sample_def
      int_cmp.avl_comparator_axioms) (simp add: int_compare_def)

lemma avl_sample_list: "avl_list avl_sample = [1, 2, 4, 8]"
  by (simp add: avl_list_def avl_sample_def)

lemma avl_sample_add: "map_option avl_list (avl_add avl_sample 9) = Some [1, 2, 4, 8, 9]"
  by code_simp

lemma avl_sample_remove: "map_option avl_list (avl_remove avl_sample 2) = Some [1, 4, 8]"
  by code_simp

text \<open>C1: \<^verbatim>\<open>avl_add()\<close> panics exactly when the tree holds an element equal to the new one; otherwise
  it never dereferences \<^verbatim>\<open>NULL\<close>, adds exactly that element and keeps the tree ordered,
  height-balanced and its node count right.\<close>

theorem avl_add_correct:
  assumes "avl_ok tree"
  shows "case avl_add tree x of
      None \<Rightarrow> \<exists>y \<in> set (avl_list tree). avl_compar tree x y = 0
    | Some tree' \<Rightarrow> avl_ok tree' \<and> (\<forall>y \<in> set (avl_list tree). avl_compar tree x y \<noteq> 0) \<and>
        mset (avl_list tree') = add_mset x (mset (avl_list tree))"
  using avl_add_cases [OF assms, of x] by (cases "avl_add tree x") simp_all

theorem avl_add_correct_witness:
  "avl_ok avl_sample \<and> (\<exists>t. avl_add avl_sample 9 = Some t \<and> avl_ok t \<and> avl_list t = [1, 2, 4, 8, 9])"
proof -
  obtain t where "avl_add avl_sample 9 = Some t" "avl_list t = [1, 2, 4, 8, 9]"
    using avl_sample_add by auto
  then show ?thesis using avl_add_correct [OF avl_sample_ok, of 9] avl_sample_ok by simp
qed

text \<open>C2: \<^verbatim>\<open>avl_remove()\<close> of an element of the tree, at a leaf or in the interior, never dereferences
  \<^verbatim>\<open>NULL\<close>, unlinks exactly that element, keeps the order of the others and keeps the tree
  height-balanced with the right node count.\<close>

theorem avl_remove_correct:
  assumes "avl_ok tree" "x \<in> set (avl_list tree)"
  shows "\<exists>tree'. avl_remove tree x = Some tree' \<and> avl_ok tree' \<and>
    avl_list tree' = remove1 x (avl_list tree) \<and> avl_numnodes tree' = avl_numnodes tree - 1"
proof -
  obtain xs ys where l: "avl_list tree = xs @ x # ys" "x \<notin> set xs"
    using assms(2) by (meson split_list_first)
  then obtain tree' where "avl_remove tree x = Some tree'" "avl_ok tree'" "avl_list tree' = xs @ ys"
    using avl_remove_ok [OF assms(1) l(1)] by blast
  then show ?thesis using l avl_ok_wf [OF assms(1)] avl_ok_wf [of tree']
    by (auto simp: remove1_append avl_wf_def)
qed

theorem avl_remove_correct_witness:
  "avl_ok avl_sample \<and> (\<exists>t. avl_remove avl_sample 2 = Some t \<and> avl_ok t \<and> avl_list t = [1, 4, 8])"
  using avl_remove_correct [OF avl_sample_ok, of 2] avl_sample_ok by (auto simp: avl_sample_list)

text \<open>C3: \<^verbatim>\<open>avl_find()\<close> returns an equal element when the tree has one. Otherwise the index it
  fills in makes \<^verbatim>\<open>avl_nearest()\<close> return the greatest smaller element before it and the least
  greater element after it.\<close>

theorem avl_find_nearest_correct:
  assumes "avl_ok tree"
  shows "case avl_find tree v of
      Inl d \<Rightarrow> d \<in> set (avl_list tree) \<and> avl_compar tree v d = 0
    | Inr w \<Rightarrow> (\<exists>xs ys. avl_list tree = xs @ ys \<and>
        (\<forall>x \<in> set xs. avl_compar tree v x = 1) \<and> (\<forall>y \<in> set ys. avl_compar tree v y = -1) \<and>
        avl_nearest tree w ChLeft = (if xs = [] then None else Some (last xs)) \<and>
        avl_nearest tree w ChRight = (if ys = [] then None else Some (hd ys)))"
  using avl_ok_search [OF assms, of v]
proof (cases rule: avl.find_cases)
  case (miss w)
  have "avl_nearest tree w ChRight = (if avl_after w = [] then None else Some (hd (avl_after w)))"
    by (simp add: avl_nearest_after split: list.split)
  with miss show ?thesis by (auto simp: avl_nearest_before)
qed simp

theorem avl_find_nearest_correct_witness:
  "avl_ok avl_sample \<and> avl_find avl_sample 4 = Inl 4 \<and>
   (\<exists>w. avl_find avl_sample 5 = Inr w \<and> avl_nearest avl_sample w ChLeft = Some 4 \<and>
        avl_nearest avl_sample w ChRight = Some 8)"
  using avl_find_nearest_correct [OF avl_sample_ok, of 5] avl_sample_ok
  by (simp add: avl_sample_def avl_find_def Let_def int_compare_def avl_balance2child_def
      avl_walk_node_def)

text \<open>C4: walking with \<^verbatim>\<open>AVL_NEXT\<close> and \<^verbatim>\<open>AVL_PREV\<close> steps through the elements in order, from
  \<^verbatim>\<open>avl_first()\<close> to \<^verbatim>\<open>avl_last()\<close>, and returns \<^verbatim>\<open>NULL\<close> past either end.\<close>

theorem avl_walk_correct:
  assumes "avl_ok tree" "i < length (avl_list tree)"
  shows "avl_walk tree (avl_list tree ! i) ChRight =
       (if Suc i < length (avl_list tree) then Some (avl_list tree ! Suc i) else None) \<and>
     avl_walk tree (avl_list tree ! i) ChLeft =
       (if i = 0 then None else Some (avl_list tree ! (i - 1))) \<and>
     avl_first tree = Some (avl_list tree ! 0) \<and>
     avl_last tree = Some (avl_list tree ! (length (avl_list tree) - 1))"
proof -
  let ?l = "avl_list tree"
  have l: "?l = take i ?l @ ?l ! i # drop (Suc i) ?l" using assms(2) by (rule id_take_nth_drop)
  note d = avl_ok_distinct [OF assms(1)]
  have "?l \<noteq> []" using assms(2) by auto
  then show ?thesis
    using avl_walk_next [OF d l] avl_walk_prev [OF d l] assms(2)
    by (auto simp: avl_first_hd avl_last_last hd_conv_nth last_conv_nth Cons_nth_drop_Suc [symmetric]
        split: list.splits)
qed

theorem avl_walk_correct_witness:
  "avl_ok avl_sample \<and> avl_walk avl_sample 4 ChRight = Some 8 \<and> avl_walk avl_sample 4 ChLeft = Some 2"
  using avl_walk_correct [OF avl_sample_ok, of 2] avl_sample_ok by (simp add: avl_sample_list)

text \<open>C5: calling \<^verbatim>\<open>avl_destroy_nodes()\<close> until it returns \<^verbatim>\<open>NULL\<close> ends after one call more than
  there are nodes, returns every element exactly once, children before their parents, and
  leaves the tree empty.\<close>

theorem avl_destroy_nodes_correct:
  assumes "avl_wf tree"
  shows "\<exists>xs. avl_drain (avl_numnodes tree + 1) tree CkNull =
       Some (xs, tree\<lparr>avl_root := Null, avl_numnodes := 0\<rparr>) \<and>
     xs = avl_postorder (avl_root tree) \<and> mset xs = mset (avl_list tree)"
  using avl_drain_spec [OF assms, of "avl_numnodes tree + 1"]
  by (simp add: mset_postorder avl_list_def del: avl_drain.simps)

theorem avl_destroy_nodes_correct_witness:
  "avl_wf avl_sample \<and> (\<exists>t. avl_drain 5 avl_sample CkNull = Some ([1, 8, 4, 2], t) \<and> avl_is_empty t)"
  using avl_destroy_nodes_correct [OF avl_ok_wf [OF avl_sample_ok]] avl_ok_wf [OF avl_sample_ok]
  by (simp add: avl_sample_def avl_is_empty_def)

text \<open>C6: after the key of one linked element has changed, \<^verbatim>\<open>avl_update()\<close> brings the tree back
  into order with the same elements, as long as no other element equals it.\<close>

theorem avl_update_correct:
  assumes "avl_displaced tree xs obj ys"
  shows "\<exists>tree' moved. avl_update tree obj = Some (tree', moved) \<and> avl_ok tree' \<and>
    mset (avl_list tree') = mset (avl_list tree)"
  using avl_update_displaced [OF assms] by metis

lemma avl_sample_displaced: "avl_displaced (avl_store avl_sample 2 6) [1] 6 [4, 8]"
proof -
  have "avl_list (avl_store avl_sample 2 6) = [1] @ 6 # [4, 8]"
    by (rule avl_store_list) (simp_all add: avl_sample_list)
  then show ?thesis using avl_sample_ok
    by (simp add: avl_displaced_def avl_ok_def) (simp add: avl_sample_def int_compare_def)
qed

theorem avl_update_correct_witness:
  "avl_displaced (avl_store avl_sample 2 6) [1] 6 [4, 8] \<and>
   (\<exists>t m. avl_update (avl_store avl_sample 2 6) 6 = Some (t, m) \<and> avl_ok t)"
  using avl_update_correct [OF avl_sample_displaced] avl_sample_displaced by blast

end
