(* ===== verification/Space_Map.thy ===== *)
theory Space_Map
  imports Avl_Interface
begin

text \<open>
  Space maps, from \<^verbatim>\<open>src/usr/src/uts/common/fs/zfs/space_map.c\<close> and
  \<^verbatim>\<open>sys/space_map.h\<close>: the tree of free (or allocated) segments of a metaslab, its operations,
  and the log of entries that is its on-disk form. A failed \<^verbatim>\<open>VERIFY\<close>, a panic and a call
  through a NULL pointer are \<open>None\<close>; \<open>zfs_recover\<close> is the tunable that turns
  \<^verbatim>\<open>zfs_panic_recover\<close> into a warning. Locks, condition variables and the assertions of
  DEBUG kernels are left out. The DMU (the object store below) is an argument of the operations that
  read or write the object.
\<close>

section \<open>Space maps (space_map.c)\<close>

subsection \<open>Segments and maps\<close>

record space_seg =
  ss_start :: u64
  ss_end :: u64

definition space_seg :: "u64 \<Rightarrow> u64 \<Rightarrow> space_seg" where
  "space_seg start end = \<lparr>ss_start = start, ss_end = end\<rparr>"

datatype space_map_opsp = Metaslab_ff_ops

record space_map =
  sm_root :: "space_seg avl_tree"
  sm_space :: u64
  sm_start :: u64
  sm_size :: u64
  sm_shift :: nat
  sm_loaded :: bool
  sm_loading :: bool
  sm_ops :: "space_map_opsp option"
  sm_ppd :: "u64 list option"

record space_map_obj =
  smo_object :: u64
  smo_objsize :: u64
  smo_alloc :: u64

record space_map_ops =
  smop_load :: "space_map \<Rightarrow> space_map"
  smop_unload :: "space_map \<Rightarrow> space_map"
  smop_alloc :: "space_map \<Rightarrow> u64 \<Rightarrow> (u64 \<times> space_map) option"
  smop_claim :: "space_map \<Rightarrow> u64 \<Rightarrow> u64 \<Rightarrow> space_map"
  smop_free :: "space_map \<Rightarrow> u64 \<Rightarrow> u64 \<Rightarrow> space_map"

definition space_map_seg_compare :: "space_seg \<Rightarrow> space_seg \<Rightarrow> int" where
  "space_map_seg_compare s1 s2 =
     (if ss_start s1 < ss_start s2 then
        (if ss_end s1 > ss_start s2 then 0 else -1)
      else if ss_start s1 > ss_start s2 then
        (if ss_start s1 < ss_end s2 then 0 else 1)
      else 0)"

definition space_map_create :: "u64 \<Rightarrow> u64 \<Rightarrow> nat \<Rightarrow> space_map" where
  "space_map_create start sz shift =
     \<lparr>sm_root = avl_create space_map_seg_compare, sm_space = 0, sm_start = start, sm_size = sz,
      sm_shift = shift, sm_loaded = False, sm_loading = False, sm_ops = None, sm_ppd = None\<rparr>"

definition space_map_destroy :: "space_map \<Rightarrow> unit option" where
  "space_map_destroy sm =
     (if \<not> sm_loaded sm \<and> \<not> sm_loading sm \<and> sm_space sm = 0 \<and> avl_numnodes (sm_root sm) = 0 \<and>
         avl_root (sm_root sm) = Null
      then Some () else None)"

subsection \<open>Adding, removing and querying ranges\<close>

definition zfs_panic_recover :: "bool \<Rightarrow> 'a \<Rightarrow> 'a option" where
  "zfs_panic_recover zfs_recover s = (if zfs_recover then Some s else None)"

definition space_map_aligned :: "space_map \<Rightarrow> u64 \<Rightarrow> bool" where
  "space_map_aligned sm x \<longleftrightarrow> P2PHASE x (push_bit (sm_shift sm) 1) = 0"

text \<open>The tree after linking a range that overlaps nothing: the neighbours of the slot are looked
  up and merged with where they touch the range.\<close>

definition space_map_link ::
  "space_seg avl_tree \<Rightarrow> space_seg avl_index \<Rightarrow> u64 \<Rightarrow> u64 \<Rightarrow> space_seg avl_tree option" where
  "space_map_link t where start end =
     (let ss_before = avl_nearest t where ChLeft;
          ss_after = avl_nearest t where ChRight;
          merge_before = (case ss_before of Some b \<Rightarrow> ss_end b = start | None \<Rightarrow> False);
          merge_after = (case ss_after of Some a \<Rightarrow> ss_start a = end | None \<Rightarrow> False)
      in if merge_before \<and> merge_after then
           (case avl_remove t (the ss_before) of
              None \<Rightarrow> None
            | Some r \<Rightarrow> Some (avl_store r (the ss_after)
                ((the ss_after)\<lparr>ss_start := ss_start (the ss_before)\<rparr>)))
         else if merge_before then
           Some (avl_store t (the ss_before) ((the ss_before)\<lparr>ss_end := end\<rparr>))
         else if merge_after then
           Some (avl_store t (the ss_after) ((the ss_after)\<lparr>ss_start := start\<rparr>))
         else avl_insert t (space_seg start end) where)"

definition space_map_add :: "bool \<Rightarrow> space_map \<Rightarrow> u64 \<Rightarrow> u64 \<Rightarrow> space_map option" where
  "space_map_add zfs_recover sm start sz =
     (let end = start + sz; t = sm_root sm in
      if \<not> (sz \<noteq> 0 \<and> start \<ge> sm_start sm \<and> end \<le> sm_start sm + sm_size sm \<and>
            sm_space sm + sz \<le> sm_size sm \<and>
            space_map_aligned sm start \<and> space_map_aligned sm sz) then None
      else
        (case avl_find t (space_seg start end) of
           Inl ss \<Rightarrow>
             if ss_start ss \<le> start \<and> ss_end ss \<ge> end then zfs_panic_recover zfs_recover sm
             else None
         | Inr where \<Rightarrow>
             (case space_map_link t where start end of
                None \<Rightarrow> None
              | Some r \<Rightarrow> Some (sm\<lparr>sm_root := r, sm_space := sm_space sm + sz\<rparr>))))"

text \<open>The tree after cutting a range out of the segment that covers it.\<close>

definition space_map_cut ::
  "space_seg avl_tree \<Rightarrow> space_seg \<Rightarrow> u64 \<Rightarrow> u64 \<Rightarrow> space_seg avl_tree option" where
  "space_map_cut t ss start end =
     (let left_over = (ss_start ss \<noteq> start);
          right_over = (ss_end ss \<noteq> end)
      in if left_over \<and> right_over then
           let newseg = space_seg end (ss_end ss);
               ss' = ss\<lparr>ss_end := start\<rparr>
           in avl_insert_here (avl_store t ss ss') newseg ss' ChRight
         else if left_over then Some (avl_store t ss (ss\<lparr>ss_end := start\<rparr>))
         else if right_over then Some (avl_store t ss (ss\<lparr>ss_start := end\<rparr>))
         else avl_remove t ss)"

definition space_map_remove :: "bool \<Rightarrow> space_map \<Rightarrow> u64 \<Rightarrow> u64 \<Rightarrow> space_map option" where
  "space_map_remove zfs_recover sm start sz =
     (let end = start + sz; t = sm_root sm in
      if \<not> (sz \<noteq> 0 \<and> space_map_aligned sm start \<and> space_map_aligned sm sz) then None
      else
        (case avl_find t (space_seg start end) of
           Inr where \<Rightarrow> zfs_panic_recover zfs_recover sm
         | Inl ss \<Rightarrow>
             if \<not> (ss_start ss \<le> start \<and> ss_end ss \<ge> end \<and> sm_space sm - sz \<le> sm_size sm)
             then None
             else
               (case space_map_cut t ss start end of
                  None \<Rightarrow> None
                | Some r \<Rightarrow> Some (sm\<lparr>sm_root := r, sm_space := sm_space sm - sz\<rparr>))))"

definition space_map_contains :: "space_map \<Rightarrow> u64 \<Rightarrow> u64 \<Rightarrow> bool option" where
  "space_map_contains sm start sz =
     (let end = start + sz in
      if \<not> (sz \<noteq> 0 \<and> space_map_aligned sm start \<and> space_map_aligned sm sz) then None
      else Some (case avl_find (sm_root sm) (space_seg start end) of
                   Inr where \<Rightarrow> False
                 | Inl ss \<Rightarrow> ss_start ss \<le> start \<and> ss_end ss \<ge> end))"

text \<open>iterations\<close>

definition space_map_vacate ::
  "space_map \<Rightarrow> ('s \<Rightarrow> u64 \<Rightarrow> u64 \<Rightarrow> 's option) option \<Rightarrow> 's \<Rightarrow> (space_map \<times> 's) option" where
  "space_map_vacate sm func mdest =
     (case avl_drain (avl_numnodes (sm_root sm) + 1) (sm_root sm) CkNull of
        None \<Rightarrow> None
      | Some (segs, t) \<Rightarrow>
          (case foldM (\<lambda>d ss. case func of
                          None \<Rightarrow> Some d
                        | Some f \<Rightarrow> f d (ss_start ss) (ss_end ss - ss_start ss)) mdest segs of
             None \<Rightarrow> None
           | Some d \<Rightarrow> Some (sm\<lparr>sm_root := t, sm_space := 0\<rparr>, d)))"

definition space_map_walk ::
  "space_map \<Rightarrow> ('s \<Rightarrow> u64 \<Rightarrow> u64 \<Rightarrow> 's option) \<Rightarrow> 's \<Rightarrow> 's option" where
  "space_map_walk sm func mdest =
     avl_foreach (avl_numnodes (sm_root sm)) (sm_root sm) (avl_first (sm_root sm))
       (\<lambda>d ss. func d (ss_start ss) (ss_end ss - ss_start ss)) mdest"

fun space_map_excise :: "nat \<Rightarrow> bool \<Rightarrow> space_map \<Rightarrow> u64 \<Rightarrow> u64 \<Rightarrow> space_map option" where
  "space_map_excise 0 zr sm start sz = None"
| "space_map_excise (Suc fuel) zr sm start sz =
     (let end = start + sz; t = sm_root sm;
          ss = (case avl_find t (space_seg start start) of
                  Inl s \<Rightarrow> Some s
                | Inr where \<Rightarrow> avl_nearest t where ChRight)
      in case ss of
           None \<Rightarrow> Some sm
         | Some s \<Rightarrow>
             if ss_start s \<ge> end then Some sm
             else
               let rm_start = max (ss_start s) start;
                   rm_end = min (ss_end s) end
               in (case space_map_remove zr sm rm_start (rm_end - rm_start) of
                     None \<Rightarrow> None
                   | Some sm' \<Rightarrow> space_map_excise fuel zr sm' start sz))"

definition space_map_union :: "bool \<Rightarrow> space_map \<Rightarrow> space_map \<Rightarrow> space_map option" where
  "space_map_union zr smd sms =
     avl_foreach (avl_numnodes (sm_root sms)) (sm_root sms) (avl_first (sm_root sms))
       (\<lambda>d ss. case space_map_excise (avl_numnodes (sm_root d) + 2) zr d (ss_start ss)
                      (ss_end ss - ss_start ss) of
                 None \<Rightarrow> None
               | Some d' \<Rightarrow> space_map_add zr d' (ss_start ss) (ss_end ss - ss_start ss)) smd"

subsection \<open>The on-disk entries (sys/space_map.h)\<close>

definition SM_RUN_DECODE :: "u64 \<Rightarrow> u64" where
  "SM_RUN_DECODE x = BF64_DECODE x 0 15 + 1"

definition SM_RUN_ENCODE :: "u64 \<Rightarrow> u64" where
  "SM_RUN_ENCODE x = BF64_ENCODE (x - 1) 0 15"

definition SM_TYPE_DECODE :: "u64 \<Rightarrow> u64" where
  "SM_TYPE_DECODE x = BF64_DECODE x 15 1"

definition SM_TYPE_ENCODE :: "u64 \<Rightarrow> u64" where
  "SM_TYPE_ENCODE x = BF64_ENCODE x 15 1"

definition SM_OFFSET_DECODE :: "u64 \<Rightarrow> u64" where
  "SM_OFFSET_DECODE x = BF64_DECODE x 16 47"

definition SM_OFFSET_ENCODE :: "u64 \<Rightarrow> u64" where
  "SM_OFFSET_ENCODE x = BF64_ENCODE x 16 47"

definition SM_DEBUG_DECODE :: "u64 \<Rightarrow> u64" where
  "SM_DEBUG_DECODE x = BF64_DECODE x 63 1"

definition SM_DEBUG_ENCODE :: "u64 \<Rightarrow> u64" where
  "SM_DEBUG_ENCODE x = BF64_ENCODE x 63 1"

definition SM_DEBUG_ACTION_DECODE :: "u64 \<Rightarrow> u64" where
  "SM_DEBUG_ACTION_DECODE x = BF64_DECODE x 60 3"

definition SM_DEBUG_ACTION_ENCODE :: "u64 \<Rightarrow> u64" where
  "SM_DEBUG_ACTION_ENCODE x = BF64_ENCODE x 60 3"

definition SM_DEBUG_SYNCPASS_DECODE :: "u64 \<Rightarrow> u64" where
  "SM_DEBUG_SYNCPASS_DECODE x = BF64_DECODE x 50 10"

definition SM_DEBUG_SYNCPASS_ENCODE :: "u64 \<Rightarrow> u64" where
  "SM_DEBUG_SYNCPASS_ENCODE x = BF64_ENCODE x 50 10"

definition SM_DEBUG_TXG_DECODE :: "u64 \<Rightarrow> u64" where
  "SM_DEBUG_TXG_DECODE x = BF64_DECODE x 0 50"

definition SM_DEBUG_TXG_ENCODE :: "u64 \<Rightarrow> u64" where
  "SM_DEBUG_TXG_ENCODE x = BF64_ENCODE x 0 50"

definition SM_RUN_MAX :: u64 where
  "SM_RUN_MAX = SM_RUN_DECODE (NOT 0)"

definition SM_ALLOC :: u8 where
  "SM_ALLOC = 0x0"

definition SM_FREE :: u8 where
  "SM_FREE = 0x1"

definition SPACE_MAP_BLOCKSHIFT :: nat where
  "SPACE_MAP_BLOCKSHIFT = 12"

subsection \<open>Loading a map from its object\<close>

text \<open>A thread that finds a load in progress sleeps; \<open>None\<close> is the blocked thread.\<close>

definition space_map_load_wait :: "space_map \<Rightarrow> unit option" where
  "space_map_load_wait sm = (if sm_loading sm then None else Some ())"

definition space_map_load_entry :: "bool \<Rightarrow> u8 \<Rightarrow> u64 \<Rightarrow> space_map \<Rightarrow> u64 \<Rightarrow> space_map option" where
  "space_map_load_entry zfs_recover maptype mapstart sm e =
     (if SM_DEBUG_DECODE e \<noteq> 0 then Some sm
      else
        (if SM_TYPE_DECODE e = ucast maptype then space_map_add else space_map_remove) zfs_recover sm
          (push_bit (sm_shift sm) (SM_OFFSET_DECODE e) + mapstart)
          (push_bit (sm_shift sm) (SM_RUN_DECODE e)))"

text \<open>The reading loop. The argument \<open>dmu_read\<close> stands for the DMU's read of the object: offset
  and size in bytes, the words read or an error number.\<close>

fun space_map_load_loop ::
  "nat \<Rightarrow> bool \<Rightarrow> (u64 \<Rightarrow> u64 \<Rightarrow> int + u64 list) \<Rightarrow> u8 \<Rightarrow> u64 \<Rightarrow> u64 \<Rightarrow> u64 \<Rightarrow> space_map \<Rightarrow>
   (int \<times> space_map) option" where
  "space_map_load_loop 0 zr dmu_read maptype mapstart offset end sm = None"
| "space_map_load_loop (Suc fuel) zr dmu_read maptype mapstart offset end sm =
     (if \<not> offset < end then Some (0, sm)
      else
        let bufsize = push_bit SPACE_MAP_BLOCKSHIFT 1;
            sz = min (end - offset) bufsize
        in if \<not> (P2PHASE sz 8 = 0 \<and> sz \<noteq> 0) then None
           else
             (case dmu_read offset sz of
                Inl error \<Rightarrow> Some (error, sm)
              | Inr entry_map \<Rightarrow>
                  (case foldM (space_map_load_entry zr maptype mapstart) sm entry_map of
                     None \<Rightarrow> None
                   | Some sm' \<Rightarrow>
                       space_map_load_loop fuel zr dmu_read maptype mapstart (offset + bufsize) end sm')))"

definition space_map_load ::
  "bool \<Rightarrow> (space_map_opsp \<Rightarrow> space_map_ops) \<Rightarrow> (u64 \<Rightarrow> u64 \<Rightarrow> u64 \<Rightarrow> int + u64 list) \<Rightarrow>
   space_map \<Rightarrow> space_map_opsp option \<Rightarrow> u8 \<Rightarrow> space_map_obj \<Rightarrow> (int \<times> space_map) option" where
  "space_map_load zr vec dmu_read sm ops maptype smo =
     (case space_map_load_wait sm of
        None \<Rightarrow> None
      | Some _ \<Rightarrow>
          if sm_loaded sm then Some (0, sm)
          else
            let sm0 = sm\<lparr>sm_loading := True\<rparr>;
                end = smo_objsize smo
            in if sm_space sm0 \<noteq> 0 then None
               else
                 (case (if maptype = SM_FREE then space_map_add zr sm0 (sm_start sm0) (sm_size sm0)
                        else Some sm0) of
                    None \<Rightarrow> None
                  | Some sm1 \<Rightarrow>
                      let space = (if maptype = SM_FREE then sm_size sm1 - smo_alloc smo
                                   else smo_alloc smo)
                      in (case space_map_load_loop (unat end div 4096 + 2) zr
                                 (dmu_read (smo_object smo)) maptype (sm_start sm) 0 end sm1 of
                            None \<Rightarrow> None
                          | Some (error, sm2) \<Rightarrow>
                              if error = 0 then
                                (if sm_space sm2 \<noteq> space then None
                                 else
                                   let sm3 = sm2\<lparr>sm_loaded := True, sm_ops := ops\<rparr>;
                                       sm4 = (case ops of None \<Rightarrow> sm3 | Some p \<Rightarrow> smop_load (vec p) sm3)
                                   in Some (0, sm4\<lparr>sm_loading := False\<rparr>))
                              else
                                (case space_map_vacate sm2 None () of
                                   None \<Rightarrow> None
                                 | Some (sm3, _) \<Rightarrow> Some (error, sm3\<lparr>sm_loading := False\<rparr>)))))"

definition space_map_unload ::
  "(space_map_opsp \<Rightarrow> space_map_ops) \<Rightarrow> space_map \<Rightarrow> space_map option" where
  "space_map_unload vec sm =
     (let sm1 = (if sm_loaded sm then
                   (case sm_ops sm of None \<Rightarrow> sm | Some p \<Rightarrow> smop_unload (vec p) sm)
                 else sm);
          sm2 = sm1\<lparr>sm_loaded := False, sm_ops := None\<rparr>
      in map_option fst (space_map_vacate sm2 None ()))"

subsection \<open>Allocating through the block picker\<close>

text \<open>A call through a NULL ops vector is a fault: \<open>None\<close>.\<close>

definition space_map_alloc ::
  "bool \<Rightarrow> (space_map_opsp \<Rightarrow> space_map_ops) \<Rightarrow> space_map \<Rightarrow> u64 \<Rightarrow> (u64 \<times> space_map) option" where
  "space_map_alloc zr vec sm sz =
     (case sm_ops sm of
        None \<Rightarrow> None
      | Some p \<Rightarrow>
          (case smop_alloc (vec p) sm sz of
             None \<Rightarrow> None
           | Some (start, sm1) \<Rightarrow>
               if start \<noteq> -1 then map_option (Pair start) (space_map_remove zr sm1 start sz)
               else Some (start, sm1)))"

definition space_map_claim ::
  "bool \<Rightarrow> (space_map_opsp \<Rightarrow> space_map_ops) \<Rightarrow> space_map \<Rightarrow> u64 \<Rightarrow> u64 \<Rightarrow> space_map option" where
  "space_map_claim zr vec sm start sz =
     (case sm_ops sm of
        None \<Rightarrow> None
      | Some p \<Rightarrow> space_map_remove zr (smop_claim (vec p) sm start sz) start sz)"

definition space_map_free ::
  "bool \<Rightarrow> (space_map_opsp \<Rightarrow> space_map_ops) \<Rightarrow> space_map \<Rightarrow> u64 \<Rightarrow> u64 \<Rightarrow> space_map option" where
  "space_map_free zr vec sm start sz =
     (case space_map_add zr sm start sz of
        None \<Rightarrow> None
      | Some sm1 \<Rightarrow>
          (case sm_ops sm1 of
             None \<Rightarrow> None
           | Some p \<Rightarrow> Some (smop_free (vec p) sm1 start sz)))"

subsection \<open>Writing a map to its object\<close>

text \<open>The entry buffer, the size of the object so far and the writes issued so far.\<close>

record space_map_out =
  out_buf :: "u64 list"
  out_objsize :: u64
  out_writes :: "(u64 \<times> u64 list) list"

definition space_map_emit :: "nat \<Rightarrow> u64 \<Rightarrow> space_map_out \<Rightarrow> space_map_out" where
  "space_map_emit cap e out =
     (let out = (if length (out_buf out) = cap
                 then \<lparr>out_buf = [], out_objsize = out_objsize out + of_nat (8 * cap),
                       out_writes = out_writes out @ [(out_objsize out, out_buf out)]\<rparr>
                 else out)
      in out\<lparr>out_buf := out_buf out @ [e]\<rparr>)"

definition space_map_entry :: "u8 \<Rightarrow> u64 \<Rightarrow> u64 \<Rightarrow> u64" where
  "space_map_entry maptype start run_len =
     SM_OFFSET_ENCODE start OR SM_TYPE_ENCODE (ucast maptype) OR SM_RUN_ENCODE run_len"

function space_map_sync_runs :: "nat \<Rightarrow> u8 \<Rightarrow> u64 \<Rightarrow> u64 \<Rightarrow> space_map_out \<Rightarrow> space_map_out" where
  "space_map_sync_runs cap maptype start sz out =
     (if sz = 0 then out
      else
        let run_len = min sz SM_RUN_MAX
        in space_map_sync_runs cap maptype (start + run_len) (sz - run_len)
             (space_map_emit cap (space_map_entry maptype start run_len) out))"
  by auto
termination
proof (relation "measure (\<lambda>(_, _, _, sz, _). unat sz)", goal_cases)
  case (2 cap maptype start sz out run_len)
  have "SM_RUN_MAX \<noteq> 0" by code_simp
  then have "run_len \<noteq> 0" "run_len \<le> sz" using 2 by (auto simp: min_def)
  then have "0 < unat run_len" "unat run_len \<le> unat sz" by (simp_all add: unat_gt_0 word_le_nat_alt)
  then show ?case using \<open>run_len \<le> sz\<close> by (simp add: unat_sub)
qed simp

declare space_map_sync_runs.simps [simp del]

text \<open>One segment of the map, with the space not yet written; the last, partial buffer.\<close>

definition space_map_sync_seg ::
  "nat \<Rightarrow> u8 \<Rightarrow> space_map \<Rightarrow> space_seg \<Rightarrow> u64 \<times> space_map_out \<Rightarrow> u64 \<times> space_map_out" where
  "space_map_sync_seg cap maptype sm ss = (\<lambda>(space, out).
     let sz = ss_end ss - ss_start ss;
         start = drop_bit (sm_shift sm) (ss_start ss - sm_start sm)
     in (space - sz, space_map_sync_runs cap maptype start (drop_bit (sm_shift sm) sz) out))"

definition space_map_flush :: "space_map_out \<Rightarrow> space_map_out" where
  "space_map_flush out =
     (if out_buf out \<noteq> []
      then \<lparr>out_buf = [], out_objsize = out_objsize out + of_nat (8 * length (out_buf out)),
            out_writes = out_writes out @ [(out_objsize out, out_buf out)]\<rparr>
      else out)"

definition space_map_sync ::
  "space_map \<Rightarrow> u8 \<Rightarrow> space_map_obj \<Rightarrow> u64 \<Rightarrow> u64 \<Rightarrow>
   (space_map \<times> space_map_obj \<times> (u64 \<times> u64 list) list) option" where
  "space_map_sync sm maptype smo sync_pass txg =
     (if sm_space sm = 0 then Some (sm, smo, [])
      else
        let smo = smo\<lparr>smo_alloc := (if maptype = SM_ALLOC then smo_alloc smo + sm_space sm
                                    else smo_alloc smo - sm_space sm)\<rparr>;
            bufsize = min ((8 + of_nat (avl_numnodes (sm_root sm))) * 8)
                        (push_bit SPACE_MAP_BLOCKSHIFT 1 :: u64);
            cap = unat (bufsize div 8);
            debug = SM_DEBUG_ENCODE 1 OR SM_DEBUG_ACTION_ENCODE (ucast maptype) OR
                    SM_DEBUG_SYNCPASS_ENCODE sync_pass OR SM_DEBUG_TXG_ENCODE txg
        in (case avl_drain (avl_numnodes (sm_root sm) + 1) (sm_root sm) CkNull of
              None \<Rightarrow> None
            | Some (segs, t) \<Rightarrow>
                let (space, out) =
                      fold (space_map_sync_seg cap maptype sm) segs
                        (sm_space sm, \<lparr>out_buf = [debug], out_objsize = smo_objsize smo, out_writes = []\<rparr>);
                    out = space_map_flush out
                in if space \<noteq> 0 then None
                   else Some (sm\<lparr>sm_root := t, sm_space := space\<rparr>,
                              smo\<lparr>smo_objsize := out_objsize out\<rparr>, out_writes out)))"

text \<open>Truncation frees the whole object through the DMU, whose error is fatal.\<close>

definition space_map_truncate :: "(u64 \<Rightarrow> int) \<Rightarrow> space_map_obj \<Rightarrow> space_map_obj option" where
  "space_map_truncate dmu_free_range smo =
     (if dmu_free_range (smo_object smo) = 0
      then Some (smo\<lparr>smo_objsize := 0, smo_alloc := 0\<rparr>) else None)"

end
