(* ===== verification/Space_Map_Segs.thy ===== *)
theory Space_Map_Segs
  imports Space_Map
begin

text \<open>
  Sorted lists of disjoint segments that do not touch: the abstraction of the tree of a space map.
  The lemmas show what merging a range with its neighbours and cutting a range out of a segment do
  to the set of offsets and to the space the list covers, and that a set of offsets has one such list.
\<close>

definition segs_ok :: "space_seg list \<Rightarrow> bool" where
  "segs_ok xs \<longleftrightarrow> (\<forall>s \<in> set xs. ss_start s < ss_end s) \<and> sorted_wrt (\<lambda>a b. ss_end a < ss_start b) xs"

definition segs_set :: "space_seg list \<Rightarrow> u64 set" where
  "segs_set xs = (\<Union>s \<in> set xs. {ss_start s ..< ss_end s})"

definition segs_space :: "space_seg list \<Rightarrow> u64" where
  "segs_space xs = (\<Sum>s \<leftarrow> xs. ss_end s - ss_start s)"

lemma space_seg_simps [simp]:
  "ss_start (space_seg a b) = a" "ss_end (space_seg a b) = b"
  by (simp_all add: space_seg_def)

lemma segs_ok_Nil [simp]: "segs_ok []"
  by (simp add: segs_ok_def)

lemma segs_ok_Cons: "segs_ok (s # xs) \<longleftrightarrow>
    ss_start s < ss_end s \<and> (\<forall>x \<in> set xs. ss_end s < ss_start x) \<and> segs_ok xs"
  by (auto simp: segs_ok_def)

lemma segs_ok_append: "segs_ok (xs @ ys) \<longleftrightarrow>
    segs_ok xs \<and> segs_ok ys \<and> (\<forall>x \<in> set xs. \<forall>y \<in> set ys. ss_end x < ss_start y)"
  by (auto simp: segs_ok_def sorted_wrt_append)

lemma segs_set_simps [simp]:
  "segs_set [] = {}" "segs_set (s # xs) = {ss_start s ..< ss_end s} \<union> segs_set xs"
  "segs_set (xs @ ys) = segs_set xs \<union> segs_set ys"
  by (auto simp: segs_set_def)

lemma segs_space_simps [simp]:
  "segs_space [] = 0" "segs_space (s # xs) = (ss_end s - ss_start s) + segs_space xs"
  "segs_space (xs @ ys) = segs_space xs + segs_space ys"
  by (auto simp: segs_space_def)

lemma segs_ok_distinct: "segs_ok xs \<Longrightarrow> distinct xs"
  by (induction xs) (force simp: segs_ok_Cons)+

subsection \<open>The comparison\<close>

lemma seg_compare_range: "\<bar>space_map_seg_compare v x\<bar> \<le> 1"
  by (simp add: space_map_seg_compare_def)

lemma seg_compare_eq:
  "space_map_seg_compare v x = 1 \<longleftrightarrow> ss_start x < ss_start v \<and> ss_end x \<le> ss_start v"
  "space_map_seg_compare v x = -1 \<longleftrightarrow> ss_start v < ss_start x \<and> ss_end v \<le> ss_start x"
  by (auto simp: space_map_seg_compare_def)

lemma seg_compare_0:
  "ss_start v < ss_end v \<Longrightarrow> ss_start x < ss_end x \<Longrightarrow>
   space_map_seg_compare v x = 0 \<longleftrightarrow> ss_start x < ss_end v \<and> ss_start v < ss_end x"
  by (auto simp: space_map_seg_compare_def)

lemma seg_compare_mono:
  assumes "ss_start v \<le> ss_end v" "ss_start x < ss_end x" "ss_end x < ss_start y" "ss_start y < ss_end y"
  shows "space_map_seg_compare v y \<le> space_map_seg_compare v x"
  using assms by (auto simp: space_map_seg_compare_def)

lemma segs_search_ok:
  assumes "segs_ok xs" "ss_start v \<le> ss_end v"
  shows "avl_search_ok space_map_seg_compare v xs"
  unfolding avl_search_ok_def
proof (intro conjI ballI seg_compare_range)
  have "sorted_wrt (\<lambda>a b. ss_end a < ss_start b) xs" "\<forall>s \<in> set xs. ss_start s < ss_end s"
    using assms(1) by (simp_all add: segs_ok_def)
  then show "sorted_wrt (\<lambda>x y. space_map_seg_compare v y \<le> space_map_seg_compare v x) xs"
    using seg_compare_mono [OF assms(2)] by (blast intro: sorted_wrt_mono_rel [where P = "\<lambda>a b. ss_end a < ss_start b"])
qed

subsection \<open>Cardinality\<close>

lemma segs_ok_disjoint:
  assumes "segs_ok (s # xs)"
  shows "{ss_start s ..< ss_end s} \<inter> segs_set xs = {}"
  using assms by (force simp: segs_ok_Cons segs_set_def)

lemma card_segs_set:
  "segs_ok xs \<Longrightarrow> of_nat (card (segs_set xs)) = segs_space xs"
proof (induction xs)
  case (Cons s xs)
  have "finite (segs_set ys)" for ys by (rule finite)
  then have "card (segs_set (s # xs)) = card {ss_start s ..< ss_end s} + card (segs_set xs)"
    using segs_ok_disjoint [OF Cons.prems] by (simp add: card_Un_disjoint)
  then show ?case using Cons by (simp add: segs_ok_Cons card_word_interval less_imp_le)
qed simp

subsection \<open>Adding a range\<close>

definition seg_fits :: "space_seg list \<Rightarrow> u64 \<Rightarrow> u64 \<Rightarrow> space_seg list \<Rightarrow> bool" where
  "seg_fits xs a b ys \<longleftrightarrow> segs_ok (xs @ ys) \<and> a < b \<and> (\<forall>x \<in> set xs. ss_end x \<le> a) \<and>
     (\<forall>y \<in> set ys. b \<le> ss_start y)"

lemma fits_merge_both:
  assumes "seg_fits (xs @ [p]) a b (q # ys)" "ss_end p = a" "ss_start q = b"
  shows "segs_ok (xs @ q\<lparr>ss_start := ss_start p\<rparr> # ys)"
    "segs_set (xs @ q\<lparr>ss_start := ss_start p\<rparr> # ys) = segs_set (xs @ p # q # ys) \<union> {a ..< b}"
    "segs_space (xs @ q\<lparr>ss_start := ss_start p\<rparr> # ys) = segs_space (xs @ p # q # ys) + (b - a)"
  using assms by (auto simp: seg_fits_def segs_ok_append segs_ok_Cons)

lemma fits_merge_before:
  assumes "seg_fits (xs @ [p]) a b ys" "ss_end p = a" "\<forall>y \<in> set ys. b < ss_start y"
  shows "segs_ok (xs @ p\<lparr>ss_end := b\<rparr> # ys)"
    "segs_set (xs @ p\<lparr>ss_end := b\<rparr> # ys) = segs_set (xs @ p # ys) \<union> {a ..< b}"
    "segs_space (xs @ p\<lparr>ss_end := b\<rparr> # ys) = segs_space (xs @ p # ys) + (b - a)"
  using assms by (auto simp: seg_fits_def segs_ok_append segs_ok_Cons)

lemma fits_merge_after:
  assumes "seg_fits xs a b (q # ys)" "ss_start q = b" "\<forall>x \<in> set xs. ss_end x < a"
  shows "segs_ok (xs @ q\<lparr>ss_start := a\<rparr> # ys)"
    "segs_set (xs @ q\<lparr>ss_start := a\<rparr> # ys) = segs_set (xs @ q # ys) \<union> {a ..< b}"
    "segs_space (xs @ q\<lparr>ss_start := a\<rparr> # ys) = segs_space (xs @ q # ys) + (b - a)"
  using assms by (auto simp: seg_fits_def segs_ok_append segs_ok_Cons)

lemma fits_insert:
  assumes "seg_fits xs a b ys" "\<forall>x \<in> set xs. ss_end x < a" "\<forall>y \<in> set ys. b < ss_start y"
  shows "segs_ok (xs @ space_seg a b # ys)"
    "segs_set (xs @ space_seg a b # ys) = segs_set (xs @ ys) \<union> {a ..< b}"
    "segs_space (xs @ space_seg a b # ys) = segs_space (xs @ ys) + (b - a)"
  using assms by (auto simp: seg_fits_def segs_ok_append segs_ok_Cons)

lemma segs_pairwise:
  "segs_ok xs \<Longrightarrow> s \<in> set xs \<Longrightarrow> t \<in> set xs \<Longrightarrow> s \<noteq> t \<Longrightarrow>
     ss_end s < ss_start t \<or> ss_end t < ss_start s"
  by (induction xs) (auto simp: segs_ok_Cons)

lemma segs_cover:
  assumes ok: "segs_ok xs" and "a < b" and sub: "{a ..< b} \<subseteq> segs_set xs"
  obtains s where "s \<in> set xs" "ss_start s \<le> a" "b \<le> ss_end s"
proof -
  from assms(2) sub obtain s where s: "s \<in> set xs" "ss_start s \<le> a" "a < ss_end s"
    by (force simp: segs_set_def)
  have "b \<le> ss_end s"
  proof (rule ccontr)
    assume "\<not> b \<le> ss_end s"
    then have "ss_end s \<in> {a ..< b}" using s by auto
    then obtain t where t: "t \<in> set xs" "ss_start t \<le> ss_end s" "ss_end s < ss_end t"
      using sub by (force simp: segs_set_def)
    moreover have "ss_start s < ss_end s" "ss_start t < ss_end t" using ok s t by (auto simp: segs_ok_def)
    moreover have "s \<noteq> t" using t by auto
    ultimately show False using segs_pairwise [OF ok s(1) t(1)] by auto
  qed
  then show thesis using s that by blast
qed

lemma segs_contains_iff:
  assumes "segs_ok xs" "a < b"
  shows "{a ..< b} \<subseteq> segs_set xs \<longleftrightarrow> (\<exists>s \<in> set xs. ss_start s \<le> a \<and> b \<le> ss_end s)"
proof
  assume "{a ..< b} \<subseteq> segs_set xs"
  then obtain s where "s \<in> set xs" "ss_start s \<le> a" "b \<le> ss_end s" using segs_cover [OF assms] by blast
  then show "\<exists>s \<in> set xs. ss_start s \<le> a \<and> b \<le> ss_end s" by blast
qed (force simp: segs_set_def)

subsection \<open>Removing a range from a segment\<close>

lemma segs_carve:
  assumes "segs_ok (xs @ s # ys)" "ss_start s \<le> a" "a < b" "b \<le> ss_end s"
  shows "segs_set (xs @ s # ys) - {a ..< b} =
      segs_set xs \<union> {ss_start s ..< a} \<union> {b ..< ss_end s} \<union> segs_set ys"
    "segs_space (xs @ s # ys) - (b - a) =
      segs_space xs + (a - ss_start s) + (ss_end s - b) + segs_space ys"
proof -
  have "x \<notin> {a ..< b}" if "x \<in> segs_set xs \<union> segs_set ys" for x
    using that assms by (force simp: segs_ok_append segs_ok_Cons segs_set_def)
  then show "segs_set (xs @ s # ys) - {a ..< b} =
      segs_set xs \<union> {ss_start s ..< a} \<union> {b ..< ss_end s} \<union> segs_set ys"
    using assms(2-4) by auto
qed simp

lemma carve_middle:
  assumes "segs_ok (xs @ s # ys)" "ss_start s \<le> a" "a < b" "b \<le> ss_end s"
    and "ss_start s \<noteq> a" "ss_end s \<noteq> b"
  shows "segs_ok (xs @ s\<lparr>ss_end := a\<rparr> # space_seg b (ss_end s) # ys)"
    "segs_set (xs @ s\<lparr>ss_end := a\<rparr> # space_seg b (ss_end s) # ys) = segs_set (xs @ s # ys) - {a ..< b}"
    "segs_space (xs @ s\<lparr>ss_end := a\<rparr> # space_seg b (ss_end s) # ys) = segs_space (xs @ s # ys) - (b - a)"
  unfolding segs_carve [OF assms(1-4)]
  subgoal using assms by (auto simp: segs_ok_append segs_ok_Cons)
  subgoal using assms by (simp add: Un_assoc)
  subgoal using assms by simp
  done

lemma carve_left:
  assumes "segs_ok (xs @ s # ys)" "ss_start s \<le> a" "a < b" "b \<le> ss_end s"
    and "ss_start s \<noteq> a" "ss_end s = b"
  shows "segs_ok (xs @ s\<lparr>ss_end := a\<rparr> # ys)"
    "segs_set (xs @ s\<lparr>ss_end := a\<rparr> # ys) = segs_set (xs @ s # ys) - {a ..< b}"
    "segs_space (xs @ s\<lparr>ss_end := a\<rparr> # ys) = segs_space (xs @ s # ys) - (b - a)"
  unfolding segs_carve [OF assms(1-4)]
  subgoal using assms by (auto simp: segs_ok_append segs_ok_Cons)
  subgoal using assms by (simp add: Un_assoc)
  subgoal using assms by simp
  done

lemma carve_right:
  assumes "segs_ok (xs @ s # ys)" "ss_start s \<le> a" "a < b" "b \<le> ss_end s"
    and "ss_start s = a" "ss_end s \<noteq> b"
  shows "segs_ok (xs @ s\<lparr>ss_start := b\<rparr> # ys)"
    "segs_set (xs @ s\<lparr>ss_start := b\<rparr> # ys) = segs_set (xs @ s # ys) - {a ..< b}"
    "segs_space (xs @ s\<lparr>ss_start := b\<rparr> # ys) = segs_space (xs @ s # ys) - (b - a)"
  unfolding segs_carve [OF assms(1-4)]
  subgoal using assms by (auto simp: segs_ok_append segs_ok_Cons)
  subgoal using assms by (simp add: Un_assoc)
  subgoal using assms by simp
  done

lemma carve_all:
  assumes "segs_ok (xs @ s # ys)" "ss_start s \<le> a" "a < b" "b \<le> ss_end s"
    and "ss_start s = a" "ss_end s = b"
  shows "segs_ok (xs @ ys)" "segs_set (xs @ ys) = segs_set (xs @ s # ys) - {a ..< b}"
    "segs_space (xs @ ys) = segs_space (xs @ s # ys) - (b - a)"
  unfolding segs_carve [OF assms(1-4)]
  subgoal using assms by (auto simp: segs_ok_append segs_ok_Cons)
  subgoal using assms by (simp add: Un_assoc)
  subgoal using assms by simp
  done

subsection \<open>Uniqueness\<close>

lemma segs_start_le:
  assumes "segs_ok (s # xs)" "segs_ok (t # ys)" "segs_set (s # xs) = segs_set (t # ys)"
  shows "ss_start t \<le> ss_start s"
proof -
  have "ss_start s \<in> segs_set (t # ys)" using assms(1) unfolding assms(3) [symmetric] by (simp add: segs_ok_Cons)
  then obtain u where "u \<in> set (t # ys)" "ss_start u \<le> ss_start s" by (auto simp: segs_set_def)
  moreover have "ss_start t \<le> ss_start u" if "u \<in> set (t # ys)" for u
    using that assms(2) by (force simp: segs_ok_Cons)
  ultimately show ?thesis by (meson order_trans)
qed

lemma segs_end_le:
  assumes "segs_ok (s # xs)" "segs_ok (t # ys)" "segs_set (s # xs) = segs_set (t # ys)"
    and "ss_start s = ss_start t"
  shows "ss_end t \<le> ss_end s"
proof (rule ccontr)
  assume "\<not> ss_end t \<le> ss_end s"
  then have "ss_end s \<in> segs_set (t # ys)" using assms(1,4) by (auto simp: segs_ok_Cons)
  then have "ss_end s \<in> segs_set (s # xs)" by (simp only: assms(3))
  then have "ss_end s \<in> segs_set xs" by simp
  then show False using assms(1) by (force simp: segs_ok_Cons segs_set_def)
qed

lemma segs_unique: "segs_ok xs \<Longrightarrow> segs_ok ys \<Longrightarrow> segs_set xs = segs_set ys \<Longrightarrow> xs = ys"
proof (induction xs arbitrary: ys)
  case Nil
  then show ?case by (cases ys) (auto simp: segs_ok_Cons)
next
  case (Cons s xs)
  show ?case
  proof (cases ys)
    case Nil
    then show ?thesis using Cons.prems by (auto simp: segs_ok_Cons)
  next
    case (Cons t zs)
    note ok = Cons.prems(1) Cons.prems(2) [unfolded Cons] and eq = Cons.prems(3) [unfolded Cons]
    have st: "ss_start s = ss_start t"
      using segs_start_le [OF ok eq] segs_start_le [OF ok(2,1) eq [symmetric]] by simp
    have "ss_end s = ss_end t"
      using segs_end_le [OF ok eq st] segs_end_le [OF ok(2,1) eq [symmetric] st [symmetric]] by simp
    then have "s = t" using st by simp
    moreover have "segs_set xs = segs_set (s # xs) - {ss_start s ..< ss_end s}"
      using segs_ok_disjoint [OF ok(1)] by auto
    moreover have "segs_set zs = segs_set (t # zs) - {ss_start t ..< ss_end t}"
      using segs_ok_disjoint [OF ok(2)] by auto
    ultimately have "s = t" "segs_set xs = segs_set zs" using eq by simp_all
    moreover have "xs = zs"
      using calculation(2) ok by (intro Cons.IH) (simp_all add: segs_ok_Cons)
    ultimately show ?thesis using Cons by simp
  qed
qed

end
