(* ===== verification/Space_Map_Invariant.thy ===== *)
theory Space_Map_Invariant
  imports Space_Map_Segs
begin

text \<open>
  The invariant of a space map and what adding, removing, querying and excising a range do under it.
\<close>

definition space_map_segs :: "space_map \<Rightarrow> space_seg list" where
  "space_map_segs sm = avl_list (sm_root sm)"

definition space_map_set :: "space_map \<Rightarrow> u64 set" where
  "space_map_set sm = segs_set (space_map_segs sm)"

definition seg_in_map :: "space_map \<Rightarrow> space_seg \<Rightarrow> bool" where
  "seg_in_map sm s \<longleftrightarrow> sm_start sm \<le> ss_start s \<and> ss_end s \<le> sm_start sm + sm_size sm \<and>
     space_map_aligned sm (ss_start s) \<and> space_map_aligned sm (ss_end s)"

definition space_map_inv :: "space_map \<Rightarrow> bool" where
  "space_map_inv sm \<longleftrightarrow> avl_wf (sm_root sm) \<and> avl_compar (sm_root sm) = space_map_seg_compare \<and>
     sm_start sm \<le> sm_start sm + sm_size sm \<and> segs_ok (space_map_segs sm) \<and>
     sm_space sm = segs_space (space_map_segs sm) \<and> (\<forall>s \<in> set (space_map_segs sm). seg_in_map sm s)"

definition range_in_map :: "space_map \<Rightarrow> u64 \<Rightarrow> u64 \<Rightarrow> bool" where
  "range_in_map sm start sz \<longleftrightarrow> sm_start sm \<le> start \<and> start < start + sz \<and>
     start + sz \<le> sm_start sm + sm_size sm \<and> space_map_aligned sm start \<and> space_map_aligned sm sz"

lemma aligned_iff: "space_map_aligned sm x \<longleftrightarrow> take_bit (sm_shift sm) x = 0"
  by (simp add: space_map_aligned_def p2_simps)

lemma aligned_add:
  assumes "space_map_aligned sm a" "space_map_aligned sm b"
  shows "space_map_aligned sm (a + b)"
  using assms by (simp add: aligned_iff take_bit_word_add0)

lemma range_in_map_seg:
  "range_in_map sm start sz \<Longrightarrow> seg_in_map sm (space_seg start (start + sz))"
  by (simp add: range_in_map_def seg_in_map_def aligned_add)

lemma range_nonempty: "range_in_map sm start sz \<Longrightarrow> sz \<noteq> 0"
  by (auto simp: range_in_map_def)

lemma space_map_set_bounds:
  "space_map_inv sm \<Longrightarrow> space_map_set sm \<subseteq> {sm_start sm ..< sm_start sm + sm_size sm}"
  by (force simp: space_map_inv_def space_map_set_def segs_set_def seg_in_map_def)

lemma space_map_space_card:
  assumes "space_map_inv sm"
  shows "unat (sm_space sm) = card (space_map_set sm)" "card (space_map_set sm) \<le> unat (sm_size sm)"
proof -
  have "card (space_map_set sm) \<le> card {sm_start sm ..< sm_start sm + sm_size sm}"
    by (rule card_mono [OF finite space_map_set_bounds [OF assms]])
  then show le: "card (space_map_set sm) \<le> unat (sm_size sm)"
    using assms by (simp add: card_range space_map_inv_def)
  have "sm_space sm = of_nat (card (space_map_set sm))"
    using assms card_segs_set by (simp add: space_map_inv_def space_map_set_def)
  then show "unat (sm_space sm) = card (space_map_set sm)"
    using le unat_lt64 [of "sm_size sm"] by (simp add: unat_of_nat64)
qed

lemma space_map_room:
  assumes "space_map_inv sm" "range_in_map sm start sz" "space_map_set sm \<inter> {start ..< start + sz} = {}"
  shows "sm_space sm + sz \<le> sm_size sm"
proof -
  have "card (space_map_set sm \<union> {start ..< start + sz}) \<le> card {sm_start sm ..< sm_start sm + sm_size sm}"
    using space_map_set_bounds [OF assms(1)] assms(2) by (intro card_mono) (auto simp: range_in_map_def)
  moreover have "card (space_map_set sm \<union> {start ..< start + sz}) = card (space_map_set sm) + unat sz"
    using assms(2,3) by (subst card_Un_disjoint) (auto simp: range_in_map_def card_range less_imp_le)
  ultimately have "unat (sm_space sm) + unat sz \<le> unat (sm_size sm)"
    using assms(1) space_map_space_card [OF assms(1)] by (simp add: card_range space_map_inv_def)
  moreover from this have "unat (sm_space sm + sz) = unat (sm_space sm) + unat sz"
    using unat_lt64 [of "sm_size sm"] by (simp add: unat_word_ariths)
  ultimately show ?thesis by (simp add: word_le_nat_alt)
qed

subsection \<open>Search\<close>

lemma space_map_find:
  assumes "space_map_inv sm" "a < b"
  obtains (hit) s xs ys where "avl_find (sm_root sm) (space_seg a b) = Inl s"
      "space_map_segs sm = xs @ s # ys" "ss_start s < b" "a < ss_end s"
    | (miss) w where "avl_find (sm_root sm) (space_seg a b) = Inr w" "avl_index_ok (sm_root sm) w"
      "space_map_segs sm = avl_before w @ avl_after w" "seg_fits (avl_before w) a b (avl_after w)"
proof -
  have ok: "segs_ok (space_map_segs sm)" using assms(1) by (simp add: space_map_inv_def)
  have so: "avl_search_ok (avl_compar (sm_root sm)) (space_seg a b) (avl_list (sm_root sm))"
    using segs_search_ok [of "space_map_segs sm" "space_seg a b"] assms
    by (simp add: space_map_inv_def space_map_segs_def)
  have cmp: "avl_compar (sm_root sm) = space_map_seg_compare" using assms(1) by (simp add: space_map_inv_def)
  from so show thesis
  proof (cases rule: avl.find_cases)
    case (hit d)
    moreover have "ss_start d < ss_end d"
      using hit(2) ok by (simp add: segs_ok_def space_map_segs_def)
    ultimately show thesis
      using that(1) assms(2) seg_compare_0 [of "space_seg a b" d] cmp
      by (metis space_map_segs_def space_seg_simps split_list)
  next
    case (miss i)
    then show thesis
      using that(2) assms(2) ok cmp by (simp add: seg_fits_def seg_compare_eq space_map_segs_def)
  qed
qed

subsection \<open>Linking and cutting\<close>

lemma space_map_invD:
  assumes "space_map_inv sm"
  shows "avl_wf (sm_root sm)" "avl_compar (sm_root sm) = space_map_seg_compare"
    "segs_ok (avl_list (sm_root sm))" "distinct (avl_list (sm_root sm))"
    "sm_space sm = segs_space (avl_list (sm_root sm))"
    "\<forall>s \<in> set (avl_list (sm_root sm)). seg_in_map sm s"
    "space_map_set sm = segs_set (avl_list (sm_root sm))"
  using assms segs_ok_distinct
  unfolding space_map_inv_def space_map_segs_def space_map_set_def by blast+

lemma inv_update:
  assumes "space_map_inv sm" "avl_wf t" "avl_compar t = space_map_seg_compare" "avl_list t = zs"
    "segs_ok zs" "segs_space zs = sp" "\<forall>s \<in> set zs. seg_in_map sm s"
  shows "space_map_inv (sm\<lparr>sm_root := t, sm_space := sp\<rparr>)"
    "space_map_set (sm\<lparr>sm_root := t, sm_space := sp\<rparr>) = segs_set zs"
  using assms
  by (simp_all add: space_map_inv_def space_map_segs_def space_map_set_def seg_in_map_def
      space_map_aligned_def)

lemma fits_strict_before:
  assumes "seg_fits xs a b ys" "xs = [] \<or> ss_end (last xs) \<noteq> a"
  shows "\<forall>x \<in> set xs. ss_end x < a"
proof (cases xs rule: rev_cases)
  case (snoc zs z)
  then have z: "ss_end z < a" using assms by (auto simp: seg_fits_def order_less_le)
  have "ss_end x < ss_end z" if "x \<in> set zs" for x
    using that assms(1) snoc by (force simp: seg_fits_def segs_ok_append segs_ok_Cons)
  then show ?thesis using snoc z by fastforce
qed simp

lemma fits_strict_after:
  assumes "seg_fits xs a b ys" "ys = [] \<or> ss_start (hd ys) \<noteq> b"
  shows "\<forall>y \<in> set ys. b < ss_start y"
proof (cases ys)
  case (Cons z zs)
  then have z: "b < ss_start z" using assms by (auto simp: seg_fits_def order_less_le)
  have "ss_start z < ss_start x" if "x \<in> set zs" for x
    using that assms(1) Cons by (force simp: seg_fits_def segs_ok_append segs_ok_Cons)
  then show ?thesis using Cons z by fastforce
qed simp

definition tree_of_segs :: "space_map \<Rightarrow> space_seg avl_tree \<Rightarrow> u64 set \<Rightarrow> u64 \<Rightarrow> bool" where
  "tree_of_segs sm t S sp \<longleftrightarrow> avl_wf t \<and> avl_compar t = space_map_seg_compare \<and> segs_ok (avl_list t) \<and>
     segs_set (avl_list t) = S \<and> segs_space (avl_list t) = sp \<and> (\<forall>s \<in> set (avl_list t). seg_in_map sm s)"

lemma tree_of_segs_inv:
  assumes "space_map_inv sm" "tree_of_segs sm t S sp"
  shows "space_map_inv (sm\<lparr>sm_root := t, sm_space := sp\<rparr>)"
    "space_map_set (sm\<lparr>sm_root := t, sm_space := sp\<rparr>) = S"
  using assms inv_update [OF assms(1)] by (auto simp: tree_of_segs_def)

lemma link_both:
  assumes inv: "space_map_inv sm" and l: "avl_list (sm_root sm) = xs @ p # q # ys"
    and fits: "seg_fits (xs @ [p]) a b (q # ys)" and e: "ss_end p = a" "ss_start q = b"
  obtains r where "avl_remove (sm_root sm) p = Some r"
    "tree_of_segs sm (avl_store r q (q\<lparr>ss_start := ss_start p\<rparr>)) (space_map_set sm \<union> {a ..< b}) (sm_space sm + (b - a))"
proof -
  note D = space_map_invD [OF inv]
  obtain r where "avl_remove (sm_root sm) p = Some r" "avl_wf (avl_store r q (q\<lparr>ss_start := ss_start p\<rparr>))"
    "avl_compar (avl_store r q (q\<lparr>ss_start := ss_start p\<rparr>)) = avl_compar (sm_root sm)"
    "avl_list (avl_store r q (q\<lparr>ss_start := ss_start p\<rparr>)) = xs @ q\<lparr>ss_start := ss_start p\<rparr> # ys"
    using avl.remove_store [OF D(1,4) l] by blast
  then show thesis
    using that [of r] fits_merge_both [OF fits e] D(2,5-7) l
    by (auto simp: tree_of_segs_def seg_in_map_def)
qed

lemma link_before:
  assumes inv: "space_map_inv sm" and l: "avl_list (sm_root sm) = xs @ p # ys"
    and r: "seg_in_map sm (space_seg a b)" and fits: "seg_fits (xs @ [p]) a b ys" and e: "ss_end p = a"
    and n: "ys = [] \<or> ss_start (hd ys) \<noteq> b"
  shows "tree_of_segs sm (avl_store (sm_root sm) p (p\<lparr>ss_end := b\<rparr>)) (space_map_set sm \<union> {a ..< b}) (sm_space sm + (b - a))"
  using avl_store_list [OF space_map_invD(4) [OF inv] l] space_map_invD [OF inv] l r
    fits_merge_before [OF fits e fits_strict_after [OF fits n]]
  by (auto simp: tree_of_segs_def seg_in_map_def)

lemma link_after:
  assumes inv: "space_map_inv sm" and l: "avl_list (sm_root sm) = xs @ q # ys"
    and r: "seg_in_map sm (space_seg a b)" and fits: "seg_fits xs a b (q # ys)" and e: "ss_start q = b"
    and n: "xs = [] \<or> ss_end (last xs) \<noteq> a"
  shows "tree_of_segs sm (avl_store (sm_root sm) q (q\<lparr>ss_start := a\<rparr>)) (space_map_set sm \<union> {a ..< b}) (sm_space sm + (b - a))"
  using avl_store_list [OF space_map_invD(4) [OF inv] l] space_map_invD [OF inv] l r
    fits_merge_after [OF fits e fits_strict_before [OF fits n]]
  by (auto simp: tree_of_segs_def seg_in_map_def)

lemma link_new:
  assumes inv: "space_map_inv sm" and w: "avl_index_ok (sm_root sm) w"
    and r: "seg_in_map sm (space_seg a b)" and fits: "seg_fits (avl_before w) a b (avl_after w)"
    and n: "avl_before w = [] \<or> ss_end (last (avl_before w)) \<noteq> a" "avl_after w = [] \<or> ss_start (hd (avl_after w)) \<noteq> b"
  obtains t where "avl_insert (sm_root sm) (space_seg a b) w = Some t"
    "tree_of_segs sm t (space_map_set sm \<union> {a ..< b}) (sm_space sm + (b - a))"
proof -
  note D = space_map_invD [OF inv]
  obtain t where "avl_insert (sm_root sm) (space_seg a b) w = Some t" "avl_wf t"
    "avl_compar t = avl_compar (sm_root sm)" "avl_list t = avl_before w @ space_seg a b # avl_after w"
    using avl.insert_law [OF D(1) w] by blast
  then show thesis
    using that [of t] D(2,5-7) r avl.index_split [OF w]
      fits_insert [OF fits fits_strict_before [OF fits n(1)] fits_strict_after [OF fits n(2)]]
    by (auto simp: tree_of_segs_def)
qed

lemma space_map_link_spec:
  assumes inv: "space_map_inv sm" and w: "avl_index_ok (sm_root sm) w"
    and r: "seg_in_map sm (space_seg a b)" and fits: "seg_fits (avl_before w) a b (avl_after w)"
  obtains t where "space_map_link (sm_root sm) w a b = Some t"
    "tree_of_segs sm t (space_map_set sm \<union> {a ..< b}) (sm_space sm + (b - a))"
proof -
  have l: "avl_list (sm_root sm) = avl_before w @ avl_after w" by (rule avl.index_split [OF w])
  let ?mp = "avl_before w \<noteq> [] \<and> ss_end (last (avl_before w)) = a"
  let ?mq = "avl_after w \<noteq> [] \<and> ss_start (hd (avl_after w)) = b"
  have near: "avl_nearest (sm_root sm) w ChRight = (if avl_after w = [] then None else Some (hd (avl_after w)))"
    by (simp add: avl_nearest_after split: list.split)
  note simps = space_map_link_def Let_def near avl_nearest_before
  consider xs p q ys where "avl_before w = xs @ [p]" "avl_after w = q # ys" "ss_end p = a" "ss_start q = b"
    | xs p where "avl_before w = xs @ [p]" "ss_end p = a" "\<not> ?mq"
    | q ys where "avl_after w = q # ys" "ss_start q = b" "\<not> ?mp"
    | "\<not> ?mp" "\<not> ?mq"
    by (metis append_butlast_last_id list.collapse)
  then show thesis
  proof cases
    case 1
    have "seg_fits (xs @ [p]) a b (q # ys)" "avl_list (sm_root sm) = xs @ p # q # ys"
      using 1 fits l by simp_all
    then obtain r where "avl_remove (sm_root sm) p = Some r" "tree_of_segs sm
       (avl_store r q (q\<lparr>ss_start := ss_start p\<rparr>)) (space_map_set sm \<union> {a ..< b}) (sm_space sm + (b - a))"
      using link_both [OF inv _ _ 1(3,4)] by blast
    then show thesis using that 1 by (simp add: simps)
  next
    case 2
    have "space_map_link (sm_root sm) w a b = Some (avl_store (sm_root sm) p (p\<lparr>ss_end := b\<rparr>))"
      using 2 by (auto simp: simps)
    then show thesis using that link_before [OF inv _ r _ 2(2), of xs "avl_after w"] l fits 2 by simp
  next
    case 3
    have "space_map_link (sm_root sm) w a b = Some (avl_store (sm_root sm) q (q\<lparr>ss_start := a\<rparr>))"
      using 3 by (auto simp: simps)
    then show thesis using that link_after [OF inv _ r _ 3(2), of "avl_before w" ys] l fits 3 by simp
  next
    case 4
    then obtain t where t: "avl_insert (sm_root sm) (space_seg a b) w = Some t"
      "tree_of_segs sm t (space_map_set sm \<union> {a ..< b}) (sm_space sm + (b - a))"
      using link_new [OF inv w r fits] by blast
    have "space_map_link (sm_root sm) w a b = avl_insert (sm_root sm) (space_seg a b) w"
      using 4 by (auto simp: simps)
    then show thesis using that t by simp
  qed
qed

lemma space_map_add_ok:
  assumes inv: "space_map_inv sm" and r: "range_in_map sm start sz"
    and disj: "space_map_set sm \<inter> {start ..< start + sz} = {}"
  obtains sm' where "space_map_add zr sm start sz = Some sm'" "space_map_inv sm'"
    "space_map_set sm' = space_map_set sm \<union> {start ..< start + sz}" "sm_space sm' = sm_space sm + sz"
    "\<exists>t. sm' = sm\<lparr>sm_root := t, sm_space := sm_space sm + sz\<rparr>"
proof -
  have ab: "start < start + sz" using r by (simp add: range_in_map_def)
  note D = space_map_invD [OF inv]
  from inv ab show thesis
  proof (cases rule: space_map_find)
    case (hit s xs ys)
    then have "max start (ss_start s) \<in> space_map_set sm \<inter> {start ..< start + sz}"
      using D(3,7) ab by (auto simp: space_map_segs_def segs_ok_append segs_ok_Cons max_def)
    then show thesis using disj by simp
  next
    case (miss w)
    obtain t where t: "space_map_link (sm_root sm) w start (start + sz) = Some t"
      "tree_of_segs sm t (space_map_set sm \<union> {start ..< start + sz}) (sm_space sm + sz)"
      using space_map_link_spec [OF inv miss(2) range_in_map_seg [OF r] miss(4)] by auto
    have "space_map_add zr sm start sz = Some (sm\<lparr>sm_root := t, sm_space := sm_space sm + sz\<rparr>)"
      using r miss(1) t(1) space_map_room [OF inv r disj] range_nonempty [OF r]
      by (simp add: space_map_add_def range_in_map_def)
    then show thesis using that tree_of_segs_inv [OF inv t(2)] by auto
  qed
qed

subsection \<open>Removal\<close>

lemma cut_spec:
  assumes inv: "space_map_inv sm" and l: "avl_list (sm_root sm) = xs @ s # ys"
    and r: "space_map_aligned sm a" "space_map_aligned sm b"
    and c: "ss_start s \<le> a" "a < b" "b \<le> ss_end s"
  obtains t where "space_map_cut (sm_root sm) s a b = Some t"
    "tree_of_segs sm t (space_map_set sm - {a ..< b}) (sm_space sm - (b - a))"
proof -
  note D = space_map_invD [OF inv]
  note ok = D(3) [unfolded l]
  have im: "seg_in_map sm s" "\<forall>x \<in> set (xs @ ys). seg_in_map sm x" using D(6) l by auto
  have i: "seg_in_map sm (s\<lparr>ss_end := a\<rparr>)" "seg_in_map sm (s\<lparr>ss_start := b\<rparr>)" "seg_in_map sm (space_seg b (ss_end s))"
    using im(1) r c by (auto simp: seg_in_map_def)
  have st: "avl_list (avl_store (sm_root sm) s s') = xs @ s' # ys" for s'
    by (rule avl_store_list [OF D(4) l])
  consider "ss_start s \<noteq> a" "ss_end s \<noteq> b" | "ss_start s \<noteq> a" "ss_end s = b"
    | "ss_start s = a" "ss_end s \<noteq> b" | "ss_start s = a" "ss_end s = b" by blast
  then show thesis
  proof cases
    case 1
    note m = carve_middle [OF ok c 1]
    have "distinct (avl_list (avl_store (sm_root sm) s (s\<lparr>ss_end := a\<rparr>)))"
      using segs_ok_distinct [OF m(1)] st by simp
    then obtain t where t: "avl_insert_here (avl_store (sm_root sm) s (s\<lparr>ss_end := a\<rparr>)) (space_seg b (ss_end s)) (s\<lparr>ss_end := a\<rparr>) ChRight = Some t"
      "avl_wf t" "avl_list t = xs @ s\<lparr>ss_end := a\<rparr> # space_seg b (ss_end s) # ys" "avl_compar t = space_map_seg_compare"
      using avl_insert_here_spec [OF _ _ st, where c = ChRight] D(1,2) by auto
    then show thesis using that m 1 D(5,7) l i im by (auto simp: space_map_cut_def Let_def tree_of_segs_def)
  next
    case 2
    then show thesis using that carve_left [OF ok c 2] st D(1,2,5,7) l i im
      by (auto simp: space_map_cut_def Let_def tree_of_segs_def)
  next
    case 3
    then show thesis using that carve_right [OF ok c 3] st D(1,2,5,7) l i im
      by (auto simp: space_map_cut_def Let_def tree_of_segs_def)
  next
    case 4
    then show thesis using that carve_all [OF ok c 4] avl.remove_law [OF D(1,4) l] D(2,5,7) l im
      by (auto simp: space_map_cut_def Let_def tree_of_segs_def)
  qed
qed

lemma sub_le: "b \<le> (a :: u64) \<Longrightarrow> a \<le> c \<Longrightarrow> a - b \<le> c"
  by (meson order_trans word_sub_le)

lemma fits_outside:
  assumes "seg_fits xs a b ys" "s \<in> set (xs @ ys)"
  shows "ss_end s \<le> a \<or> b \<le> ss_start s"
  using assms by (auto simp: seg_fits_def)

lemma space_map_remove_ok:
  assumes inv: "space_map_inv sm" and al: "space_map_aligned sm start" "space_map_aligned sm sz"
    and ne: "start < start + sz" and sub: "{start ..< start + sz} \<subseteq> space_map_set sm"
  obtains sm' where "space_map_remove zr sm start sz = Some sm'" "space_map_inv sm'"
    "space_map_set sm' = space_map_set sm - {start ..< start + sz}" "sm_space sm' = sm_space sm - sz"
    "\<exists>t. sm' = sm\<lparr>sm_root := t, sm_space := sm_space sm - sz\<rparr>"
proof -
  note D = space_map_invD [OF inv]
  have nz: "sz \<noteq> 0" using ne by auto
  obtain s where s: "s \<in> set (avl_list (sm_root sm))" "ss_start s \<le> start" "start + sz \<le> ss_end s"
    using segs_cover [OF D(3) ne] sub D(7) by auto
  have "unat sz \<le> card (space_map_set sm)"
    using card_mono [OF finite sub] ne by (simp add: card_range less_imp_le)
  then have "sm_space sm - sz \<le> sm_size sm"
    using space_map_space_card [OF inv] by (intro sub_le) (simp_all add: word_le_nat_alt)
  from inv ne show thesis
  proof (cases rule: space_map_find)
    case (hit u xs ys)
    have "u = s"
      using segs_pairwise [OF D(3) _ s(1), of u] hit s(2,3) by (force simp: space_map_segs_def)
    then obtain t where t: "space_map_cut (sm_root sm) s start (start + sz) = Some t"
      "tree_of_segs sm t (space_map_set sm - {start ..< start + sz}) (sm_space sm - sz)"
      using cut_spec [OF inv _ al(1) aligned_add [OF al] s(2) ne s(3), of xs ys] hit
      by (auto simp: space_map_segs_def)
    have "space_map_remove zr sm start sz = Some (sm\<lparr>sm_root := t, sm_space := sm_space sm - sz\<rparr>)"
      using al nz hit(1) t(1) \<open>u = s\<close> s \<open>sm_space sm - sz \<le> sm_size sm\<close>
      by (simp add: space_map_remove_def Let_def)
    then show thesis using that tree_of_segs_inv [OF inv t(2)] by auto
  next
    case (miss w)
    have "start \<notin> {ss_start x ..< ss_end x}" if "x \<in> set (avl_list (sm_root sm))" for x
    proof -
      have "ss_end x \<le> start \<or> start + sz \<le> ss_start x"
        using fits_outside [OF miss(4), of x] that miss(3) by (simp add: space_map_segs_def)
      then show ?thesis using ne by auto
    qed
    then have "start \<notin> segs_set (avl_list (sm_root sm))" by (auto simp: segs_set_def)
    moreover have "start \<in> {start ..< start + sz}" using ne by simp
    ultimately show thesis using sub D(7) by blast
  qed
qed

lemma space_map_contains_ok:
  assumes inv: "space_map_inv sm" and al: "space_map_aligned sm start" "space_map_aligned sm sz"
    and ne: "start < start + sz"
  shows "space_map_contains sm start sz = Some ({start ..< start + sz} \<subseteq> space_map_set sm)"
proof -
  note D = space_map_invD [OF inv]
  have nz: "sz \<noteq> 0" using ne by auto
  let ?cover = "\<lambda>s. ss_start s \<le> start \<and> start + sz \<le> ss_end s"
  have iff: "{start ..< start + sz} \<subseteq> space_map_set sm \<longleftrightarrow> (\<exists>s \<in> set (avl_list (sm_root sm)). ?cover s)"
    using segs_contains_iff [OF D(3) ne] D(7) by simp
  from inv ne show ?thesis
  proof (cases rule: space_map_find)
    case (hit s xs ys)
    have s: "s \<in> set (avl_list (sm_root sm))" using hit(2) by (simp add: space_map_segs_def)
    have "s' = s" if "s' \<in> set (avl_list (sm_root sm))" "?cover s'" for s'
    proof (rule ccontr)
      assume "s' \<noteq> s"
      then have "ss_end s' < ss_start s \<or> ss_end s < ss_start s'" by (rule segs_pairwise [OF D(3) that(1) s])
      then show False using that(2) hit(3,4) by auto
    qed
    then have "(\<exists>s \<in> set (avl_list (sm_root sm)). ?cover s) \<longleftrightarrow> ?cover s" using s by blast
    then show ?thesis using al nz hit(1) by (simp add: space_map_contains_def Let_def iff)
  next
    case (miss w)
    have "\<not> ?cover s" if "s \<in> set (avl_list (sm_root sm))" for s
    proof -
      have "ss_end s \<le> start \<or> start + sz \<le> ss_start s"
        using fits_outside [OF miss(4), of s] that miss(3) by (simp add: space_map_segs_def)
      then show ?thesis using ne by auto
    qed
    then show ?thesis using al nz miss(1) by (auto simp: space_map_contains_def Let_def iff)
  qed
qed

subsection \<open>Excising a range\<close>

lemma space_map_segs_unique:
  "space_map_inv sm \<Longrightarrow> segs_ok zs \<Longrightarrow> segs_set zs = space_map_set sm \<Longrightarrow> space_map_segs sm = zs"
  by (simp add: segs_unique space_map_inv_def space_map_set_def)

lemma aligned_diff:
  assumes "space_map_aligned sm a" "space_map_aligned sm b" "a \<le> b"
  shows "space_map_aligned sm (b - a)"
proof -
  have d: "2 ^ n dvd unat x \<longleftrightarrow> take_bit n x = 0" for n and x :: u64
    by (simp add: and_mask_dvd_nat take_bit_eq_mask)
  show ?thesis using assms by (simp add: aligned_iff d [symmetric] unat_sub)
qed

text \<open>A map that differs from another in its segments only.\<close>

definition space_map_same :: "space_map \<Rightarrow> space_map \<Rightarrow> bool" where
  "space_map_same sm sm' \<longleftrightarrow> sm' = sm\<lparr>sm_root := sm_root sm', sm_space := sm_space sm'\<rparr>"

lemma space_map_same_iff: "space_map_same sm sm' \<longleftrightarrow>
    sm_start sm' = sm_start sm \<and> sm_size sm' = sm_size sm \<and> sm_shift sm' = sm_shift sm \<and>
    sm_loaded sm' = sm_loaded sm \<and> sm_loading sm' = sm_loading sm \<and> sm_ops sm' = sm_ops sm \<and>
    sm_ppd sm' = sm_ppd sm"
  by (cases sm; cases sm') (auto simp: space_map_same_def)

lemma space_map_same_refl [simp]: "space_map_same sm sm"
  by (simp add: space_map_same_iff)

lemma space_map_same_update [simp]: "space_map_same sm (sm\<lparr>sm_root := t, sm_space := sp\<rparr>)"
  by (simp add: space_map_same_iff)

lemma space_map_same_trans:
  "space_map_same sm sm' \<Longrightarrow> space_map_same sm' sm'' \<Longrightarrow> space_map_same sm sm''"
  by (simp add: space_map_same_iff)

lemma space_map_same_simps:
  assumes "space_map_same sm sm'"
  shows "sm_start sm' = sm_start sm" "sm_size sm' = sm_size sm" "sm_shift sm' = sm_shift sm"
    "sm_loaded sm' = sm_loaded sm" "sm_loading sm' = sm_loading sm" "sm_ops sm' = sm_ops sm"
    "sm_ppd sm' = sm_ppd sm" "space_map_aligned sm' = space_map_aligned sm"
    "seg_in_map sm' = seg_in_map sm" "range_in_map sm' = range_in_map sm"
  using assms by (simp_all add: space_map_same_iff fun_eq_iff space_map_aligned_def seg_in_map_def range_in_map_def)

lemma seg_compare_point:
  "ss_start x < ss_end x \<Longrightarrow>
   space_map_seg_compare (space_seg a a) x = 0 \<longleftrightarrow> ss_start x \<le> a \<and> a < ss_end x"
  by (auto simp: space_map_seg_compare_def)

text \<open>The segment the search of space_map_excise and the first-fit search yield: the first one
  that ends after the given offset.\<close>

definition space_map_from :: "space_map \<Rightarrow> u64 \<Rightarrow> space_seg option" where
  "space_map_from sm a = (case avl_find (sm_root sm) (space_seg a a) of
      Inl s \<Rightarrow> Some s | Inr where \<Rightarrow> avl_nearest (sm_root sm) where ChRight)"

lemma space_map_from_spec:
  assumes inv: "space_map_inv sm"
  obtains (none) "space_map_from sm a = None" "\<forall>s \<in> set (space_map_segs sm). ss_end s \<le> a"
    | (some) s xs ys where "space_map_from sm a = Some s" "space_map_segs sm = xs @ s # ys"
        "\<forall>x \<in> set xs. ss_end x \<le> a" "a < ss_end s"
proof -
  have ok: "segs_ok (space_map_segs sm)" and cmp: "avl_compar (sm_root sm) = space_map_seg_compare"
    using inv by (simp_all add: space_map_inv_def)
  have so: "avl_search_ok (avl_compar (sm_root sm)) (space_seg a a) (avl_list (sm_root sm))"
    using segs_search_ok [OF ok, of "space_seg a a"] cmp by (simp add: space_map_segs_def)
  from so show thesis
  proof (cases rule: avl.find_cases)
    case (hit d)
    then obtain xs ys where l: "space_map_segs sm = xs @ d # ys"
      by (metis space_map_segs_def split_list)
    then have "ss_start d < ss_end d" using ok by (simp add: segs_ok_append segs_ok_Cons)
    then have d: "ss_start d \<le> a \<and> a < ss_end d" using hit cmp by (simp add: seg_compare_point)
    have "ss_end x \<le> a" if "x \<in> set xs" for x
      using that ok l d by (fastforce simp: segs_ok_append)
    then show thesis using some [of d xs ys] l d hit(1) by (simp add: space_map_from_def)
  next
    case (miss i)
    have l: "space_map_segs sm = avl_before i @ avl_after i" using miss by (simp add: space_map_segs_def)
    have b: "\<forall>x \<in> set (avl_before i). ss_end x \<le> a" and f: "\<forall>x \<in> set (avl_after i). a < ss_start x"
      using miss cmp by (auto simp: seg_compare_eq)
    show thesis
    proof (cases "avl_after i")
      case Nil
      then show thesis using none miss(1) b l by (simp add: space_map_from_def avl_nearest_after)
    next
      case (Cons s ys)
      then have "a < ss_end s" using f ok l by (auto simp: segs_ok_append segs_ok_Cons)
      then show thesis
        using some [of s "avl_before i" ys] Cons miss(1) b l by (simp add: space_map_from_def avl_nearest_after)
    qed
  qed
qed

definition segs_hits :: "space_seg list \<Rightarrow> u64 \<Rightarrow> u64 \<Rightarrow> nat" where
  "segs_hits xs a b = length (filter (\<lambda>s. ss_start s < b \<and> a < ss_end s) xs)"

text \<open>The segments left after removing the part of one segment that lies in a range.\<close>

definition segs_trim :: "space_seg \<Rightarrow> u64 \<Rightarrow> u64 \<Rightarrow> space_seg list" where
  "segs_trim s a b = (if ss_start s < a then [s\<lparr>ss_end := a\<rparr>] else []) @
     (if b < ss_end s then [space_seg b (ss_end s)] else [])"

lemma segs_trim_spec:
  assumes "segs_ok (xs @ s # ys)" "max (ss_start s) a < min (ss_end s) b"
  shows "segs_ok (xs @ segs_trim s a b @ ys)"
    "segs_set (xs @ segs_trim s a b @ ys) = segs_set (xs @ s # ys) - {max (ss_start s) a ..< min (ss_end s) b}"
proof -
  have c: "ss_start s \<le> max (ss_start s) a" "min (ss_end s) b \<le> ss_end s" by simp_all
  have set: "segs_set (segs_trim s a b) = {ss_start s ..< max (ss_start s) a} \<union> {min (ss_end s) b ..< ss_end s}"
    using assms(2) by (auto simp: segs_trim_def)
  show "segs_set (xs @ segs_trim s a b @ ys) = segs_set (xs @ s # ys) - {max (ss_start s) a ..< min (ss_end s) b}"
    using segs_carve(1) [OF assms(1) c(1) assms(2) c(2)] set by (simp add: Un_assoc)
  show "segs_ok (xs @ segs_trim s a b @ ys)"
    using assms by (auto simp: segs_trim_def segs_ok_append segs_ok_Cons)
qed

lemma segs_hits_trim:
  assumes "max (ss_start s) a < min (ss_end s) b"
  shows "segs_hits (xs @ s # ys) a b = Suc (segs_hits (xs @ segs_trim s a b @ ys) a b)"
  using assms by (auto simp: segs_hits_def segs_trim_def)

lemma space_map_excise_step:
  assumes inv: "space_map_inv sm" and al: "space_map_aligned sm a" "space_map_aligned sm b"
    and l: "space_map_segs sm = xs @ s # ys" and h: "ss_start s < b" "a < ss_end s" "a < b"
  obtains sm' where
    "space_map_remove zr sm (max (ss_start s) a) (min (ss_end s) b - max (ss_start s) a) = Some sm'"
    "space_map_inv sm'" "space_map_set sm' = space_map_set sm - {max (ss_start s) a ..< min (ss_end s) b}"
    "segs_hits (space_map_segs sm) a b = Suc (segs_hits (space_map_segs sm') a b)"
    "space_map_same sm sm'"
proof -
  let ?a = "max (ss_start s) a" and ?b = "min (ss_end s) b"
  have ok: "segs_ok (xs @ s # ys)" using inv l by (simp add: space_map_inv_def)
  have im: "seg_in_map sm s" using inv l by (simp add: space_map_inv_def)
  have lt: "?a < ?b" using h ok by (simp add: segs_ok_append segs_ok_Cons)
  have al': "space_map_aligned sm ?a" "space_map_aligned sm (?b - ?a)"
    using al im lt by (auto simp: seg_in_map_def max_def min_def intro: aligned_diff)
  have ab: "?a + (?b - ?a) = ?b" by simp
  have ne: "?a < ?a + (?b - ?a)" unfolding ab by (rule lt)
  have sub: "{?a ..< ?a + (?b - ?a)} \<subseteq> space_map_set sm" unfolding ab by (auto simp: space_map_set_def l)
  obtain sm' where sm': "space_map_remove zr sm ?a (?b - ?a) = Some sm'" "space_map_inv sm'"
      "space_map_set sm' = space_map_set sm - {?a ..< ?a + (?b - ?a)}"
      "sm_space sm' = sm_space sm - (?b - ?a)"
      "\<exists>t. sm' = sm\<lparr>sm_root := t, sm_space := sm_space sm - (?b - ?a)\<rparr>"
    by (rule space_map_remove_ok [OF inv al' ne sub, of zr])
  have "space_map_segs sm' = xs @ segs_trim s a b @ ys"
    using sm'(2,3) segs_trim_spec [OF ok lt] l unfolding ab
    by (intro space_map_segs_unique) (simp_all add: space_map_set_def)
  then have "segs_hits (space_map_segs sm) a b = Suc (segs_hits (space_map_segs sm') a b)"
    using segs_hits_trim [OF lt] l by simp
  moreover have "space_map_same sm sm'" using sm'(5) by auto
  ultimately show thesis using that [of sm'] sm'(1,2,3) unfolding ab by simp
qed

lemma space_map_excise_Suc:
  "space_map_excise (Suc fuel) zr sm start sz =
     (case space_map_from sm start of
        None \<Rightarrow> Some sm
      | Some s \<Rightarrow>
          if start + sz \<le> ss_start s then Some sm
          else
            (case space_map_remove zr sm (max (ss_start s) start)
                    (min (ss_end s) (start + sz) - max (ss_start s) start) of
               None \<Rightarrow> None
             | Some sm' \<Rightarrow> space_map_excise fuel zr sm' start sz))"
  unfolding space_map_excise.simps space_map_from_def Let_def by (rule refl)

lemma space_map_excise_ok:
  assumes "space_map_inv sm" "space_map_aligned sm start" "space_map_aligned sm sz" "start < start + sz"
    and "segs_hits (space_map_segs sm) start (start + sz) < fuel"
  shows "\<exists>sm'. space_map_excise fuel zr sm start sz = Some sm' \<and> space_map_inv sm' \<and>
    space_map_set sm' = space_map_set sm - {start ..< start + sz} \<and>
    space_map_same sm sm'"
  using assms
proof (induction fuel arbitrary: sm)
  case (Suc fuel)
  note inv = Suc.prems(1)
  let ?e = "start + sz"
  have al: "space_map_aligned sm ?e" using Suc.prems by (simp add: aligned_add)
  have ok: "segs_ok (space_map_segs sm)" using inv by (simp add: space_map_inv_def)
  from inv show ?case
  proof (cases rule: space_map_from_spec [where a = start])
    case none
    have "space_map_excise (Suc fuel) zr sm start sz = Some sm"
      by (simp add: space_map_excise_Suc none(1) del: space_map_excise.simps)
    moreover have "space_map_set sm \<inter> {start ..< ?e} = {}"
      using none(2) by (force simp: space_map_set_def segs_set_def)
    ultimately show ?thesis using inv by (intro exI [of _ sm]) (simp add: Diff_triv del: space_map_excise.simps)
  next
    case (some s xs ys)
    show ?thesis
    proof (cases "ss_start s \<ge> ?e")
      case True
      have "space_map_excise (Suc fuel) zr sm start sz = Some sm"
        using True by (simp add: space_map_excise_Suc some(1) del: space_map_excise.simps)
      moreover have "space_map_set sm \<inter> {start ..< ?e} = {}"
      proof -
        have "start + sz \<le> ss_start y" if "y \<in> set ys" for y
          using that True some(2) ok by (force simp: segs_ok_append segs_ok_Cons)
        then show ?thesis using True some(2,3) by (force simp: space_map_set_def segs_set_def)
      qed
      ultimately show ?thesis using inv by (intro exI [of _ sm]) (simp add: Diff_triv del: space_map_excise.simps)
    next
      case False
      then have lt: "ss_start s < ?e" by simp
      obtain sm' where sm': "space_map_remove zr sm (max (ss_start s) start)
            (min (ss_end s) ?e - max (ss_start s) start) = Some sm'"
          "space_map_inv sm'"
          "space_map_set sm' = space_map_set sm - {max (ss_start s) start ..< min (ss_end s) ?e}"
          "segs_hits (space_map_segs sm) start ?e = Suc (segs_hits (space_map_segs sm') start ?e)"
          "space_map_same sm sm'"
        by (rule space_map_excise_step [OF inv Suc.prems(2) al some(2) lt some(4) Suc.prems(4), of zr])
      have al': "space_map_aligned sm' start" "space_map_aligned sm' sz"
        using Suc.prems(2,3) by (simp_all add: space_map_same_simps [OF sm'(5)])
      have "segs_hits (space_map_segs sm') start ?e < fuel" using sm'(4) Suc.prems(5) by simp
      from Suc.IH [OF sm'(2) al' Suc.prems(4) this]
      obtain r where r: "space_map_excise fuel zr sm' start sz = Some r" "space_map_inv r"
          "space_map_set r = space_map_set sm' - {start ..< ?e}" "space_map_same sm' r"
        by (elim exE conjE)
      have "space_map_excise (Suc fuel) zr sm start sz = Some r"
        using False by (simp add: space_map_excise_Suc some(1) sm'(1) r(1) del: space_map_excise.simps)
      moreover have "space_map_set r = space_map_set sm - {start ..< ?e}" 
        using max.cobounded2 [of start "ss_start s"] min.cobounded2 [of "ss_end s" ?e]
        unfolding r(3) sm'(3) by (auto simp del: max.cobounded2 min.cobounded2)
      moreover have "space_map_same sm r" using r(4) sm'(5) by (rule space_map_same_trans [rotated])
      ultimately show ?thesis using r(2) by (intro exI [of _ r]) (simp del: space_map_excise.simps)
    qed
  qed
qed simp

end
