(* ===== verification/Space_Map_Iter.thy ===== *)
theory Space_Map_Iter
  imports Space_Map_Invariant
begin

text \<open>
  The operations that apply a function to every segment of a map: walking, vacating and the union.
  The locale \<open>range_func\<close> is the contract of a function handed to \<^verbatim>\<open>space_map_walk\<close> and
  \<^verbatim>\<open>space_map_vacate\<close>; it is interpreted on adding, on removing and on the body of
  \<^verbatim>\<open>space_map_union\<close>.
\<close>

definition segs_apart :: "space_seg list \<Rightarrow> bool" where
  "segs_apart zs \<longleftrightarrow> sorted_wrt (\<lambda>s t. {ss_start s ..< ss_end s} \<inter> {ss_start t ..< ss_end t} = {}) zs"

lemma segs_apart_Cons:
  "segs_apart (s # zs) \<longleftrightarrow> {ss_start s ..< ss_end s} \<inter> segs_set zs = {} \<and> segs_apart zs"
  unfolding segs_apart_def segs_set_def sorted_wrt.simps by blast

lemma segs_apart_perm:
  assumes "segs_ok xs" "mset zs = mset xs"
  shows "segs_apart zs" "set zs = set xs" "segs_set zs = segs_set xs"
proof -
  show set: "set zs = set xs" using assms(2) by (rule mset_eq_setD)
  then show "segs_set zs = segs_set xs" by (simp add: segs_set_def)
  have "distinct zs" using segs_ok_distinct [OF assms(1)] assms(2) by (metis mset_eq_imp_distinct_iff)
  moreover have "{ss_start s ..< ss_end s} \<inter> {ss_start t ..< ss_end t} = {}"
    if "s \<in> set zs" "t \<in> set zs" "s \<noteq> t" for s t
    using segs_pairwise [OF assms(1), of s t] that set by auto
  ultimately show "segs_apart zs"
    unfolding segs_apart_def by (induction zs) auto
qed

lemma seg_range_in_map:
  assumes "seg_in_map sm s" "ss_start s < ss_end s"
  shows "range_in_map sm (ss_start s) (ss_end s - ss_start s)"
  using assms by (auto simp: range_in_map_def seg_in_map_def intro: aligned_diff)

lemma space_map_create_inv:
  assumes "start \<le> start + sz"
  shows "space_map_inv (space_map_create start sz shift)" "space_map_set (space_map_create start sz shift) = {}"
  using assms
  by (simp_all add: space_map_inv_def space_map_set_def space_map_segs_def space_map_create_def segs_space_def)

definition space_map_emptied :: "space_map \<Rightarrow> space_map" where
  "space_map_emptied sm = sm\<lparr>sm_root := (sm_root sm)\<lparr>avl_root := Null, avl_numnodes := 0\<rparr>, sm_space := 0\<rparr>"

lemma space_map_emptied_ok:
  assumes "space_map_inv sm"
  shows "space_map_inv (space_map_emptied sm)" "space_map_set (space_map_emptied sm) = {}"
    "space_map_same sm (space_map_emptied sm)" "sm_space (space_map_emptied sm) = 0"
    "avl_root (sm_root (space_map_emptied sm)) = Null" "avl_numnodes (sm_root (space_map_emptied sm)) = 0"
  using assms
  by (simp_all add: space_map_emptied_def space_map_inv_def space_map_set_def space_map_segs_def
      avl_list_def avl_wf_def segs_space_def)

lemma space_map_drain:
  assumes "space_map_inv sm"
  shows "avl_drain (avl_numnodes (sm_root sm) + 1) (sm_root sm) CkNull =
    Some (avl_postorder (avl_root (sm_root sm)), (sm_root sm)\<lparr>avl_root := Null, avl_numnodes := 0\<rparr>)"
  by (rule avl_drain_spec [OF space_map_invD(1) [OF assms]]) simp

lemma space_map_vacate_eq:
  assumes "space_map_inv sm"
  shows "space_map_vacate sm func d = map_option (Pair (space_map_emptied sm))
     (foldM (\<lambda>d ss. case func of None \<Rightarrow> Some d | Some f \<Rightarrow> f d (ss_start ss) (ss_end ss - ss_start ss))
        d (avl_postorder (avl_root (sm_root sm))))"
  unfolding space_map_vacate_def space_map_drain [OF assms] by (simp add: space_map_emptied_def map_option_case)

lemma space_map_vacate_none:
  assumes "space_map_inv sm"
  shows "space_map_vacate sm None d = Some (space_map_emptied sm, d)"
proof -
  have "foldM (\<lambda>d ss. Some d) d zs = Some d" for zs :: "space_seg list" by (induction zs) simp_all
  then show ?thesis by (simp add: space_map_vacate_eq [OF assms])
qed

locale range_func =
  fixes func :: "space_map \<Rightarrow> u64 \<Rightarrow> u64 \<Rightarrow> space_map option"
    and pre :: "u64 set \<Rightarrow> u64 set \<Rightarrow> bool"
    and eff :: "u64 set \<Rightarrow> u64 set \<Rightarrow> u64 set"
  assumes func_law: "space_map_inv d \<Longrightarrow> range_in_map d a sz \<Longrightarrow> pre (space_map_set d) {a ..< a + sz} \<Longrightarrow>
      \<exists>d'. func d a sz = Some d' \<and> space_map_inv d' \<and> space_map_same d d' \<and>
        space_map_set d' = eff (space_map_set d) {a ..< a + sz}"
    and eff_empty: "eff A {} = A"
    and eff_Un: "eff (eff A R) S = eff A (R \<union> S)"
    and pre_Un: "pre A (R \<union> S) \<Longrightarrow> R \<inter> S = {} \<Longrightarrow> pre A R \<and> pre (eff A R) S"
begin

definition func_spec :: "space_map \<Rightarrow> u64 set \<Rightarrow> space_map \<Rightarrow> bool" where
  "func_spec d S d' \<longleftrightarrow> space_map_inv d' \<and> space_map_same d d' \<and>
     space_map_set d' = eff (space_map_set d) S"

lemma fold_law:
  assumes "space_map_inv d" "\<forall>s \<in> set zs. seg_in_map d s \<and> ss_start s < ss_end s" "segs_apart zs"
    and "pre (space_map_set d) (segs_set zs)"
  shows "\<exists>d'. foldM (\<lambda>d ss. func d (ss_start ss) (ss_end ss - ss_start ss)) d zs = Some d' \<and>
    func_spec d (segs_set zs) d'"
  using assms
proof (induction zs arbitrary: d)
  case Nil
  then show ?case by (simp add: func_spec_def eff_empty)
next
  case (Cons s zs)
  have r: "range_in_map d (ss_start s) (ss_end s - ss_start s)"
    using Cons.prems(2) by (intro seg_range_in_map) auto
  have "pre (space_map_set d) ({ss_start s ..< ss_end s} \<union> segs_set zs)" using Cons.prems(4) by simp
  from pre_Un [OF this] Cons.prems(3)
  have p: "pre (space_map_set d) {ss_start s ..< ss_end s}"
      "pre (eff (space_map_set d) {ss_start s ..< ss_end s}) (segs_set zs)"
    by (simp_all add: segs_apart_Cons)
  from func_law [OF Cons.prems(1) r] p(1)
  obtain d1 where d1: "func d (ss_start s) (ss_end s - ss_start s) = Some d1" "space_map_inv d1"
      "space_map_same d d1" "space_map_set d1 = eff (space_map_set d) {ss_start s ..< ss_end s}"
    by auto
  have "\<forall>s \<in> set zs. seg_in_map d1 s \<and> ss_start s < ss_end s"
    using Cons.prems(2) by (simp add: space_map_same_simps [OF d1(3)])
  from Cons.IH [OF d1(2) this] Cons.prems(3) p(2) d1(4)
  obtain d' where "foldM (\<lambda>d ss. func d (ss_start ss) (ss_end ss - ss_start ss)) d1 zs = Some d'"
      "func_spec d1 (segs_set zs) d'"
    by (auto simp: segs_apart_Cons)
  then show ?case using d1 by (auto simp: func_spec_def eff_Un intro: space_map_same_trans)
qed

lemma fold_perm_law:
  assumes "space_map_inv d" "space_map_inv sm" "\<forall>s \<in> set (space_map_segs sm). seg_in_map d s"
    and "pre (space_map_set d) (space_map_set sm)" "mset zs = mset (space_map_segs sm)"
  shows "\<exists>d'. foldM (\<lambda>d ss. func d (ss_start ss) (ss_end ss - ss_start ss)) d zs = Some d' \<and>
    func_spec d (space_map_set sm) d'"
proof -
  have ok: "segs_ok (space_map_segs sm)" using assms(2) by (simp add: space_map_inv_def)
  note z = segs_apart_perm [OF ok assms(5)]
  have "\<forall>s \<in> set zs. seg_in_map d s \<and> ss_start s < ss_end s"
    using assms(3) ok z(2) by (simp add: segs_ok_def)
  from fold_law [OF assms(1) this z(1)] assms(4) show ?thesis by (simp add: z(3) space_map_set_def)
qed

lemma walk_law:
  assumes "space_map_inv d" "space_map_inv sm" "\<forall>s \<in> set (space_map_segs sm). seg_in_map d s"
    and "pre (space_map_set d) (space_map_set sm)"
  shows "\<exists>d'. space_map_walk sm func d = Some d' \<and> func_spec d (space_map_set sm) d'"
proof -
  have "space_map_walk sm func d =
      foldM (\<lambda>d ss. func d (ss_start ss) (ss_end ss - ss_start ss)) d (space_map_segs sm)"
    using space_map_invD(1,4) [OF assms(2)]
    by (simp add: space_map_walk_def avl_foreach_foldM avl_wf_def space_map_segs_def)
  then show ?thesis using fold_perm_law [OF assms] by simp
qed

lemma vacate_law:
  assumes "space_map_inv d" "space_map_inv sm" "\<forall>s \<in> set (space_map_segs sm). seg_in_map d s"
    and "pre (space_map_set d) (space_map_set sm)"
  shows "\<exists>d'. space_map_vacate sm (Some func) d = Some (space_map_emptied sm, d') \<and>
    func_spec d (space_map_set sm) d'"
proof -
  have "mset (avl_postorder (avl_root (sm_root sm))) = mset (space_map_segs sm)"
    by (simp add: mset_postorder space_map_segs_def avl_list_def)
  from fold_perm_law [OF assms this] show ?thesis
    by (auto simp: space_map_vacate_eq [OF assms(2)])
qed

end

interpretation sm_add: range_func "space_map_add zr" "\<lambda>A R. A \<inter> R = {}" "(\<union>)" for zr
proof
  fix d a sz
  assume "space_map_inv d" "range_in_map d a sz" "space_map_set d \<inter> {a ..< a + sz} = {}"
  then show "\<exists>d'. space_map_add zr d a sz = Some d' \<and> space_map_inv d' \<and> space_map_same d d' \<and>
      space_map_set d' = space_map_set d \<union> {a ..< a + sz}"
    by (rule space_map_add_ok [where zr = zr]) auto
qed auto

interpretation sm_remove: range_func "space_map_remove zr" "\<lambda>A R. R \<subseteq> A" "(-)" for zr
proof
  fix d a sz
  assume d: "space_map_inv d" "range_in_map d a sz" "{a ..< a + sz} \<subseteq> space_map_set d"
  then have "space_map_aligned d a" "space_map_aligned d sz" "a < a + sz"
    by (simp_all add: range_in_map_def)
  from d(1) this d(3) show "\<exists>d'. space_map_remove zr d a sz = Some d' \<and> space_map_inv d' \<and> space_map_same d d' \<and>
      space_map_set d' = space_map_set d - {a ..< a + sz}"
    by (rule space_map_remove_ok [where zr = zr]) auto
qed auto

lemma segs_hits_le: "segs_hits xs a b \<le> length xs"
  by (simp add: segs_hits_def)

definition space_map_join :: "bool \<Rightarrow> space_map \<Rightarrow> u64 \<Rightarrow> u64 \<Rightarrow> space_map option" where
  "space_map_join zr d start sz =
     (case space_map_excise (avl_numnodes (sm_root d) + 2) zr d start sz of
        None \<Rightarrow> None
      | Some d' \<Rightarrow> space_map_add zr d' start sz)"

interpretation sm_join: range_func "space_map_join zr" "\<lambda>A R. True" "(\<union>)" for zr
proof
  fix d a sz
  assume d: "space_map_inv d" "range_in_map d a sz"
  then have "space_map_aligned d a" "space_map_aligned d sz" "a < a + sz" by (simp_all add: range_in_map_def)
  moreover have "segs_hits (space_map_segs d) a (a + sz) < avl_numnodes (sm_root d) + 2"
    using segs_hits_le [of "space_map_segs d" a "a + sz"] space_map_invD(1) [OF d(1)]
    by (simp add: space_map_segs_def avl_wf_def)
  ultimately obtain e where e: "space_map_excise (avl_numnodes (sm_root d) + 2) zr d a sz = Some e"
      "space_map_inv e" "space_map_set e = space_map_set d - {a ..< a + sz}" "space_map_same d e"
    using space_map_excise_ok [OF d(1), of a sz "avl_numnodes (sm_root d) + 2" zr] by auto
  have "range_in_map e a sz" using d(2) by (simp add: space_map_same_simps [OF e(4)])
  moreover have "space_map_set e \<inter> {a ..< a + sz} = {}" using e(3) by auto
  ultimately obtain d' where "space_map_add zr e a sz = Some d'" "space_map_inv d'" "space_map_same e d'"
      "space_map_set d' = space_map_set e \<union> {a ..< a + sz}"
    using sm_add.func_law [OF e(2), of a sz zr] by auto
  then show "\<exists>d'. space_map_join zr d a sz = Some d' \<and> space_map_inv d' \<and> space_map_same d d' \<and>
      space_map_set d' = space_map_set d \<union> {a ..< a + sz}"
    using e space_map_same_trans by (auto simp: space_map_join_def)
qed auto

lemma space_map_union_walk: "space_map_union zr smd sms = space_map_walk sms (space_map_join zr) smd"
  by (simp add: space_map_union_def space_map_walk_def space_map_join_def)

end
