(* ===== verification/Space_Map_Log.thy ===== *)
theory Space_Map_Log
  imports Space_Map_Iter
begin

text \<open>
  The on-disk form of a space map: the bit fields of its entries, the log of allocations and frees
  an object holds, and what \<^verbatim>\<open>space_map_sync\<close> appends to it and \<^verbatim>\<open>space_map_load\<close> replays.
\<close>

subsection \<open>Entries\<close>

lemmas sm_entry_defs = SM_RUN_DECODE_def SM_RUN_ENCODE_def SM_TYPE_DECODE_def SM_TYPE_ENCODE_def
  SM_OFFSET_DECODE_def SM_OFFSET_ENCODE_def SM_DEBUG_DECODE_def SM_DEBUG_ENCODE_def
  SM_DEBUG_ACTION_DECODE_def SM_DEBUG_ACTION_ENCODE_def SM_DEBUG_SYNCPASS_DECODE_def
  SM_DEBUG_SYNCPASS_ENCODE_def SM_DEBUG_TXG_DECODE_def SM_DEBUG_TXG_ENCODE_def

lemma SM_RUN_MAX_eq: "SM_RUN_MAX = 32768"
  by code_simp

definition sm_debug_entry :: "u8 \<Rightarrow> u64 \<Rightarrow> u64 \<Rightarrow> u64" where
  "sm_debug_entry maptype sync_pass txg =
     SM_DEBUG_ENCODE 1 OR SM_DEBUG_ACTION_ENCODE (ucast maptype) OR
     SM_DEBUG_SYNCPASS_ENCODE sync_pass OR SM_DEBUG_TXG_ENCODE txg"

lemma debug_entry_decode:
  "SM_DEBUG_DECODE (sm_debug_entry maptype sync_pass txg) = 1"
  by (simp add: sm_debug_entry_def sm_entry_defs BF64_DECODE_or BF64_ENCODE_decode BF64_DECODE_other)

lemma entry_decode:
  assumes "unat start < 2 ^ 47" "0 < unat run" "unat run \<le> 2 ^ 15" "maptype = SM_ALLOC \<or> maptype = SM_FREE"
  shows "SM_DEBUG_DECODE (space_map_entry maptype start run) = 0"
    "SM_OFFSET_DECODE (space_map_entry maptype start run) = start"
    "SM_TYPE_DECODE (space_map_entry maptype start run) = ucast maptype"
    "SM_RUN_DECODE (space_map_entry maptype start run) = run"
proof -
  have run: "unat (run - 1) < 2 ^ 15"
    using assms(2,3) by (simp add: unat_minus_one unat_gt_0)
  have t: "take_bit 1 (ucast maptype :: u64) = ucast maptype"
    using assms(4) by (auto simp: SM_ALLOC_def SM_FREE_def)
  note simps = space_map_entry_def sm_entry_defs BF64_DECODE_or BF64_ENCODE_decode BF64_DECODE_other
  show "SM_DEBUG_DECODE (space_map_entry maptype start run) = 0"
    by (simp add: simps)
  show "SM_OFFSET_DECODE (space_map_entry maptype start run) = start"
    using take_bit_small [OF assms(1)] by (simp add: simps)
  show "SM_TYPE_DECODE (space_map_entry maptype start run) = ucast maptype"
    using t by (simp add: simps)
  show "SM_RUN_DECODE (space_map_entry maptype start run) = run"
    using take_bit_small [OF run] by (simp add: simps)
qed

subsection \<open>The log\<close>

definition log_pre :: "u64 \<Rightarrow> u64 set \<Rightarrow> u64 set \<Rightarrow> bool" where
  "log_pre t A R \<longleftrightarrow> (if t = ucast SM_ALLOC then A \<inter> R = {} else R \<subseteq> A)"

definition log_eff :: "u64 \<Rightarrow> u64 set \<Rightarrow> u64 set \<Rightarrow> u64 set" where
  "log_eff t A R = (if t = ucast SM_ALLOC then A \<union> R else A - R)"

lemma log_eff_simps:
  "log_eff t A {} = A" "log_eff t (log_eff t A R) S = log_eff t A (R \<union> S)"
  by (auto simp: log_eff_def)

lemma log_pre_Un:
  "log_pre t A (R \<union> S) \<Longrightarrow> R \<inter> S = {} \<Longrightarrow> log_pre t A R \<and> log_pre t (log_eff t A R) S"
  by (auto simp: log_eff_def log_pre_def)

text \<open>\<open>space_map_log sm es A B\<close>: replaying the entries \<open>es\<close> of an object of the map \<open>sm\<close>
  takes the set \<open>A\<close> of allocated offsets to \<open>B\<close>, each entry lying in the map, allocating free
  offsets only and freeing allocated ones only.\<close>

inductive space_map_log :: "space_map \<Rightarrow> u64 list \<Rightarrow> u64 set \<Rightarrow> u64 set \<Rightarrow> bool" for sm where
  log_nil: "space_map_log sm [] A A"
| log_debug: "SM_DEBUG_DECODE e \<noteq> 0 \<Longrightarrow> space_map_log sm es A B \<Longrightarrow> space_map_log sm (e # es) A B"
| log_entry: "SM_DEBUG_DECODE e = 0 \<Longrightarrow>
    a = push_bit (sm_shift sm) (SM_OFFSET_DECODE e) + sm_start sm \<Longrightarrow>
    sz = push_bit (sm_shift sm) (SM_RUN_DECODE e) \<Longrightarrow> range_in_map sm a sz \<Longrightarrow>
    log_pre (SM_TYPE_DECODE e) A {a ..< a + sz} \<Longrightarrow>
    space_map_log sm es (log_eff (SM_TYPE_DECODE e) A {a ..< a + sz}) B \<Longrightarrow>
    space_map_log sm (e # es) A B"

lemma log_append:
  "space_map_log sm es A B \<Longrightarrow> space_map_log sm fs B C \<Longrightarrow> space_map_log sm (es @ fs) A C"
  by (induction rule: space_map_log.induct) (auto intro: space_map_log.intros)

lemma log_same:
  assumes "space_map_log sm es A B" "sm_start sm' = sm_start sm" "sm_size sm' = sm_size sm" "sm_shift sm' = sm_shift sm"
  shows "space_map_log sm' es A B"
  using assms
proof (induction rule: space_map_log.induct)
  case (log_entry e a sz A es B)
  have "range_in_map sm' a sz"
    using log_entry by (simp add: range_in_map_def space_map_aligned_def)
  with log_entry show ?case by (intro space_map_log.log_entry) auto
qed (auto intro: space_map_log.intros)

text \<open>What a map of a type keeps when the set \<open>A\<close> is allocated.\<close>

definition map_view :: "u8 \<Rightarrow> space_map \<Rightarrow> u64 set \<Rightarrow> u64 set" where
  "map_view maptype sm A = (if maptype = SM_ALLOC then A else {sm_start sm ..< sm_start sm + sm_size sm} - A)"

lemma map_view_add:
  assumes "maptype = SM_ALLOC \<or> maptype = SM_FREE" "R \<subseteq> {sm_start sm ..< sm_start sm + sm_size sm}"
    and "log_pre (ucast maptype) A R"
  shows "map_view maptype sm A \<inter> R = {}" "map_view maptype sm A \<union> R = map_view maptype sm (log_eff (ucast maptype) A R)"
  using assms by (auto simp: map_view_def log_pre_def log_eff_def SM_ALLOC_def SM_FREE_def)

lemma map_view_remove:
  assumes "maptype = SM_ALLOC \<or> maptype = SM_FREE" "R \<subseteq> {sm_start sm ..< sm_start sm + sm_size sm}"
    and "log_pre t A R" "t \<noteq> ucast maptype" "t = 0 \<or> t = 1"
  shows "R \<subseteq> map_view maptype sm A" "map_view maptype sm A - R = map_view maptype sm (log_eff t A R)"
  using assms by (auto simp: map_view_def log_pre_def log_eff_def SM_ALLOC_def SM_FREE_def)

lemma load_entry_step:
  assumes t: "maptype = SM_ALLOC \<or> maptype = SM_FREE" and d: "SM_DEBUG_DECODE e = 0"
    and a: "a = push_bit (sm_shift sm) (SM_OFFSET_DECODE e) + sm_start sm"
      "sz = push_bit (sm_shift sm) (SM_RUN_DECODE e)"
    and r: "range_in_map sm a sz" and p: "log_pre (SM_TYPE_DECODE e) A {a ..< a + sz}"
    and inv: "space_map_inv sm" and v: "space_map_set sm = map_view maptype sm A"
  shows "\<exists>sm'. space_map_load_entry zr maptype (sm_start sm) sm e = Some sm' \<and> space_map_inv sm' \<and>
    space_map_same sm sm' \<and> space_map_set sm' = map_view maptype sm (log_eff (SM_TYPE_DECODE e) A {a ..< a + sz})"
proof -
  have sub: "{a ..< a + sz} \<subseteq> {sm_start sm ..< sm_start sm + sm_size sm}"
    using r by (auto simp: range_in_map_def)
  have ty: "SM_TYPE_DECODE e = 0 \<or> SM_TYPE_DECODE e = 1"
    by (auto simp: sm_entry_defs p2_simps take_bit_Suc One_nat_def mod2_eq_if)
  show ?thesis
  proof (cases "SM_TYPE_DECODE e = ucast maptype")
    case True
    have "space_map_load_entry zr maptype (sm_start sm) sm e = space_map_add zr sm a sz"
      using d True a by (simp add: space_map_load_entry_def)
    then show ?thesis
      using sm_add.func_law [OF inv r, of zr] map_view_add [OF t sub p [unfolded True]] v True by simp
  next
    case False
    have "space_map_load_entry zr maptype (sm_start sm) sm e = space_map_remove zr sm a sz"
      using d False a by (simp add: space_map_load_entry_def)
    then show ?thesis
      using sm_remove.func_law [OF inv r, of zr] map_view_remove [OF t sub p False ty] v by simp
  qed
qed

lemma load_entries:
  assumes t: "maptype = SM_ALLOC \<or> maptype = SM_FREE" and l: "space_map_log sm es A B"
    and "space_map_inv d" "space_map_same sm d" "space_map_set d = map_view maptype sm A"
  shows "\<exists>d'. foldM (space_map_load_entry zr maptype (sm_start sm)) d es = Some d' \<and> space_map_inv d' \<and>
    space_map_same sm d' \<and> space_map_set d' = map_view maptype sm B"
  using l assms(3-)
proof (induction arbitrary: d rule: space_map_log.induct)
  case (log_nil A)
  then show ?case by simp
next
  case (log_debug e es A B)
  then show ?case by (simp add: space_map_load_entry_def)
next
  case (log_entry e a sz A es B)
  note same = space_map_same_simps [OF log_entry.prems(2)]
  have v: "map_view maptype d = map_view maptype sm" by (simp add: fun_eq_iff map_view_def same)
  obtain d1 where "space_map_load_entry zr maptype (sm_start d) d e = Some d1" "space_map_inv d1"
    "space_map_same d d1" "space_map_set d1 = map_view maptype d (log_eff (SM_TYPE_DECODE e) A {a ..< a + sz})"
    using load_entry_step [OF t log_entry.hyps(1), of a d sz A zr] log_entry.hyps log_entry.prems
    by (auto simp: same v)
  then show ?case
    using log_entry.IH [of d1] space_map_same_trans [OF log_entry.prems(2), of d1] by (simp add: same v)
qed

subsection \<open>Loading\<close>

text \<open>What the loading code relies on of the DMU: a read within the object yields its words or a
  non-zero error number.\<close>

definition read_in :: "u64 list \<Rightarrow> u64 \<Rightarrow> u64 \<Rightarrow> bool" where
  "read_in obj off sz \<longleftrightarrow> 8 dvd unat off \<and> 8 dvd unat sz \<and> unat off + unat sz \<le> 8 * length obj"

definition object_reads :: "(u64 \<Rightarrow> u64 \<Rightarrow> int + u64 list) \<Rightarrow> u64 list \<Rightarrow> bool" where
  "object_reads dmu_read obj \<longleftrightarrow> (\<forall>off sz. read_in obj off sz \<longrightarrow>
     dmu_read off sz = Inr (take (unat sz div 8) (drop (unat off div 8) obj)))"

definition object_reads_or_fails :: "(u64 \<Rightarrow> u64 \<Rightarrow> int + u64 list) \<Rightarrow> u64 list \<Rightarrow> bool" where
  "object_reads_or_fails dmu_read obj \<longleftrightarrow> (\<forall>off sz. read_in obj off sz \<longrightarrow>
     dmu_read off sz = Inr (take (unat sz div 8) (drop (unat off div 8) obj)) \<or>
     (\<exists>error. error \<noteq> 0 \<and> dmu_read off sz = Inl error))"

lemma P2PHASE_8: "P2PHASE x 8 = 0 \<longleftrightarrow> 8 dvd unat x"
proof -
  have "P2PHASE x 8 = take_bit 3 x" using P2PHASE_take_bit [of x 3] by simp
  moreover have "take_bit 3 x = 0 \<longleftrightarrow> take_bit 3 (unat x) = 0"
    by (simp add: word_unat_eq_iff unsigned_take_bit_eq)
  ultimately show ?thesis by (simp add: take_bit_eq_mod dvd_eq_mod_eq_0)
qed

text \<open>One chunk of the object: the size of the read, and where the next one starts.\<close>

lemma load_chunk:
  fixes off e :: u64
  assumes small: "8 * length obj + 4096 < 2 ^ 64" and e: "unat e = 8 * length obj"
    and off: "8 dvd unat off" "unat off < 8 * length obj" and sz: "sz = min (e - off) 4096"
  shows "off < e" "P2PHASE sz 8 = 0 \<and> sz \<noteq> 0" "read_in obj off sz"
    "unat (off + 4096) = unat off + 4096"
    "drop (unat off div 8) obj =
       take (unat sz div 8) (drop (unat off div 8) obj) @ drop (unat (off + 4096) div 8) obj"
proof -
  show lt: "off < e" using e off(2) by (simp add: word_less_nat_alt)
  then have "unat (e - off) = 8 * length obj - unat off" using e by (simp add: unat_sub less_imp_le)
  then have usz: "unat sz = min (8 * length obj - unat off) 4096"
    by (simp add: sz min_def word_le_nat_alt)
  then have sz8: "8 dvd unat sz" "unat sz \<noteq> 0" "unat off + unat sz \<le> 8 * length obj"
    using off by (auto simp: min_def)
  then show "read_in obj off sz" using off(1) by (simp add: read_in_def)
  have "sz \<noteq> 0" using sz8(2) by auto
  then show "P2PHASE sz 8 = 0 \<and> sz \<noteq> 0" using sz8(1) by (simp add: P2PHASE_8)
  show off': "unat (off + 4096) = unat off + 4096"
    using off(2) small by (simp add: unat_word_ariths)
  have "drop (unat off div 8 + unat sz div 8) obj = drop (unat (off + 4096) div 8) obj"
  proof (cases "8 * length obj - unat off \<le> 4096")
    case True
    obtain k where k: "unat off = 8 * k" using off(1) by (elim dvdE)
    show ?thesis using True usz k off(2) by (simp add: off')
  next
    case False
    have "(unat off + 4096) div 8 = unat off div 8 + 512" by presburger
    then show ?thesis using False usz by (simp add: off')
  qed
  then show "drop (unat off div 8) obj =
      take (unat sz div 8) (drop (unat off div 8) obj) @ drop (unat (off + 4096) div 8) obj"
    using append_take_drop_id [of "unat sz div 8" "drop (unat off div 8) obj"]
    unfolding drop_drop by (simp only: add.commute)
qed

text \<open>The loop replays the whole object, or stops at a read that fails after a prefix of it.\<close>

definition load_outcome ::
  "(u64 \<Rightarrow> u64 \<Rightarrow> int + u64 list) \<Rightarrow> u64 list \<Rightarrow> (space_map \<Rightarrow> u64 \<Rightarrow> space_map option) \<Rightarrow> space_map \<Rightarrow>
   u64 list \<Rightarrow> (int \<times> space_map) option \<Rightarrow> bool" where
  "load_outcome dmu_read obj f d es r \<longleftrightarrow> r = map_option (Pair 0) (foldM f d es) \<or>
     (\<exists>n error. error \<noteq> 0 \<and> \<not> object_reads dmu_read obj \<and> r = map_option (Pair error) (foldM f d (take n es)))"

lemma load_outcome_append:
  assumes "foldM f d xs = Some d'" "load_outcome dmu_read obj f d' ys r"
  shows "load_outcome dmu_read obj f d (xs @ ys) r"
proof -
  have "foldM f d (xs @ ys) = foldM f d' ys" using assms(1) by (simp add: foldM_append)
  moreover have "foldM f d (take (length xs + n) (xs @ ys)) = foldM f d' (take n ys)" for n
    using assms(1) by (simp add: foldM_append)
  ultimately show ?thesis using assms(2) unfolding load_outcome_def by metis
qed

lemma load_loop_outcome:
  assumes rd: "object_reads_or_fails dmu_read obj" and small: "8 * length obj + 4096 < 2 ^ 64"
    and e: "unat e = 8 * length obj"
    and "8 dvd unat off" "8 * length obj \<le> unat off + 4096 * fuel"  "unat off < 8 * length obj + 4096"
  shows "load_outcome dmu_read obj (space_map_load_entry zr maptype mapstart) d (drop (unat off div 8) obj)
    (space_map_load_loop (Suc fuel) zr dmu_read maptype mapstart off e d)"
  using assms(4-)
proof (induction fuel arbitrary: off d)
  case 0
  then have "\<not> off < e" using e by (simp add: word_less_nat_alt)
  then show ?case using 0 by (simp add: drop_all load_outcome_def)
next
  case (Suc fuel)
  let ?ld = "space_map_load_entry zr maptype mapstart"
  let ?loop = "\<lambda>off. space_map_load_loop (Suc fuel) zr dmu_read maptype mapstart off e"
  let ?next = "space_map_load_loop (Suc (Suc fuel)) zr dmu_read maptype mapstart off e d"
  show ?case
  proof (cases "unat off < 8 * length obj")
    case False
    then have "\<not> off < e" using e by (simp add: word_less_nat_alt)
    then show ?thesis using False by (simp add: load_outcome_def)
  next
    case True
    define sz where "sz = min (e - off) 4096"
    note c = load_chunk [OF small e Suc.prems(1) True sz_def]
    let ?now = "take (unat sz div 8) (drop (unat off div 8) obj)"
    let ?rest = "drop (unat (off + 4096) div 8) obj"
    have b: "push_bit SPACE_MAP_BLOCKSHIFT 1 = (4096 :: u64)" by (simp add: SPACE_MAP_BLOCKSHIFT_def)
    note unf = space_map_load_loop.simps(2) [of "Suc fuel"] Let_def b sz_def [symmetric]
    from rd c(3) consider (fail) error where "error \<noteq> 0" "dmu_read off sz = Inl error" | (ok) "dmu_read off sz = Inr ?now"
      unfolding object_reads_or_fails_def by blast
    then have "load_outcome dmu_read obj ?ld d (?now @ ?rest) ?next"
    proof cases
      case fail
      have "?next = Some (error, d)"
        unfolding unf fail(2) sum.case using c(1,2) by (simp del: space_map_load_loop.simps)
      moreover have "\<not> object_reads dmu_read obj"
        using c(3) fail(2) unfolding object_reads_def by (metis sum.distinct(1))
      ultimately show ?thesis
        using fail(1) unfolding load_outcome_def by (intro disjI2 exI [of _ 0] exI [of _ error]) simp
    next
      case ok
      have step: "?next = (case foldM ?ld d ?now of None \<Rightarrow> None | Some d' \<Rightarrow> ?loop (off + 4096) d')"
        unfolding unf ok sum.case using c(1,2) by (simp del: space_map_load_loop.simps)
      show ?thesis
      proof (cases "foldM ?ld d ?now")
        case None
        then show ?thesis unfolding step load_outcome_def by (simp add: foldM_append)
      next
        case (Some d')
        have "load_outcome dmu_read obj ?ld d' ?rest (?loop (off + 4096) d')"
          using Suc.prems True by (intro Suc.IH) (simp_all add: c(4))
        from load_outcome_append [OF Some this] show ?thesis unfolding step Some by simp
      qed
    qed
    then show ?thesis by (simp only: c(5) [symmetric])
  qed
qed

declare space_map_load_loop.simps [simp del]

lemma log_prefix:
  assumes "space_map_log sm es A B"
  shows "\<exists>C. space_map_log sm (take n es) A C"
  using assms
proof (induction arbitrary: n rule: space_map_log.induct)
  case (log_debug e es A B)
  then show ?case by (cases n) (force intro: space_map_log.intros)+
next
  case (log_entry e a sz A es B)
  show ?case
  proof (cases n)
    case (Suc m)
    obtain C where "space_map_log sm (take m es) (log_eff (SM_TYPE_DECODE e) A {a ..< a + sz}) C"
      using log_entry.IH [of m] by (elim exE)
    from space_map_log.log_entry [OF log_entry.hyps(1-5) this] Suc show ?thesis
      by (intro exI [of _ C]) simp
  qed (auto intro: space_map_log.intros)
qed (auto intro: space_map_log.intros)

lemma log_bounds:
  assumes "space_map_log sm es A B" "A \<subseteq> {sm_start sm ..< sm_start sm + sm_size sm}"
  shows "B \<subseteq> {sm_start sm ..< sm_start sm + sm_size sm}"
  using assms
proof (induction rule: space_map_log.induct)
  case (log_entry e a sz A es B)
  have "{a ..< a + sz} \<subseteq> {sm_start sm ..< sm_start sm + sm_size sm}"
    using log_entry.hyps(4) by (auto simp: range_in_map_def)
  then show ?case using log_entry.prems by (intro log_entry.IH) (auto simp: log_eff_def)
qed auto

text \<open>The object of a map with the entries \<open>obj\<close> describes the set \<open>A\<close> of allocated offsets.\<close>

definition smo_holds :: "space_map \<Rightarrow> space_map_obj \<Rightarrow> u64 list \<Rightarrow> u64 set \<Rightarrow> bool" where
  "smo_holds sm smo obj A \<longleftrightarrow> unat (smo_objsize smo) = 8 * length obj \<and> 8 * length obj + 4096 < 2 ^ 64 \<and>
     space_map_log sm obj {} A \<and> unat (smo_alloc smo) = card A"

text \<open>A map that can be loaded: empty, not loaded nor being loaded, and of an aligned, non-empty range.\<close>

definition space_map_unloaded :: "space_map \<Rightarrow> bool" where
  "space_map_unloaded sm \<longleftrightarrow> space_map_inv sm \<and> space_map_set sm = {} \<and> \<not> sm_loaded sm \<and>
     \<not> sm_loading sm \<and> range_in_map sm (sm_start sm) (sm_size sm)"

definition load_start :: "bool \<Rightarrow> u8 \<Rightarrow> space_map \<Rightarrow> space_map option" where
  "load_start zr maptype sm = (if maptype = SM_FREE then space_map_add zr sm (sm_start sm) (sm_size sm) else Some sm)"

lemma load_start_ok:
  assumes t: "maptype = SM_ALLOC \<or> maptype = SM_FREE" and u: "space_map_unloaded sm"
  obtains d where "load_start zr maptype (sm\<lparr>sm_loading := True\<rparr>) = Some d" "space_map_inv d"
    "space_map_same (sm\<lparr>sm_loading := True\<rparr>) d" "space_map_set d = map_view maptype (sm\<lparr>sm_loading := True\<rparr>) {}"
proof -
  let ?sm = "sm\<lparr>sm_loading := True\<rparr>"
  have inv: "space_map_inv ?sm" and set: "space_map_set ?sm = {}" and r: "range_in_map ?sm (sm_start ?sm) (sm_size ?sm)"
    using u by (simp_all add: space_map_unloaded_def space_map_inv_def space_map_set_def space_map_segs_def
        seg_in_map_def range_in_map_def space_map_aligned_def)
  show thesis
  proof (cases "maptype = SM_FREE")
    case True
    then show thesis
      using sm_add.func_law [OF inv r, where zr = zr] set that
      by (auto simp: load_start_def map_view_def SM_FREE_def SM_ALLOC_def)
  next
    case False
    then show thesis using that [of ?sm] t inv set by (simp add: load_start_def map_view_def)
  qed
qed

lemma map_view_card:
  assumes "space_map_inv sm" "A \<subseteq> {sm_start sm ..< sm_start sm + sm_size sm}"
  shows "card (map_view maptype sm A) = (if maptype = SM_ALLOC then card A else unat (sm_size sm) - card A)"
    "card A \<le> unat (sm_size sm)"
proof -
  have c: "card {sm_start sm ..< sm_start sm + sm_size sm} = unat (sm_size sm)"
    using assms(1) by (simp add: card_range space_map_inv_def)
  show "card A \<le> unat (sm_size sm)" using card_mono [OF _ assms(2)] c by simp
  show "card (map_view maptype sm A) = (if maptype = SM_ALLOC then card A else unat (sm_size sm) - card A)"
    using card_Diff_subset [OF _ assms(2)] assms(2) c by (simp add: map_view_def finite_subset)
qed

lemma load_space:
  assumes t: "maptype = SM_ALLOC \<or> maptype = SM_FREE" and inv: "space_map_inv d"
    and A: "A \<subseteq> {sm_start d ..< sm_start d + sm_size d}"
    and set: "space_map_set d = map_view maptype d A" and alloc: "unat alloc = card A"
  shows "sm_space d = (if maptype = SM_FREE then sm_size d - alloc else alloc)"
proof -
  have "unat (sm_space d) = card (map_view maptype d A)" using space_map_space_card(1) [OF inv] set by simp
  moreover have "alloc \<le> sm_size d" using map_view_card(2) [OF inv A] alloc by (simp add: word_le_nat_alt)
  ultimately show ?thesis
    using t map_view_card(1) [OF inv A, of maptype] alloc
    by (auto simp: word_unat_eq_iff unat_sub SM_ALLOC_def SM_FREE_def)
qed

lemma space_map_load_unfold:
  assumes "\<not> sm_loading sm" "\<not> sm_loaded sm" "sm_space sm = 0"
    and "load_start zr maptype (sm\<lparr>sm_loading := True\<rparr>) = Some d"
    and "space_map_load_loop (unat (smo_objsize smo) div 4096 + 2) zr (dmu_read (smo_object smo)) maptype
            (sm_start sm) 0 (smo_objsize smo) d = Some (error, e)"
  shows "error = 0 \<Longrightarrow> sm_space e = (if maptype = SM_FREE then sm_size d - smo_alloc smo else smo_alloc smo) \<Longrightarrow>
      space_map_load zr vec dmu_read sm ops maptype smo =
        Some (0, (case ops of None \<Rightarrow> e\<lparr>sm_loaded := True, sm_ops := ops\<rparr>
                  | Some p \<Rightarrow> smop_load (vec p) (e\<lparr>sm_loaded := True, sm_ops := ops\<rparr>))\<lparr>sm_loading := False\<rparr>)"
    "error \<noteq> 0 \<Longrightarrow> space_map_inv e \<Longrightarrow>
      space_map_load zr vec dmu_read sm ops maptype smo = Some (error, (space_map_emptied e)\<lparr>sm_loading := False\<rparr>)"
  using assms unfolding load_start_def space_map_load_def space_map_load_wait_def Let_def
  by (simp_all add: space_map_vacate_none del: space_map_load_loop.simps)

lemma space_map_load_replay:
  assumes t: "maptype = SM_ALLOC \<or> maptype = SM_FREE" and u: "space_map_unloaded sm"
    and o: "smo_holds sm smo obj A" and rd: "object_reads_or_fails (dmu_read (smo_object smo)) obj"
  obtains d error e where "load_start zr maptype (sm\<lparr>sm_loading := True\<rparr>) = Some d"
    "space_map_same (sm\<lparr>sm_loading := True\<rparr>) d"
    "space_map_load_loop (unat (smo_objsize smo) div 4096 + 2) zr (dmu_read (smo_object smo)) maptype
            (sm_start sm) 0 (smo_objsize smo) d = Some (error, e)"
    "space_map_inv e" "space_map_same (sm\<lparr>sm_loading := True\<rparr>) e"
    "error = 0 \<and> space_map_set e = map_view maptype sm A \<or>
     error \<noteq> 0 \<and> \<not> object_reads (dmu_read (smo_object smo)) obj"
proof -
  let ?sm = "sm\<lparr>sm_loading := True\<rparr>"
  obtain d where d: "load_start zr maptype ?sm = Some d" "space_map_inv d" "space_map_same ?sm d"
      "space_map_set d = map_view maptype ?sm {}"
    by (rule load_start_ok [OF t u])
  have log: "space_map_log ?sm obj {} A" using o by (auto simp: smo_holds_def elim: log_same)
  let ?f = "space_map_load_entry zr maptype (sm_start sm)"
  let ?loop = "space_map_load_loop (unat (smo_objsize smo) div 4096 + 2) zr (dmu_read (smo_object smo)) maptype
            (sm_start sm) 0 (smo_objsize smo) d"
  have ent: "\<exists>d'. foldM ?f d es = Some d' \<and> space_map_inv d' \<and> space_map_same ?sm d' \<and>
      space_map_set d' = map_view maptype ?sm B" if "space_map_log ?sm es {} B" for es B
    using load_entries [OF t that d(2-4), where zr = zr] by simp
  have v: "map_view maptype ?sm = map_view maptype sm" by (simp add: fun_eq_iff map_view_def)
  have "load_outcome (dmu_read (smo_object smo)) obj ?f d (drop (unat (0 :: u64) div 8) obj) ?loop"
    unfolding add_2_eq_Suc' using o
    by (intro load_loop_outcome [OF rd]) (simp_all add: smo_holds_def)
  then consider (full) "?loop = map_option (Pair 0) (foldM ?f d obj)"
    | (part) n error where "error \<noteq> 0" "\<not> object_reads (dmu_read (smo_object smo)) obj"
        "?loop = map_option (Pair error) (foldM ?f d (take n obj))"
    by (auto simp: load_outcome_def)
  then show thesis
  proof cases
    case full
    from ent [OF log] obtain e where "foldM ?f d obj = Some e" "space_map_inv e" "space_map_same ?sm e"
        "space_map_set e = map_view maptype ?sm A"
      by (elim exE conjE)
    then show thesis using full d(1,3) v by (intro that [of d 0 e]) simp_all
  next
    case part
    obtain C where "space_map_log ?sm (take n obj) {} C" using log_prefix [OF log, of n] by (elim exE)
    from ent [OF this] obtain e where "foldM ?f d (take n obj) = Some e" "space_map_inv e" "space_map_same ?sm e"
      by (elim exE conjE)
    then show thesis using part d(1,3) by (intro that [of d error e]) simp_all
  qed
qed

lemma emptied_eq:
  fixes d sm :: space_map
  assumes "sm_start d = sm_start sm" "sm_size d = sm_size sm" "sm_shift d = sm_shift sm"
    "sm_loaded d = sm_loaded sm" "sm_loading d = sm_loading sm" "sm_ops d = sm_ops sm" "sm_ppd d = sm_ppd sm"
    "sm_space d = 0" "avl_compar (sm_root d) = avl_compar (sm_root sm)"
    "avl_root (sm_root d) = Null" "avl_numnodes (sm_root d) = 0"
  shows "d = sm\<lparr>sm_root := (sm_root sm)\<lparr>avl_root := Null, avl_numnodes := 0\<rparr>, sm_space := 0\<rparr>"
  using assms by (intro space_map.equality avl_tree.equality) simp_all

lemma space_map_load_ok:
  assumes t: "maptype = SM_ALLOC \<or> maptype = SM_FREE" and u: "space_map_unloaded sm"
    and o: "smo_holds sm smo obj A" and rd: "object_reads_or_fails (dmu_read (smo_object smo)) obj"
  obtains (loaded) d where "space_map_load zr vec dmu_read sm ops maptype smo =
        Some (0, (case ops of None \<Rightarrow> d | Some p \<Rightarrow> smop_load (vec p) d)\<lparr>sm_loading := False\<rparr>)"
      "space_map_inv d" "space_map_set d = map_view maptype sm A"
      "d = sm\<lparr>sm_root := sm_root d, sm_space := sm_space d, sm_loading := True, sm_loaded := True, sm_ops := ops\<rparr>"
  | (failed) error where "\<not> object_reads (dmu_read (smo_object smo)) obj" "error \<noteq> 0"
      "space_map_load zr vec dmu_read sm ops maptype smo =
        Some (error, sm\<lparr>sm_root := (sm_root sm)\<lparr>avl_root := Null, avl_numnodes := 0\<rparr>, sm_space := 0\<rparr>)"
proof -
  have sp: "sm_space sm = 0"
    using u space_map_space_card(1) [of sm] by (auto simp: space_map_unloaded_def word_unat_eq_iff)
  have nl: "\<not> sm_loading sm" "\<not> sm_loaded sm" using u by (simp_all add: space_map_unloaded_def)
  let ?sm = "sm\<lparr>sm_loading := True\<rparr>"
  obtain d error e where d: "load_start zr maptype ?sm = Some d" "space_map_same ?sm d"
    and l: "space_map_load_loop (unat (smo_objsize smo) div 4096 + 2) zr (dmu_read (smo_object smo)) maptype
            (sm_start sm) 0 (smo_objsize smo) d = Some (error, e)"
    and e: "space_map_inv e" "space_map_same ?sm e" 
    and res: "error = 0 \<and> space_map_set e = map_view maptype sm A \<or>
     error \<noteq> 0 \<and> \<not> object_reads (dmu_read (smo_object smo)) obj"
    by (rule space_map_load_replay [where dmu_read = dmu_read, OF t u o rd])
  note unf = space_map_load_unfold [where dmu_read = dmu_read, OF nl sp d(1) l]
  note same = space_map_same_simps [OF d(2)] space_map_same_simps [OF e(2)]
  from res show thesis
  proof (elim disjE conjE)
    assume 0: "error = 0" and set: "space_map_set e = map_view maptype sm A"
    have A: "A \<subseteq> {sm_start e ..< sm_start e + sm_size e}"
      using log_bounds [of sm obj "{}" A] o by (simp add: smo_holds_def same)
    have "map_view maptype sm = map_view maptype e" by (simp add: fun_eq_iff map_view_def same)
    then have "sm_space e = (if maptype = SM_FREE then sm_size e - smo_alloc smo else smo_alloc smo)"
      using load_space [OF t e(1) A, of "smo_alloc smo"] set o by (simp add: smo_holds_def)
    then have "sm_space e = (if maptype = SM_FREE then sm_size d - smo_alloc smo else smo_alloc smo)"
      by (simp add: same)
    note ld = unf(1) [OF 0 this]
    let ?d = "e\<lparr>sm_loaded := True, sm_ops := ops\<rparr>"
    have i: "space_map_inv ?d" and s: "space_map_set ?d = map_view maptype sm A"
      unfolding set [symmetric] using e(1) by (simp_all add: space_map_inv_def space_map_set_def space_map_segs_def seg_in_map_def space_map_aligned_def)
    have eq: "?d = sm\<lparr>sm_root := sm_root ?d, sm_space := sm_space ?d, sm_loading := True, sm_loaded := True, sm_ops := ops\<rparr>"
      by (intro space_map.equality) (simp_all add: same)
    show thesis by (rule loaded [OF ld i s eq])
  next
    assume n0: "error \<noteq> 0" and nr: "\<not> object_reads (dmu_read (smo_object smo)) obj"
    have "(space_map_emptied e)\<lparr>sm_loading := False\<rparr> =
        sm\<lparr>sm_root := (sm_root sm)\<lparr>avl_root := Null, avl_numnodes := 0\<rparr>, sm_space := 0\<rparr>" 
      using emptied_eq [of sm "(space_map_emptied e)\<lparr>sm_loading := False\<rparr>"] u e nl
      by (simp add: space_map_emptied_def space_map_unloaded_def space_map_inv_def same)
    then show thesis using failed [OF nr n0] unf(2) [OF n0 e(1)] by simp
  qed
qed

subsection \<open>Writing\<close>

text \<open>The writes of a sequence are contiguous and start at the given offset.\<close>

fun writes_at :: "u64 \<Rightarrow> (u64 \<times> u64 list) list \<Rightarrow> bool" where
  "writes_at base [] \<longleftrightarrow> True"
| "writes_at base ((off, ws) # rest) \<longleftrightarrow> off = base \<and> writes_at (base + of_nat (8 * length ws)) rest"

definition writes_words :: "(u64 \<times> u64 list) list \<Rightarrow> u64 list" where
  "writes_words w = concat (map snd w)"

lemma writes_words_simps [simp]:
  "writes_words [] = []" "writes_words (w # ws) = snd w @ writes_words ws"
  "writes_words (xs @ ys) = writes_words xs @ writes_words ys"
  by (simp_all add: writes_words_def)

lemma writes_at_append:
  "writes_at base (xs @ ys) \<longleftrightarrow> writes_at base xs \<and> writes_at (base + of_nat (8 * length (writes_words xs))) ys"
  by (induction base xs rule: writes_at.induct) (auto simp: algebra_simps)

text \<open>What has been written or buffered so far, and that the object grows from \<open>base\<close> on.\<close>

definition out_stream :: "space_map_out \<Rightarrow> u64 list" where
  "out_stream out = writes_words (out_writes out) @ out_buf out"

definition out_ok :: "u64 \<Rightarrow> space_map_out \<Rightarrow> bool" where
  "out_ok base out \<longleftrightarrow> writes_at base (out_writes out) \<and>
     out_objsize out = base + of_nat (8 * length (writes_words (out_writes out)))"

lemma emit_stream: "out_stream (space_map_emit cap e out) = out_stream out @ [e]"
  by (simp add: space_map_emit_def out_stream_def Let_def)

lemma emit_ok: "out_ok base out \<Longrightarrow> length (out_buf out) \<le> cap \<Longrightarrow>
   out_ok base (space_map_emit cap e out)"
  by (auto simp: space_map_emit_def out_ok_def writes_at_append Let_def algebra_simps)

lemma runs_buf:
  assumes "0 < cap" "out_ok base out" "length (out_buf out) \<le> cap"
  shows "out_ok base (space_map_sync_runs cap t start sz out) \<and>
    length (out_buf (space_map_sync_runs cap t start sz out)) \<le> cap"
  using assms
proof (induction cap t start sz out rule: space_map_sync_runs.induct)
  case (1 cap t start sz out)
  show ?case
  proof (cases "sz = 0")
    case True
    then show ?thesis using 1 by (simp add: space_map_sync_runs.simps)
  next
    case False
    let ?e = "space_map_entry t start (min sz SM_RUN_MAX)"
    have "length (out_buf (space_map_emit cap ?e out)) \<le> cap"
      using 1(2,4) by (auto simp: space_map_emit_def Let_def)
    then show ?thesis
      using 1(1) [OF False refl] emit_ok [OF 1(3,4)] 1(2) False
      by (subst (1 2) space_map_sync_runs.simps) (simp add: Let_def)
  qed
qed

lemma unat_add64: "unat a + unat b < 2 ^ 64 \<Longrightarrow> unat (a + b :: u64) = unat a + unat b"
  by (simp add: unat_word_ariths)

lemma unat_push_bit:
  assumes "unat x * 2 ^ n < 2 ^ 64"
  shows "unat (push_bit n x :: u64) = unat x * 2 ^ n"
  using assms by (simp add: unsigned_push_bit_eq push_bit_eq_mult [of n "unat x"] take_bit_nat_eq_self)

text \<open>A unit range of a map: start and length in units of the map's shift.\<close>

definition unit_start :: "space_map \<Rightarrow> u64 \<Rightarrow> u64" where
  "unit_start sm u = push_bit (sm_shift sm) u + sm_start sm"

definition unit_range :: "space_map \<Rightarrow> u64 \<Rightarrow> u64 \<Rightarrow> bool" where
  "unit_range sm u n \<longleftrightarrow> unat u + unat n \<le> 2 ^ 47 \<and>
     unat (sm_start sm) + (unat u + unat n) * 2 ^ sm_shift sm \<le> unat (sm_start sm) + unat (sm_size sm) \<and>
     unat (sm_start sm) + unat (sm_size sm) < 2 ^ 64 \<and> space_map_aligned sm (sm_start sm)"

definition unit_set :: "space_map \<Rightarrow> u64 \<Rightarrow> u64 \<Rightarrow> u64 set" where
  "unit_set sm u n = {unit_start sm u ..< unit_start sm u + push_bit (sm_shift sm) n}"

lemma unit_range_unat:
  assumes "unit_range sm u n"
  shows "unat (unit_start sm u) = unat (sm_start sm) + unat u * 2 ^ sm_shift sm"
    "unat (push_bit (sm_shift sm) n) = unat n * 2 ^ sm_shift sm"
    "unat (unit_start sm u + push_bit (sm_shift sm) n) = unat (sm_start sm) + (unat u + unat n) * 2 ^ sm_shift sm"
    "unat (sm_start sm + sm_size sm) = unat (sm_start sm) + unat (sm_size sm)"
proof -
  let ?k = "2 ^ sm_shift sm :: nat"
  have "(unat u + unat n) * ?k \<le> unat (sm_size sm)" "unat (sm_start sm) + unat (sm_size sm) < 2 ^ 64"
    using assms by (simp_all add: unit_range_def)
  then have b: "unat (sm_start sm) + (unat u * ?k + unat n * ?k) < 2 ^ 64" unfolding add_mult_distrib by linarith
  have u: "unat (push_bit (sm_shift sm) u) = unat u * ?k" using b by (intro unat_push_bit) linarith
  show n: "unat (push_bit (sm_shift sm) n) = unat n * ?k" using b by (intro unat_push_bit) linarith
  have "unat (push_bit (sm_shift sm) u + sm_start sm) = unat u * ?k + unat (sm_start sm)"
    unfolding u [symmetric] using b u by (intro unat_add64) linarith
  then show s: "unat (unit_start sm u) = unat (sm_start sm) + unat u * ?k" by (simp add: unit_start_def)
  have "unat (unit_start sm u + push_bit (sm_shift sm) n) = unat (unit_start sm u) + unat n * ?k"
    unfolding n [symmetric] using b n s by (intro unat_add64) linarith
  then show "unat (unit_start sm u + push_bit (sm_shift sm) n) = unat (sm_start sm) + (unat u + unat n) * ?k"
    unfolding s add_mult_distrib by simp
  show "unat (sm_start sm + sm_size sm) = unat (sm_start sm) + unat (sm_size sm)"
    using assms by (intro unat_add64) (simp add: unit_range_def)
qed

lemma aligned_push_bit: "space_map_aligned sm (push_bit (sm_shift sm) u)"
  by (simp add: aligned_iff take_bit_push_bit)

lemma unit_range_in_map:
  assumes "unit_range sm u n" "n \<noteq> 0"
  shows "range_in_map sm (unit_start sm u) (push_bit (sm_shift sm) n)"
proof -
  have "0 < unat n * 2 ^ sm_shift sm" using assms(2) by (simp add: unat_gt_0)
  moreover have "space_map_aligned sm (unit_start sm u)"
    using assms(1) unfolding unit_start_def by (intro aligned_add aligned_push_bit) (simp add: unit_range_def)
  ultimately show ?thesis
    using unit_range_unat [OF assms(1)] assms(1)
    by (simp add: range_in_map_def word_le_nat_alt word_less_nat_alt aligned_push_bit unit_range_def algebra_simps)
qed

lemma unit_range_split:
  assumes "unit_range sm u n" "r \<le> n"
  shows "unit_range sm u r" "unit_range sm (u + r) (n - r)" "unat (u + r) = unat u + unat r"
    "unit_set sm u n = unit_set sm u r \<union> unit_set sm (u + r) (n - r)"
    "unit_set sm u r \<inter> unit_set sm (u + r) (n - r) = {}"
proof -
  have r: "unat r \<le> unat n" using assms(2) by (simp add: word_le_nat_alt)
  show ur: "unat (u + r) = unat u + unat r"
    using assms(1) r by (simp add: unit_range_def unat_word_ariths)
  have nr: "unat (n - r) = unat n - unat r" using assms(2) by (simp add: unat_sub)
  show a: "unit_range sm u r"
    using assms(1) r order_trans [OF mult_right_mono [of "unat u + unat r" "unat u + unat n" "2 ^ sm_shift sm"]]
    by (simp add: unit_range_def)
  show b: "unit_range sm (u + r) (n - r)"
    using assms(1) r by (simp add: unit_range_def ur nr)
  have e: "unit_start sm u + push_bit (sm_shift sm) r = unit_start sm (u + r)"
    by (simp add: unit_start_def push_bit_add)
  have e2: "unit_start sm (u + r) + push_bit (sm_shift sm) (n - r) = unit_start sm u + push_bit (sm_shift sm) n"
    unfolding e [symmetric] by (simp add: add.assoc push_bit_add [symmetric])
  have "unit_start sm u \<le> unit_start sm (u + r)"
    using unit_range_unat(1) [OF assms(1)] unit_range_unat(1) [OF b] by (simp add: word_le_nat_alt ur)
  moreover have "unit_start sm (u + r) \<le> unit_start sm u + push_bit (sm_shift sm) n"
    using unit_range_unat(3) [OF assms(1)] unit_range_unat(1) [OF b] r by (simp add: word_le_nat_alt ur)
  ultimately show "unit_set sm u n = unit_set sm u r \<union> unit_set sm (u + r) (n - r)"
      "unit_set sm u r \<inter> unit_set sm (u + r) (n - r) = {}"
    unfolding unit_set_def e e2 by (simp_all only: ivl_disj_un_two(3) ivl_disj_int_two(3))
qed

lemma runs_log:
  assumes "unit_range sm start sz" "t = SM_ALLOC \<or> t = SM_FREE" "log_pre (ucast t) A (unit_set sm start sz)"
  shows "\<exists>es. out_stream (space_map_sync_runs cap t start sz out) = out_stream out @ es \<and>
    space_map_log sm es A (log_eff (ucast t) A (unit_set sm start sz))"
  using assms
proof (induction cap t start sz out arbitrary: A rule: space_map_sync_runs.induct)
  case (1 cap t start sz out)
  show ?case
  proof (cases "sz = 0")
    case True
    then show ?thesis by (simp add: space_map_sync_runs.simps unit_set_def log_eff_simps log_nil)
  next
    case False
    define r where "r = min sz SM_RUN_MAX"
    have r: "r \<le> sz" "0 < unat r" "unat r \<le> 2 ^ 15" "r \<noteq> 0"
      using False by (auto simp: r_def min_def SM_RUN_MAX_eq unat_gt_0 word_le_nat_alt)
    note sp = unit_range_split [OF 1(2) r(1)]
    have "0 < unat sz" using False by (simp add: unat_gt_0)
    then have s: "unat start < 2 ^ 47" using 1(2) by (simp add: unit_range_def)
    note dec = entry_decode [OF s r(2,3) 1(3)]
    let ?e = "space_map_entry t start r"
    have pre: "log_pre (ucast t) A (unit_set sm start r)"
        "log_pre (ucast t) (log_eff (ucast t) A (unit_set sm start r)) (unit_set sm (start + r) (sz - r))"
      using log_pre_Un [of "ucast t" A] 1(4) sp(4,5) by auto
    obtain es where es: "out_stream (space_map_sync_runs cap t (start + r) (sz - r) (space_map_emit cap ?e out)) =
          out_stream (space_map_emit cap ?e out) @ es"
        "space_map_log sm es (log_eff (ucast t) A (unit_set sm start r))
          (log_eff (ucast t) (log_eff (ucast t) A (unit_set sm start r)) (unit_set sm (start + r) (sz - r)))"
      using 1(1) [OF False r_def sp(2) 1(3) pre(2)] by (elim exE conjE)
    have "space_map_log sm (?e # es) A (log_eff (ucast t) A (unit_set sm start sz))"
    proof (rule log_entry [OF dec(1) refl refl])
      show "range_in_map sm (push_bit (sm_shift sm) (SM_OFFSET_DECODE ?e) + sm_start sm) (push_bit (sm_shift sm) (SM_RUN_DECODE ?e))"
        using unit_range_in_map [OF sp(1) r(4)] by (simp add: dec unit_start_def)
    qed (use pre(1) es(2) sp(4) in \<open>simp_all add: dec unit_set_def unit_start_def log_eff_simps\<close>)
    moreover have "space_map_sync_runs cap t start sz out =
        space_map_sync_runs cap t (start + r) (sz - r) (space_map_emit cap ?e out)"
      using False by (subst space_map_sync_runs.simps) (simp add: r_def Let_def)
    ultimately show ?thesis using es(1) by (intro exI [of _ "?e # es"]) (simp add: emit_stream)
  qed
qed

text \<open>A map whose units fit the 47 bits of an entry's offset, and whose nodes fit in memory.\<close>

definition space_map_encodable :: "space_map \<Rightarrow> bool" where
  "space_map_encodable sm \<longleftrightarrow> space_map_aligned sm (sm_start sm) \<and>
     unat (sm_size sm) \<le> 2 ^ (47 + sm_shift sm) \<and> avl_numnodes (sm_root sm) < 2 ^ 60"

lemma no_overflow: "a \<le> a + b \<Longrightarrow> unat (a :: u64) + unat b < 2 ^ 64"
  using unat_lt64 [of a] unat_lt64 [of b] by (simp add: word_le_nat_alt unat_word_ariths mod_if split: if_splits)

lemma push_drop_aligned: "space_map_aligned sm x \<Longrightarrow> push_bit (sm_shift sm) (drop_bit (sm_shift sm) x) = x"
  using bits_ident [of "sm_shift sm" x] by (simp add: aligned_iff)

lemma unat_drop_aligned:
  assumes "space_map_aligned sm x"
  shows "unat (drop_bit (sm_shift sm) x) * 2 ^ sm_shift sm = unat x"
proof -
  have "take_bit (sm_shift sm) (unat x) = 0" using assms by (simp add: aligned_iff word_unat_eq_iff unsigned_take_bit_eq)
  then show ?thesis
    using bits_ident [of "sm_shift sm" "unat x"] by (simp add: unsigned_drop_bit_eq push_bit_eq_mult take_bit_nat_eq_self unat_lt64 [simplified])
qed

lemma seg_units:
  assumes "seg_in_map sm s" "ss_start s < ss_end s" "space_map_encodable sm" "sm_start sm \<le> sm_start sm + sm_size sm"
  defines "u \<equiv> drop_bit (sm_shift sm) (ss_start s - sm_start sm)"
    and "n \<equiv> drop_bit (sm_shift sm) (ss_end s - ss_start s)"
  shows "unit_range sm u n" "unit_set sm u n = {ss_start s ..< ss_end s}"
proof -
  let ?k = "2 ^ sm_shift sm :: nat"
  have al: "space_map_aligned sm (ss_start s - sm_start sm)" "space_map_aligned sm (ss_end s - ss_start s)"
    using assms(1-3) by (auto simp: seg_in_map_def space_map_encodable_def intro: aligned_diff)
  have le: "sm_start sm \<le> ss_start s" "ss_start s \<le> ss_end s" "ss_end s \<le> sm_start sm + sm_size sm"
    using assms(1,2) by (simp_all add: seg_in_map_def)
  have ov: "unat (sm_start sm) + unat (sm_size sm) < 2 ^ 64" by (rule no_overflow [OF assms(4)])
  have u: "unat u * ?k = unat (ss_start s) - unat (sm_start sm)"
    unfolding u_def unat_drop_aligned [OF al(1)] using le(1) by (rule unat_sub)
  have n: "unat n * ?k = unat (ss_end s) - unat (ss_start s)"
    unfolding n_def unat_drop_aligned [OF al(2)] using le(2) by (rule unat_sub)
  have "(unat u + unat n) * ?k \<le> unat (sm_size sm)"
    using le unat_add64 [OF ov] unfolding add_mult_distrib u n by (simp add: word_le_nat_alt)
  moreover from this have "(unat u + unat n) * ?k \<le> 2 ^ 47 * ?k"
    using assms(3) unfolding space_map_encodable_def power_add by linarith
  then have "unat u + unat n \<le> 2 ^ 47" by simp
  ultimately show "unit_range sm u n" using ov assms(3) by (simp add: unit_range_def space_map_encodable_def)
  show "unit_set sm u n = {ss_start s ..< ss_end s}"
    using push_drop_aligned [OF al(1)] push_drop_aligned [OF al(2)]
    by (simp add: unit_set_def unit_start_def u_def n_def)
qed

lemma sync_segs:
  assumes "\<forall>s \<in> set zs. seg_in_map sm s \<and> ss_start s < ss_end s" "segs_apart zs"
    and geo: "space_map_encodable sm" "sm_start sm \<le> sm_start sm + sm_size sm" "0 < cap"
    and t: "maptype = SM_ALLOC \<or> maptype = SM_FREE"
    and "log_pre (ucast maptype) A (segs_set zs)" "out_ok base out" "length (out_buf out) \<le> cap"
  shows "\<exists>es out'. fold (space_map_sync_seg cap maptype sm) zs (space, out) = (space - segs_space zs, out') \<and>
    out_stream out' = out_stream out @ es \<and> space_map_log sm es A (log_eff (ucast maptype) A (segs_set zs)) \<and>
    out_ok base out'"
  using assms(1,2,7-)
proof (induction zs arbitrary: space out A)
  case Nil
  then show ?case by (simp add: segs_space_def log_eff_simps log_nil)
next
  case (Cons s zs)
  define u where "u = drop_bit (sm_shift sm) (ss_start s - sm_start sm)"
  define n where "n = drop_bit (sm_shift sm) (ss_end s - ss_start s)"
  have s: "seg_in_map sm s" "ss_start s < ss_end s" using Cons.prems(1) by simp_all
  note un = seg_units [OF s geo(1,2), folded u_def n_def]
  have "log_pre (ucast maptype) A (unit_set sm u n \<union> segs_set zs)" using Cons.prems(3) un(2) by simp
  from log_pre_Un [OF this] Cons.prems(2) un(2)
  have p: "log_pre (ucast maptype) A (unit_set sm u n)"
      "log_pre (ucast maptype) (log_eff (ucast maptype) A (unit_set sm u n)) (segs_set zs)"
    by (simp_all add: segs_apart_Cons)
  let ?o = "space_map_sync_runs cap maptype u n out"
  obtain es where es: "out_stream ?o = out_stream out @ es"
      "space_map_log sm es A (log_eff (ucast maptype) A (unit_set sm u n))"
    using runs_log [OF un(1) t p(1), of cap out] by (elim exE conjE)
  have ok: "out_ok base ?o" "length (out_buf ?o) \<le> cap"
    using runs_buf [OF geo(3) Cons.prems(4,5)] by simp_all
  have rest: "\<forall>s \<in> set zs. seg_in_map sm s \<and> ss_start s < ss_end s" "segs_apart zs"
    using Cons.prems(1,2) by (simp_all add: segs_apart_Cons)
  obtain fs out' where fs: "fold (space_map_sync_seg cap maptype sm) zs (space - (ss_end s - ss_start s), ?o) =
        (space - (ss_end s - ss_start s) - segs_space zs, out')" "out_stream out' = out_stream ?o @ fs"
      "space_map_log sm fs (log_eff (ucast maptype) A (unit_set sm u n))
        (log_eff (ucast maptype) (log_eff (ucast maptype) A (unit_set sm u n)) (segs_set zs))" "out_ok base out'"
    using Cons.IH [OF rest p(2) ok, of "space - (ss_end s - ss_start s)"] by (elim exE conjE)
  have "space_map_log sm (es @ fs) A (log_eff (ucast maptype) A (segs_set (s # zs)))"
    using log_append [OF es(2) fs(3)] un(2) by (simp add: log_eff_simps)
  moreover have "fold (space_map_sync_seg cap maptype sm) (s # zs) (space, out) = (space - segs_space (s # zs), out')"
    using fs(1) by (simp add: space_map_sync_seg_def Let_def u_def n_def segs_space_def algebra_simps)
  ultimately show ?case
    using es(1) fs(2,4) by (intro exI [of _ "es @ fs"] exI [of _ out']) simp
qed

lemma flush_ok:
  assumes "out_ok base out"
  shows "writes_at base (out_writes (space_map_flush out))" "writes_words (out_writes (space_map_flush out)) = out_stream out"
    "out_objsize (space_map_flush out) = base + of_nat (8 * length (out_stream out))"
  using assms by (auto simp: space_map_flush_def out_ok_def out_stream_def writes_at_append algebra_simps)

lemma sync_cap:
  assumes "n < 2 ^ 60"
  shows "0 < unat (min ((8 + of_nat n) * 8) (push_bit SPACE_MAP_BLOCKSHIFT 1 :: u64) div 8)"
proof -
  have "unat ((8 + of_nat n) * 8 :: u64) = (8 + n) * 8"
    using assms by (simp add: unat_word_ariths unat_of_nat)
  then have "8 \<le> unat (min ((8 + of_nat n) * 8) (push_bit SPACE_MAP_BLOCKSHIFT 1 :: u64))"
    by (auto simp: min_def SPACE_MAP_BLOCKSHIFT_def)
  then show ?thesis by (simp add: unat_div)
qed

lemma segs_space_perm: "mset zs = mset xs \<Longrightarrow> segs_space zs = segs_space xs"
  unfolding segs_space_def sum_mset_sum_list [symmetric] mset_map by simp

lemma space_map_no_space:
  assumes inv: "space_map_inv sm" and "sm_space sm = 0"
  shows "space_map_set sm = {}" "space_map_emptied sm = sm"
proof -
  have "card (space_map_set sm) = 0" using space_map_space_card(1) [OF inv] assms(2) by simp
  then show set: "space_map_set sm = {}" by simp
  have "space_map_segs sm = []"
    using space_map_segs_unique [OF inv, of "[]"] set by simp
  then have "avl_root (sm_root sm) = Null \<and> avl_numnodes (sm_root sm) = 0"
    using space_map_invD(1) [OF inv] by (cases "avl_root (sm_root sm)") (auto simp: space_map_segs_def avl_list_def avl_wf_def)
  then show "space_map_emptied sm = sm"
    using assms(2) by (intro space_map.equality avl_tree.equality) (simp_all add: space_map_emptied_def)
qed

lemma space_map_sync_ok:
  assumes inv: "space_map_inv sm" and enc: "space_map_encodable sm"
    and t: "maptype = SM_ALLOC \<or> maptype = SM_FREE" and pre: "log_pre (ucast maptype) A (space_map_set sm)"
  obtains smo' ws where "space_map_sync sm maptype smo sync_pass txg = Some (space_map_emptied sm, smo', ws)"
    "writes_at (smo_objsize smo) ws" "space_map_log sm (writes_words ws) A (log_eff (ucast maptype) A (space_map_set sm))"
    "smo' = smo\<lparr>smo_objsize := smo_objsize smo + of_nat (8 * length (writes_words ws)),
       smo_alloc := (if maptype = SM_ALLOC then smo_alloc smo + sm_space sm else smo_alloc smo - sm_space sm)\<rparr>"
proof (cases "sm_space sm = 0")
  case True
  note e = space_map_no_space [OF inv True]
  have "space_map_sync sm maptype smo sync_pass txg = Some (space_map_emptied sm, smo, [])"
    using True e(2) by (simp add: space_map_sync_def)
  then show thesis using that [of smo "[]"] e(1) True by (simp add: log_eff_simps log_nil)
next
  case False
  let ?zs = "avl_postorder (avl_root (sm_root sm))"
  have ok: "segs_ok (space_map_segs sm)" using inv by (simp add: space_map_inv_def)
  have m: "mset ?zs = mset (space_map_segs sm)"
    by (simp add: mset_postorder space_map_segs_def avl_list_def)
  note z = segs_apart_perm [OF ok m]
  have sp: "segs_space ?zs = sm_space sm" using inv segs_space_perm [OF m] by (simp add: space_map_inv_def)
  have zs: "\<forall>s \<in> set ?zs. seg_in_map sm s \<and> ss_start s < ss_end s"
    using inv ok z(2) by (simp add: space_map_inv_def segs_ok_def)
  define cap where "cap = unat (min ((8 + of_nat (avl_numnodes (sm_root sm))) * 8) (push_bit SPACE_MAP_BLOCKSHIFT 1 :: u64) div 8)"
  have cap: "0 < cap" unfolding cap_def using enc by (intro sync_cap) (simp add: space_map_encodable_def)
  define out where "out = \<lparr>out_buf = [sm_debug_entry maptype sync_pass txg], out_objsize = smo_objsize smo, out_writes = []\<rparr>"
  have le: "sm_start sm \<le> sm_start sm + sm_size sm" using inv by (simp add: space_map_inv_def)
  have pr: "log_pre (ucast maptype) A (segs_set ?zs)" "out_ok (smo_objsize smo) out" "length (out_buf out) \<le> cap"
    using pre z(3) cap by (simp_all add: space_map_set_def out_ok_def out_def)
  from sync_segs [OF zs z(1) enc le cap t pr, of "sm_space sm"]
  obtain es out' where es: "fold (space_map_sync_seg cap maptype sm) ?zs (sm_space sm, out) = (sm_space sm - segs_space ?zs, out')"
      "out_stream out' = out_stream out @ es" "space_map_log sm es A (log_eff (ucast maptype) A (segs_set ?zs))"
      "out_ok (smo_objsize smo) out'"
    by (elim exE conjE)
  note fl = flush_ok [OF es(4)]
  let ?smo = "smo\<lparr>smo_objsize := out_objsize (space_map_flush out'),
       smo_alloc := (if maptype = SM_ALLOC then smo_alloc smo + sm_space sm else smo_alloc smo - sm_space sm)\<rparr>"
  have "space_map_sync sm maptype smo sync_pass txg = Some (space_map_emptied sm, ?smo, out_writes (space_map_flush out'))"
    unfolding space_map_sync_def Let_def cap_def [symmetric] sm_debug_entry_def [symmetric]
      space_map_drain [OF inv] option.case prod.case
    using False es(1) [unfolded out_def sp] by (simp add: space_map_emptied_def)
  moreover have "space_map_log sm (out_stream out') A (log_eff (ucast maptype) A (space_map_set sm))"
    using es(3) unfolding es(2) z(3) space_map_set_def
    by (simp add: out_def out_stream_def log_debug debug_entry_decode)
  ultimately show thesis using fl that by simp
qed

end
