(* ===== verification/Space_Map_Properties.thy ===== *)
theory Space_Map_Properties
  imports Space_Map_Log
begin

text \<open>
  The correctness of the space map operations, stated over the set of offsets a map holds, and the
  round trip of a map through its on-disk log.
\<close>

subsection \<open>Adding and removing\<close>

lemma add_Some_cases:
  assumes inv: "space_map_inv sm" and ne: "start < start + sz" and r: "space_map_add zr sm start sz = Some sm'"
  shows "range_in_map sm start sz \<and> (space_map_set sm \<inter> {start ..< start + sz} = {} \<or>
    zr \<and> sm' = sm \<and> {start ..< start + sz} \<subseteq> space_map_set sm)"
proof -
  have rm: "range_in_map sm start sz"
    using r ne by (auto simp: space_map_add_def range_in_map_def Let_def split: if_splits)
  from inv ne show ?thesis
  proof (cases rule: space_map_find)
    case (hit s xs ys)
    have "ss_start s \<le> start \<and> start + sz \<le> ss_end s \<and> zr \<and> sm' = sm"
      using r hit(1) by (auto simp: space_map_add_def Let_def zfs_panic_recover_def split: if_splits)
    moreover from this have "{start ..< start + sz} \<subseteq> space_map_set sm"
      using hit(2) by (force simp: space_map_set_def)
    ultimately show ?thesis using rm by simp
  next
    case (miss w)
    have "space_map_set sm \<inter> {start ..< start + sz} = {}"
      using miss(3) fits_outside [OF miss(4)] by (force simp: space_map_set_def segs_set_def)
    then show ?thesis using rm by simp
  qed
qed

lemma remove_Some_cases:
  assumes inv: "space_map_inv sm" and ne: "start < start + sz" and r: "space_map_remove zr sm start sz = Some sm'"
  shows "space_map_aligned sm start \<and> space_map_aligned sm sz \<and> ({start ..< start + sz} \<subseteq> space_map_set sm \<or>
    zr \<and> sm' = sm \<and> space_map_set sm \<inter> {start ..< start + sz} = {})"
proof -
  have al: "space_map_aligned sm start \<and> space_map_aligned sm sz"
    using r by (auto simp: space_map_remove_def Let_def split: if_splits)
  from inv ne show ?thesis
  proof (cases rule: space_map_find)
    case (hit s xs ys)
    have "ss_start s \<le> start \<and> start + sz \<le> ss_end s"
      using r hit(1) by (auto simp: space_map_remove_def Let_def split: if_splits)
    then have "{start ..< start + sz} \<subseteq> space_map_set sm"
      using hit(2) by (force simp: space_map_set_def)
    then show ?thesis using al by simp
  next
    case (miss w)
    have "space_map_set sm \<inter> {start ..< start + sz} = {}"
      using miss(3) fits_outside [OF miss(4)] by (force simp: space_map_set_def segs_set_def)
    moreover have "zr \<and> sm' = sm"
      using r miss(1) by (auto simp: space_map_remove_def Let_def zfs_panic_recover_def split: if_splits)
    ultimately show ?thesis using al by simp
  qed
qed

subsection \<open>A sample map\<close>

definition sm_sample :: space_map where
  "sm_sample = the (space_map_add False (space_map_create 0 0x100000 9) 0x1000 0x2000)"

lemma sm_sample_eq: "space_map_add False (space_map_create 0 0x100000 9) 0x1000 0x2000 = Some sm_sample"
proof -
  have "\<not> Option.is_none (space_map_add False (space_map_create 0 0x100000 9) 0x1000 0x2000)" by code_simp
  then show ?thesis by (auto simp: sm_sample_def Option.is_none_def)
qed

lemma range_in_create:
  "range_in_map (space_map_create start sz shift) a n \<longleftrightarrow> start \<le> a \<and> a < a + n \<and> a + n \<le> start + sz \<and>
     take_bit shift a = 0 \<and> take_bit shift n = 0"
  by (simp add: range_in_map_def aligned_iff space_map_create_def)

lemma sm_sample_ok: "space_map_inv sm_sample" "space_map_set sm_sample = {0x1000 ..< 0x3000}"
  "space_map_same (space_map_create 0 0x100000 9) sm_sample"
proof -
  have "space_map_inv (space_map_create 0 0x100000 9)" "space_map_set (space_map_create 0 0x100000 9) = {}"
    by (simp_all add: space_map_create_inv)
  moreover have "range_in_map (space_map_create 0 0x100000 9) 0x1000 0x2000"
    unfolding range_in_create by code_simp
  ultimately show "space_map_inv sm_sample" "space_map_set sm_sample = {0x1000 ..< 0x3000}"
    "space_map_same (space_map_create 0 0x100000 9) sm_sample"
    using sm_add.func_law [of "space_map_create 0 0x100000 9" "0x1000" "0x2000" False] sm_sample_eq by auto
qed

lemmas sm_sample_simps = space_map_same_simps [OF sm_sample_ok(3)]

lemma sm_sample_range:
  "range_in_map sm_sample a n \<longleftrightarrow> a < a + n \<and> a + n \<le> 0x100000 \<and> take_bit 9 a = 0 \<and> take_bit 9 n = 0"
  unfolding sm_sample_simps range_in_create by simp

subsection \<open>Properties\<close>

text \<open>C9: \<^verbatim>\<open>space_map_add()\<close> of an aligned range of the map that overlaps nothing never panics: the
  range becomes part of the map, merged with the segments it touches, the space is counted and the
  tree stays a sorted set of disjoint, aligned segments that do not touch.\<close>

theorem space_map_add_correct:
  assumes "space_map_inv sm" "range_in_map sm start sz" "space_map_set sm \<inter> {start ..< start + sz} = {}"
  shows "\<exists>sm'. space_map_add zfs_recover sm start sz = Some sm' \<and> space_map_inv sm' \<and>
    space_map_set sm' = space_map_set sm \<union> {start ..< start + sz} \<and>
    sm_space sm' = sm_space sm + sz \<and> space_map_same sm sm'"
  by (rule space_map_add_ok [OF assms, of zfs_recover]) auto

theorem space_map_add_correct_witness:
  "\<exists>sm'. space_map_add False sm_sample 0x3000 0x200 = Some sm' \<and> space_map_inv sm' \<and>
    space_map_set sm' = {0x1000 ..< 0x3200}"
proof -
  have "range_in_map sm_sample 0x3000 0x200" unfolding sm_sample_range by code_simp
  moreover have "space_map_set sm_sample \<inter> {0x3000 ..< 0x3000 + 0x200} = {}"
    unfolding sm_sample_ok by auto
  moreover have "{0x1000 ..< 0x3000} \<union> {0x3000 ..< 0x3000 + 0x200} = {0x1000 ..< 0x3200 :: u64}"
    using ivl_disj_un_two(3) [of "0x1000" "0x3000" "0x3200 :: u64"] by simp
  ultimately show ?thesis
    using space_map_add_correct [OF sm_sample_ok(1), of "0x3000" "0x200" False] unfolding sm_sample_ok by auto
qed

text \<open>C10: \<^verbatim>\<open>space_map_remove()\<close> of an aligned range that the map covers never panics and removes exactly
  that range, whether it is a whole segment, an end of one or its middle.\<close>

theorem space_map_remove_correct:
  assumes "space_map_inv sm" "space_map_aligned sm start" "space_map_aligned sm sz" "start < start + sz"
    and "{start ..< start + sz} \<subseteq> space_map_set sm"
  shows "\<exists>sm'. space_map_remove zfs_recover sm start sz = Some sm' \<and> space_map_inv sm' \<and>
    space_map_set sm' = space_map_set sm - {start ..< start + sz} \<and>
    sm_space sm' = sm_space sm - sz \<and> space_map_same sm sm'"
  by (rule space_map_remove_ok [OF assms, of zfs_recover]) auto

theorem space_map_remove_correct_witness:
  "\<exists>sm'. space_map_remove False sm_sample 0x1800 0x400 = Some sm' \<and> space_map_inv sm' \<and>
    space_map_set sm' = {0x1000 ..< 0x3000} - {0x1800 ..< 0x1C00}"
proof -
  have "space_map_aligned sm_sample 0x1800" "space_map_aligned sm_sample 0x400" "(0x1800 :: u64) < 0x1800 + 0x400"
    using sm_sample_range [of "0x1800" "0x400"] by (simp_all add: range_in_map_def take_bit_eq_mask mask_eq_exp_minus_1)
  moreover have "{0x1800 ..< 0x1800 + 0x400} \<subseteq> space_map_set sm_sample" unfolding sm_sample_ok by auto
  ultimately show ?thesis
    using space_map_remove_correct [OF sm_sample_ok(1), of "0x1800" "0x400" False] unfolding sm_sample_ok by auto
qed

text \<open>C8: a range that does not wrap around can never corrupt a map. When \<^verbatim>\<open>space_map_add()\<close> returns,
  the range was free of overlap and has been added, or it was already covered, \<^verbatim>\<open>zfs_recover\<close> is
  set and the map is unchanged; when \<^verbatim>\<open>space_map_remove()\<close> returns, the range was covered and
  has been removed, or none of it was in the map, \<^verbatim>\<open>zfs_recover\<close> is set and the map is unchanged.
  Every other double allocation or double free panics.\<close>

theorem space_map_no_corruption:
  assumes "space_map_inv sm" "start < start + sz"
  shows "(case space_map_add zfs_recover sm start sz of
        None \<Rightarrow> True
      | Some sm' \<Rightarrow> space_map_inv sm' \<and>
          (space_map_set sm \<inter> {start ..< start + sz} = {} \<and>
             space_map_set sm' = space_map_set sm \<union> {start ..< start + sz} \<or>
           zfs_recover \<and> sm' = sm \<and> {start ..< start + sz} \<subseteq> space_map_set sm)) \<and>
    (case space_map_remove zfs_recover sm start sz of
        None \<Rightarrow> True
      | Some sm' \<Rightarrow> space_map_inv sm' \<and>
          ({start ..< start + sz} \<subseteq> space_map_set sm \<and>
             space_map_set sm' = space_map_set sm - {start ..< start + sz} \<or>
           zfs_recover \<and> sm' = sm \<and> space_map_set sm \<inter> {start ..< start + sz} = {}))"
proof (rule conjI, goal_cases)
  case 1
  show ?case
  proof (cases "space_map_add zfs_recover sm start sz")
    case (Some sm')
    note c = add_Some_cases [OF assms Some]
    show ?thesis
    proof (cases "space_map_set sm \<inter> {start ..< start + sz} = {}")
      case True
      then show ?thesis using sm_add.func_law [OF assms(1), of start sz zfs_recover] c Some by auto
    next
      case False
      then show ?thesis using c Some assms(1) by simp
    qed
  qed simp
next
  case 2
  show ?case
  proof (cases "space_map_remove zfs_recover sm start sz")
    case (Some sm')
    note c = remove_Some_cases [OF assms Some]
    show ?thesis
    proof (cases "{start ..< start + sz} \<subseteq> space_map_set sm")
      case True
      then show ?thesis
        using space_map_remove_ok [OF assms(1) _ _ assms(2) True, of zfs_recover] c Some by auto
    next
      case False
      then show ?thesis using c Some assms(1) by simp
    qed
  qed simp
qed

theorem space_map_no_corruption_witness:
  "space_map_inv sm_sample \<and> (0x2000 :: u64) < 0x2000 + 0x2000 \<and>
   Option.is_none (space_map_add True sm_sample 0x2000 0x2000)"
proof -
  have lt: "(0x2000 :: u64) < 0x2000 + 0x2000" by simp
  let ?r = "{0x2000 ..< 0x2000 + 0x2000 :: u64}"
  have "0x2000 \<in> space_map_set sm_sample \<inter> ?r" "0x3800 \<in> ?r" "0x3800 \<notin> space_map_set sm_sample"
    unfolding sm_sample_ok by simp_all
  then have "space_map_set sm_sample \<inter> ?r \<noteq> {}" "\<not> ?r \<subseteq> space_map_set sm_sample" by blast+
  then have "space_map_add True sm_sample 0x2000 0x2000 = None"
    using space_map_no_corruption [OF sm_sample_ok(1) lt, of True]
    by (cases "space_map_add True sm_sample 0x2000 0x2000") simp_all
  then show ?thesis using sm_sample_ok(1) lt by simp
qed

text \<open>C14: \<^verbatim>\<open>space_map_contains()\<close> tells exactly whether every offset of an aligned range is in the map.\<close>

theorem space_map_contains_correct:
  assumes "space_map_inv sm" "space_map_aligned sm start" "space_map_aligned sm sz" "start < start + sz"
  shows "space_map_contains sm start sz = Some ({start ..< start + sz} \<subseteq> space_map_set sm)"
  by (rule space_map_contains_ok [OF assms])

theorem space_map_contains_correct_witness:
  "space_map_contains sm_sample 0x1800 0x400 = Some True"
proof -
  have "space_map_aligned sm_sample 0x1800" "space_map_aligned sm_sample 0x400" "(0x1800 :: u64) < 0x1800 + 0x400"
    using sm_sample_range [of "0x1800" "0x400"] by (simp_all add: range_in_map_def take_bit_eq_mask mask_eq_exp_minus_1)
  from space_map_contains_correct [OF sm_sample_ok(1) this] show ?thesis unfolding sm_sample_ok by auto
qed

text \<open>C12: \<^verbatim>\<open>space_map_union()\<close> terminates without a panic and makes the destination the union of the two
  maps, whatever their overlap; the loop of \<^verbatim>\<open>space_map_excise()\<close> needs at most two iterations
  more than the destination has segments.\<close>

theorem space_map_union_correct:
  assumes "space_map_inv smd" "space_map_inv sms" "\<forall>s \<in> set (space_map_segs sms). seg_in_map smd s"
  shows "\<exists>smd'. space_map_union zfs_recover smd sms = Some smd' \<and> space_map_inv smd' \<and>
    space_map_same smd smd' \<and> space_map_set smd' = space_map_set smd \<union> space_map_set sms"
  using sm_join.walk_law [OF assms TrueI, of zfs_recover]
  by (auto simp: space_map_union_walk sm_join.func_spec_def)

theorem space_map_union_correct_witness:
  "\<exists>smd. space_map_union False (space_map_create 0 0x100000 9) sm_sample = Some smd \<and>
    space_map_set smd = {0x1000 ..< 0x3000}"
proof -
  have "\<forall>s \<in> set (space_map_segs sm_sample). seg_in_map (space_map_create 0 0x100000 9) s"
    using sm_sample_ok(1) by (simp add: space_map_inv_def sm_sample_simps)
  then show ?thesis
    using space_map_union_correct [of "space_map_create 0 0x100000 9" sm_sample False] sm_sample_ok
    by (auto simp: space_map_create_inv)
qed

text \<open>C13: \<^verbatim>\<open>space_map_vacate()\<close> with \<^verbatim>\<open>space_map_add\<close> moves every segment into the destination, and
  \<^verbatim>\<open>space_map_walk()\<close> with \<^verbatim>\<open>space_map_remove\<close> takes every segment out of it; the first leaves the
  source empty.\<close>

theorem space_map_vacate_walk_correct:
  assumes "space_map_inv sm" "space_map_inv d" "\<forall>s \<in> set (space_map_segs sm). seg_in_map d s"
  shows "(space_map_set d \<inter> space_map_set sm = {} \<longrightarrow>
      (\<exists>sm' d'. space_map_vacate sm (Some (space_map_add zfs_recover)) d = Some (sm', d') \<and>
         space_map_inv sm' \<and> space_map_set sm' = {} \<and> sm_space sm' = 0 \<and> space_map_inv d' \<and>
         space_map_set d' = space_map_set d \<union> space_map_set sm)) \<and>
    (space_map_set sm \<subseteq> space_map_set d \<longrightarrow>
      (\<exists>d'. space_map_walk sm (space_map_remove zfs_recover) d = Some d' \<and> space_map_inv d' \<and>
         space_map_set d' = space_map_set d - space_map_set sm))"
  using sm_add.vacate_law [OF assms(2,1,3), of zfs_recover] sm_remove.walk_law [OF assms(2,1,3), of zfs_recover]
    space_map_emptied_ok [OF assms(1)]
  by (auto simp: sm_add.func_spec_def sm_remove.func_spec_def)

theorem space_map_vacate_walk_correct_witness:
  "\<exists>d. space_map_walk sm_sample (space_map_remove False) sm_sample = Some d \<and> space_map_set d = {}"
proof -
  have "\<forall>s \<in> set (space_map_segs sm_sample). seg_in_map sm_sample s"
    using sm_sample_ok(1) by (simp add: space_map_inv_def)
  then show ?thesis
    using space_map_vacate_walk_correct [of sm_sample sm_sample False] sm_sample_ok(1) by auto
qed

lemma space_map_flags [simp]:
  "space_map_inv (sm\<lparr>sm_loading := b\<rparr>) = space_map_inv sm" "space_map_set (sm\<lparr>sm_loading := b\<rparr>) = space_map_set sm"
  "space_map_inv (sm\<lparr>sm_loaded := b\<rparr>) = space_map_inv sm" "space_map_set (sm\<lparr>sm_loaded := b\<rparr>) = space_map_set sm"
  "space_map_inv (sm\<lparr>sm_ops := p\<rparr>) = space_map_inv sm" "space_map_set (sm\<lparr>sm_ops := p\<rparr>) = space_map_set sm"
  "space_map_inv (sm\<lparr>sm_ppd := q\<rparr>) = space_map_inv sm" "space_map_set (sm\<lparr>sm_ppd := q\<rparr>) = space_map_set sm"
  by (simp_all add: space_map_inv_def space_map_set_def space_map_segs_def seg_in_map_def space_map_aligned_def)

lemma space_map_load_none:
  assumes "maptype = SM_ALLOC \<or> maptype = SM_FREE" "space_map_unloaded sm" "smo_holds sm smo obj A"
    and "object_reads_or_fails (dmu_read (smo_object smo)) obj"
  shows "\<exists>error sm'. space_map_load zr vec dmu_read sm None maptype smo = Some (error, sm') \<and>
    space_map_inv sm' \<and> \<not> sm_loading sm' \<and>
    (if error = 0 then sm_loaded sm' \<and> space_map_set sm' = map_view maptype sm A
     else \<not> sm_loaded sm' \<and> space_map_set sm' = {} \<and> \<not> object_reads (dmu_read (smo_object smo)) obj)"
proof (rule space_map_load_ok [where dmu_read = dmu_read and zr = zr and vec = vec and ops = None, OF assms], goal_cases)
  case (1 d)
  have "sm_loaded d" using arg_cong [OF 1(4), of sm_loaded] by simp
  then show ?case using 1(1-3) by (intro exI [of _ 0] exI [of _ "d\<lparr>sm_loading := False\<rparr>"]) simp
next
  case (2 error)
  have "space_map_inv sm" "\<not> sm_loaded sm" "\<not> sm_loading sm" using assms(2) by (simp_all add: space_map_unloaded_def)
  then show ?case
    using 2 space_map_emptied_ok [of sm, unfolded space_map_emptied_def]
    by (intro exI [of _ error] exI [of _ "sm\<lparr>sm_root := (sm_root sm)\<lparr>avl_root := Null, avl_numnodes := 0\<rparr>, sm_space := 0\<rparr>"]) simp
qed

lemma smo_alloc_sync:
  assumes inv: "space_map_inv m" and A: "A \<subseteq> {sm_start m ..< sm_start m + sm_size m}"
    and t: "maptype = SM_ALLOC \<or> maptype = SM_FREE" and pre: "log_pre (ucast maptype) A (space_map_set m)"
    and alloc: "unat alloc = card A"
  shows "unat (if maptype = SM_ALLOC then alloc + sm_space m else alloc - sm_space m) =
    card (log_eff (ucast maptype) A (space_map_set m))"
proof (cases "maptype = SM_ALLOC")
  case True
  have "log_eff (ucast maptype) A (space_map_set m) \<subseteq> {sm_start m ..< sm_start m + sm_size m}"
    using True A space_map_set_bounds [OF inv] by (auto simp: log_eff_def)
  from map_view_card(2) [OF inv this]
  have le: "card (log_eff (ucast maptype) A (space_map_set m)) \<le> unat (sm_size m)" .
  have c: "card (log_eff (ucast maptype) A (space_map_set m)) = unat alloc + unat (sm_space m)"
    using True pre alloc space_map_space_card(1) [OF inv] by (simp add: log_eff_def log_pre_def card_Un_disjoint)
  then show ?thesis using True le unat_lt64 [of "sm_size m"] by (simp add: unat_add64)
next
  case False
  then have sub: "space_map_set m \<subseteq> A" using pre t by (auto simp: log_pre_def SM_ALLOC_def SM_FREE_def)
  have "card (space_map_set m) \<le> card A" by (rule card_mono [OF finite sub])
  then have "sm_space m \<le> alloc" using alloc space_map_space_card(1) [OF inv] by (simp add: word_le_nat_alt)
  moreover have "(ucast maptype :: u64) \<noteq> ucast SM_ALLOC" using False t by (auto simp: SM_ALLOC_def SM_FREE_def)
  ultimately show ?thesis
    using False alloc space_map_space_card(1) [OF inv] card_Diff_subset [OF finite sub]
    by (simp add: log_eff_def unat_sub)
qed

lemma sync_holds:
  assumes inv: "space_map_inv m" and enc: "space_map_encodable m" and t: "maptype = SM_ALLOC \<or> maptype = SM_FREE"
    and g: "sm_start sm = sm_start m" "sm_size sm = sm_size m" "sm_shift sm = sm_shift m"
    and o: "smo_holds sm smo obj A" and pre: "log_pre (ucast maptype) A (space_map_set m)"
  obtains smo' ws where "space_map_sync m maptype smo sync_pass txg = Some (space_map_emptied m, smo', ws)"
    "writes_at (smo_objsize smo) ws" "smo_object smo' = smo_object smo"
    "8 * length (obj @ writes_words ws) + 4096 < 2 ^ 64 \<longrightarrow>
       smo_holds sm smo' (obj @ writes_words ws) (log_eff (ucast maptype) A (space_map_set m))"
proof -
  obtain smo' ws where s: "space_map_sync m maptype smo sync_pass txg = Some (space_map_emptied m, smo', ws)"
    "writes_at (smo_objsize smo) ws" "space_map_log m (writes_words ws) A (log_eff (ucast maptype) A (space_map_set m))"
    "smo' = smo\<lparr>smo_objsize := smo_objsize smo + of_nat (8 * length (writes_words ws)),
       smo_alloc := (if maptype = SM_ALLOC then smo_alloc smo + sm_space m else smo_alloc smo - sm_space m)\<rparr>"
    by (rule space_map_sync_ok [OF inv enc t pre])
  have log: "space_map_log sm obj {} A" and sz: "unat (smo_objsize smo) = 8 * length obj" and al: "unat (smo_alloc smo) = card A"
    using o by (simp_all add: smo_holds_def)
  have "A \<subseteq> {sm_start m ..< sm_start m + sm_size m}" using log_bounds [OF log] by (simp add: g)
  note a = smo_alloc_sync [OF inv this t pre al]
  have l: "space_map_log sm (obj @ writes_words ws) {} (log_eff (ucast maptype) A (space_map_set m))"
    by (rule log_append [OF log log_same [OF s(3) g]])
  have "smo_holds sm smo' (obj @ writes_words ws) (log_eff (ucast maptype) A (space_map_set m))"
    if b: "8 * length (obj @ writes_words ws) + 4096 < 2 ^ 64"
  proof -
    have n: "unat (of_nat (8 * length (writes_words ws)) :: u64) = 8 * length (writes_words ws)"
      using b by (intro unat_of_nat64) simp
    have "unat (smo_objsize smo + of_nat (8 * length (writes_words ws))) = 8 * length (obj @ writes_words ws)"
      using b sz n by (subst unat_add64) (simp_all only: n, simp_all)
    then show ?thesis using a b l unfolding smo_holds_def s(4) by simp
  qed
  then show thesis using that [OF s(1,2)] s(4) by simp
qed

text \<open>C7: what \<^verbatim>\<open>space_map_sync()\<close> writes is what \<^verbatim>\<open>space_map_load()\<close> reads back. Syncing the allocations
  or the frees of a map appends contiguous entries to the object and empties the map; loading the
  object afterwards yields, as an allocation map, the updated set of allocated offsets and, as a free
  map, exactly its complement, with the accounting of \<^verbatim>\<open>smo_alloc\<close> in step. Long segments are
  split into runs of at most \<^verbatim>\<open>SM_RUN_MAX\<close> units and the entries into writes of one block.\<close>

theorem space_map_sync_load_roundtrip:
  assumes "space_map_inv m" "space_map_encodable m" "maptype = SM_ALLOC \<or> maptype = SM_FREE"
    and "sm_start sm = sm_start m" "sm_size sm = sm_size m" "sm_shift sm = sm_shift m"
    and "smo_holds sm smo obj A" "log_pre (ucast maptype) A (space_map_set m)"
    and "space_map_unloaded sm" "loadtype = SM_ALLOC \<or> loadtype = SM_FREE"
  shows "\<exists>smo' ws. space_map_sync m maptype smo sync_pass txg = Some (space_map_emptied m, smo', ws) \<and>
    writes_at (smo_objsize smo) ws \<and>
    (8 * length (obj @ writes_words ws) + 4096 < 2 ^ 64 \<longrightarrow>
     object_reads (dmu_read (smo_object smo)) (obj @ writes_words ws) \<longrightarrow>
     (\<exists>sm'. space_map_load zfs_recover vec dmu_read sm None loadtype smo' = Some (0, sm') \<and>
        space_map_inv sm' \<and> sm_loaded sm' \<and> \<not> sm_loading sm' \<and>
        space_map_set sm' = map_view loadtype sm (log_eff (ucast maptype) A (space_map_set m))))"
proof -
  obtain smo' ws where s: "space_map_sync m maptype smo sync_pass txg = Some (space_map_emptied m, smo', ws)"
    "writes_at (smo_objsize smo) ws" "smo_object smo' = smo_object smo"
    and h: "8 * length (obj @ writes_words ws) + 4096 < 2 ^ 64 \<longrightarrow>
       smo_holds sm smo' (obj @ writes_words ws) (log_eff (ucast maptype) A (space_map_set m))"
    by (rule sync_holds [OF assms(1-8)])
  have "\<exists>sm'. space_map_load zfs_recover vec dmu_read sm None loadtype smo' = Some (0, sm') \<and>
        space_map_inv sm' \<and> sm_loaded sm' \<and> \<not> sm_loading sm' \<and>
        space_map_set sm' = map_view loadtype sm (log_eff (ucast maptype) A (space_map_set m))"
    if b: "8 * length (obj @ writes_words ws) + 4096 < 2 ^ 64"
      and rd: "object_reads (dmu_read (smo_object smo)) (obj @ writes_words ws)"
  proof -
    have rd': "object_reads_or_fails (dmu_read (smo_object smo')) (obj @ writes_words ws)"
      using rd s(3) by (simp add: object_reads_def object_reads_or_fails_def)
    show ?thesis
      using space_map_load_none [where dmu_read = dmu_read and zr = zfs_recover and vec = vec,
          OF assms(10,9) h [rule_format, OF b] rd'] rd s(3)
      by (auto split: if_splits)
  qed
  then show ?thesis using s(1,2) by (intro exI [of _ smo'] exI [of _ ws]) simp
qed

lemma space_map_create_simps [simp]:
  "sm_start (space_map_create a n k) = a" "sm_size (space_map_create a n k) = n" "sm_shift (space_map_create a n k) = k"
  "sm_loaded (space_map_create a n k) = False" "sm_loading (space_map_create a n k) = False"
  "sm_ops (space_map_create a n k) = None" "sm_ppd (space_map_create a n k) = None" "sm_space (space_map_create a n k) = 0"
  by (simp_all add: space_map_create_def)

text \<open>A concrete object and reader for the witnesses.\<close>

definition smo_sample :: space_map_obj where
  "smo_sample = \<lparr>smo_object = 42, smo_objsize = 0, smo_alloc = 0\<rparr>"

definition read_words :: "u64 list \<Rightarrow> u64 \<Rightarrow> u64 \<Rightarrow> u64 \<Rightarrow> int + u64 list" where
  "read_words ws object off sz = Inr (take (unat sz div 8) (drop (unat off div 8) ws))"

lemma read_words_reads: "object_reads (read_words ws object) ws"
  by (simp add: object_reads_def read_words_def)

lemma sm_fresh_unloaded: "space_map_unloaded (space_map_create 0 0x100000 9)"
proof -
  have "range_in_map (space_map_create 0 0x100000 9) 0 0x100000" unfolding range_in_create by code_simp
  then show ?thesis by (simp add: space_map_unloaded_def space_map_create_inv)
qed

lemma smo_sample_holds: "smo_holds sm smo_sample [] {}"
  by (simp add: smo_holds_def smo_sample_def log_nil)

lemma sm_sample_encodable: "space_map_encodable sm_sample"
proof -
  have "avl_numnodes (sm_root sm_sample) = 1"
    by code_simp
  then show ?thesis
    by (simp add: space_map_encodable_def sm_sample_simps aligned_iff)
qed

lemma sm_sample_sync:
  "map_option (\<lambda>(_, _, ws). writes_words ws) (space_map_sync sm_sample SM_ALLOC smo_sample 1 7) =
   Some [sm_debug_entry SM_ALLOC 1 7, space_map_entry SM_ALLOC 8 16]"
  by code_simp

theorem space_map_sync_load_roundtrip_witness:
  "\<exists>m smo' ws sm'. space_map_sync sm_sample SM_ALLOC smo_sample 1 7 = Some (m, smo', ws) \<and>
     space_map_load False undefined (read_words (writes_words ws)) (space_map_create 0 0x100000 9) None SM_FREE smo' =
       Some (0, sm') \<and> space_map_set sm' = {0 ..< 0x100000} - {0x1000 ..< 0x3000}"
proof -
  let ?ws = "[sm_debug_entry SM_ALLOC 1 7, space_map_entry SM_ALLOC 8 16]"
  let ?sm = "space_map_create 0 0x100000 9"
  have pre: "log_pre (ucast SM_ALLOC) {} (space_map_set sm_sample)" by (simp add: log_pre_def)
  have g: "sm_start ?sm = sm_start sm_sample" "sm_size ?sm = sm_size sm_sample" "sm_shift ?sm = sm_shift sm_sample"
    by (simp_all add: sm_sample_simps)
  have t: "SM_ALLOC = SM_ALLOC \<or> SM_ALLOC = SM_FREE" "SM_FREE = SM_ALLOC \<or> SM_FREE = SM_FREE" by simp_all
  from space_map_sync_load_roundtrip [OF sm_sample_ok(1) sm_sample_encodable t(1) g smo_sample_holds pre
      sm_fresh_unloaded t(2), of 1 7 "read_words ?ws" False undefined]
  obtain smo' ws where s: "space_map_sync sm_sample SM_ALLOC smo_sample 1 7 = Some (space_map_emptied sm_sample, smo', ws)"
    and l: "8 * length ([] @ writes_words ws) + 4096 < 2 ^ 64 \<longrightarrow>
       object_reads (read_words ?ws (smo_object smo_sample)) ([] @ writes_words ws) \<longrightarrow>
       (\<exists>sm'. space_map_load False undefined (read_words ?ws) ?sm None SM_FREE smo' = Some (0, sm') \<and>
         space_map_inv sm' \<and> sm_loaded sm' \<and> \<not> sm_loading sm' \<and>
         space_map_set sm' = map_view SM_FREE ?sm (log_eff (ucast SM_ALLOC) {} (space_map_set sm_sample)))"
    by (elim exE conjE)
  have "writes_words ws = ?ws" using sm_sample_sync s by simp
  then show ?thesis
    using s l by (auto simp: read_words_reads map_view_def log_eff_def sm_sample_ok SM_ALLOC_def SM_FREE_def)
qed

text \<open>C11: loading is all or nothing. Whatever reads of the object fail, \<^verbatim>\<open>space_map_load()\<close> returns
  without a panic: with no error the map holds the whole object and is marked loaded; with an error
  it is empty, consistent and neither loaded nor loading, so that it can be loaded again.\<close>

theorem space_map_load_all_or_nothing:
  assumes "maptype = SM_ALLOC \<or> maptype = SM_FREE" "space_map_unloaded sm" "smo_holds sm smo obj A"
    and "object_reads_or_fails (dmu_read (smo_object smo)) obj"
  shows "\<exists>error sm'. space_map_load zfs_recover vec dmu_read sm None maptype smo = Some (error, sm') \<and>
    space_map_inv sm' \<and> \<not> sm_loading sm' \<and>
    (if error = 0 then sm_loaded sm' \<and> space_map_set sm' = map_view maptype sm A
     else \<not> sm_loaded sm' \<and> space_map_set sm' = {} \<and> \<not> object_reads (dmu_read (smo_object smo)) obj)"
  by (rule space_map_load_none [where dmu_read = dmu_read, OF assms])

text \<open>A log of one entry, and a reader of it that always fails.\<close>

lemma smo_one_holds:
  "smo_holds (space_map_create 0 0x100000 9) \<lparr>smo_object = 42, smo_objsize = 8, smo_alloc = 0x2000\<rparr>
     [space_map_entry SM_ALLOC 8 16] {0x1000 ..< 0x3000}"
proof -
  let ?sm = "space_map_create 0 0x100000 9" and ?e = "space_map_entry SM_ALLOC 8 16"
  have d: "SM_DEBUG_DECODE ?e = 0" "SM_OFFSET_DECODE ?e = 8" "SM_RUN_DECODE ?e = 16" "SM_TYPE_DECODE ?e = ucast SM_ALLOC"
    by code_simp+
  have "range_in_map ?sm 0x1000 0x2000" unfolding range_in_create by code_simp
  then have "space_map_log ?sm [?e] {} {0x1000 ..< 0x3000}"
    by (intro log_entry [where a = "0x1000" and sz = "0x2000"])
      (simp_all add: d log_pre_def log_eff_def log_nil)
  moreover have "card {0x1000 ..< 0x3000 :: u64} = 0x2000" using card_word_interval [of "0x1000" "0x3000"] by simp
  ultimately show ?thesis by (simp add: smo_holds_def)
qed

theorem space_map_load_all_or_nothing_witness:
  "\<exists>error sm'. space_map_load False undefined (\<lambda>_ _ _. Inl 5) (space_map_create 0 0x100000 9) None SM_FREE
      \<lparr>smo_object = 42, smo_objsize = 8, smo_alloc = 0x2000\<rparr> = Some (error, sm') \<and> error = 5 \<and>
    space_map_set sm' = {} \<and> \<not> sm_loaded sm'"
proof -
  let ?o = "\<lparr>smo_object = 42, smo_objsize = 8, smo_alloc = 0x2000\<rparr>"
  let ?rd = "\<lambda>_ _ _. Inl 5 :: int + u64 list"
  have "object_reads_or_fails (?rd (smo_object ?o)) [space_map_entry SM_ALLOC 8 16]"
    by (simp add: object_reads_or_fails_def)
  from space_map_load_all_or_nothing [where dmu_read = ?rd and zfs_recover = False and vec = undefined,
      OF disjI2 [OF refl] sm_fresh_unloaded smo_one_holds this]
  obtain error sm' where r: "space_map_load False undefined ?rd (space_map_create 0 0x100000 9) None SM_FREE ?o = Some (error, sm')"
      "if error = 0 then sm_loaded sm' \<and> space_map_set sm' = map_view SM_FREE (space_map_create 0 0x100000 9) {0x1000 ..< 0x3000}
     else \<not> sm_loaded sm' \<and> space_map_set sm' = {} \<and> \<not> object_reads (?rd (smo_object ?o)) [space_map_entry SM_ALLOC 8 16]"
    by (elim exE conjE)
  have "map_option fst (space_map_load False undefined ?rd (space_map_create 0 0x100000 9) None SM_FREE ?o) = Some 5"
    by code_simp
  then show ?thesis using r by simp
qed

text \<open>C15: the fields of a space map entry do not overlap and decode to what was encoded: the run length
  in the low 15 bits, the type in bit 15, the offset in bits 16 to 62, bit 63 clear.\<close>

theorem space_map_entry_roundtrip:
  assumes "unat start < 2 ^ 47" "0 < unat run" "unat run \<le> 2 ^ 15" "maptype = SM_ALLOC \<or> maptype = SM_FREE"
  shows "SM_DEBUG_DECODE (space_map_entry maptype start run) = 0 \<and>
    SM_OFFSET_DECODE (space_map_entry maptype start run) = start \<and>
    SM_TYPE_DECODE (space_map_entry maptype start run) = ucast maptype \<and>
    SM_RUN_DECODE (space_map_entry maptype start run) = run \<and>
    space_map_entry maptype start run = push_bit 16 start OR push_bit 15 (ucast maptype) OR (run - 1)"
proof -
  have "unat (run - 1) < 2 ^ 15" using assms(2,3) by (simp add: unat_minus_one unat_gt_0)
  moreover have "take_bit 1 (ucast maptype :: u64) = ucast maptype"
    using assms(4) by (auto simp: SM_ALLOC_def SM_FREE_def)
  ultimately have "space_map_entry maptype start run = push_bit 16 start OR push_bit 15 (ucast maptype) OR (run - 1)"
    using take_bit_small [OF assms(1)] take_bit_small [of "run - 1" 15]
    by (simp add: space_map_entry_def sm_entry_defs p2_simps)
  then show ?thesis using entry_decode [OF assms] by simp
qed

theorem space_map_entry_roundtrip_witness:
  "SM_DEBUG_DECODE (space_map_entry SM_FREE 5 32768) = 0 \<and>
    SM_OFFSET_DECODE (space_map_entry SM_FREE 5 32768) = 5 \<and>
    SM_TYPE_DECODE (space_map_entry SM_FREE 5 32768) = ucast SM_FREE \<and>
    SM_RUN_DECODE (space_map_entry SM_FREE 5 32768) = 32768 \<and>
    space_map_entry SM_FREE 5 32768 = push_bit 16 5 OR push_bit 15 (ucast SM_FREE) OR (32768 - 1)"
  by (rule space_map_entry_roundtrip) simp_all


end
