(* ===== verification/Bitops.thy ===== *)
theory Bitops
  imports Zfs_Prelude
begin

text \<open>
  The bit searches of \<^verbatim>\<open>src/usr/src/uts/s390x/os/bitmap_arch.c\<close>, and the isolation of the lowest bit
  and the rounding that the allocator builds on them.
\<close>

text \<open>The block \<^verbatim>\<open>if (i & m) { h += k; i >>= k; }\<close> of \<^verbatim>\<open>highbit()\<close>, and its counterpart in
  \<^verbatim>\<open>lowbit()\<close>.\<close>

definition hb_halve :: "nat \<Rightarrow> u64 \<Rightarrow> nat \<times> u64 \<Rightarrow> nat \<times> u64" where
  "hb_halve k m = (\<lambda>(h, i). if i AND m \<noteq> 0 then (h + k, drop_bit k i) else (h, i))"

definition lb_halve :: "nat \<Rightarrow> u64 \<Rightarrow> nat \<times> u64 \<Rightarrow> nat \<times> u64" where
  "lb_halve k m = (\<lambda>(h, i). if i AND m = 0 then (h + k, drop_bit k i) else (h, i))"

definition highbit :: "u64 \<Rightarrow> nat" where
  "highbit i =
     (if i = 0 then 0
      else
        let s = (1, i);
            s = hb_halve 32 0xffffffff00000000 s;
            s = hb_halve 16 0xffff0000 s;
            s = hb_halve 8 0xff00 s;
            s = hb_halve 4 0xf0 s;
            (h, i) = hb_halve 2 0xc s
        in if i AND 0x2 \<noteq> 0 then h + 1 else h)"

definition lowbit :: "u64 \<Rightarrow> nat" where
  "lowbit i =
     (if i = 0 then 0
      else
        let s = (1, i);
            s = lb_halve 32 0xffffffff s;
            s = lb_halve 16 0xffff s;
            s = lb_halve 8 0xff s;
            s = lb_halve 4 0xf s;
            (h, i) = lb_halve 2 0x3 s
        in if i AND 0x1 = 0 then h + 1 else h)"

subsection \<open>The binary searches\<close>

text \<open>\<open>hb i h j\<close>: the highest set bit of \<open>i\<close> is the highest set bit of \<open>j\<close>, \<open>h - 1\<close> places up.\<close>

lemma unat_drop_bit: "unat (drop_bit k x :: u64) = unat x div 2 ^ k"
proof -
  have "take_bit 64 (unat x) = unat x" by (simp add: take_bit_nat_eq_self unat_lt64 [simplified])
  moreover have "unat (drop_bit k x) = drop_bit k (take_bit 64 (unat x))" by (simp add: unsigned_drop_bit_eq)
  ultimately show ?thesis by (simp add: drop_bit_eq_div)
qed

lemma bit64: "bit (x :: u64) n \<Longrightarrow> n < 64"
  using bit_imp_le_length [of x n] by simp

definition hb_at :: "u64 \<Rightarrow> nat \<Rightarrow> bool" where
  "hb_at i h \<longleftrightarrow> 0 < h \<and> 2 ^ (h - 1) \<le> unat i \<and> unat i < 2 ^ h"

lemma hb_step:
  assumes "j \<noteq> 0" "unat j < 2 ^ (k + k)" "m = push_bit k (mask k)" "k + k \<le> 64"
  shows "j AND m \<noteq> 0 \<longleftrightarrow> drop_bit k j \<noteq> 0"
    "drop_bit k j = 0 \<Longrightarrow> unat j < 2 ^ k"
    "unat (drop_bit k j) < 2 ^ k"
    "hb_at (drop_bit k j) h \<Longrightarrow> hb_at j (h + k)"
proof -
  have b: "\<not> bit j n" if "k + k \<le> n" for n
  proof -
    have "\<not> bit (unat j) n"
      using that assms(2) by (metis bit_take_bit_iff linorder_not_less take_bit_nat_eq_self)
    then show ?thesis by (simp add: bit_unsigned_iff)
  qed
  have "n - k < k" if "bit j n" "k \<le> n" for n
    using b [of n] that by (cases "k + k \<le> n") auto
  then have "j AND m = push_bit k (drop_bit k j)"
    using assms(3) by (intro bit_eqI) (auto simp: bit_simps)
  moreover have "drop_bit k j = 0" if "push_bit k (drop_bit k j) = 0"
  proof -
    have "j = take_bit k j" using bits_ident [of k j] that by simp
    then show ?thesis using drop_bit_take_bit [of k k j] by simp
  qed
  ultimately show "j AND m \<noteq> 0 \<longleftrightarrow> drop_bit k j \<noteq> 0" by auto
  have u: "unat (drop_bit k j) = unat j div 2 ^ k"
    by (rule unat_drop_bit)
  show "drop_bit k j = 0 \<Longrightarrow> unat j < 2 ^ k"
    using u by (simp add: div_eq_0_iff)
  show "unat (drop_bit k j) < 2 ^ k"
    using u assms(2) by (simp add: less_mult_imp_div_less power_add)
  show "hb_at (drop_bit k j) h \<Longrightarrow> hb_at j (h + k)"
  proof -
    assume h: "hb_at (drop_bit k j) h"
    have "2 ^ (h - 1) * 2 ^ k \<le> unat j"
      using h u by (simp add: hb_at_def less_eq_div_iff_mult_less_eq)
    moreover have "unat j < 2 ^ h * 2 ^ k"
      using h u by (simp add: hb_at_def div_less_iff_less_mult)
    ultimately show "hb_at j (h + k)"
      using h by (simp add: hb_at_def power_add [symmetric])
  qed
qed


text \<open>One halving of the search window, and what it keeps.\<close>

definition hb_inv :: "u64 \<Rightarrow> nat \<Rightarrow> nat \<times> u64 \<Rightarrow> bool" where
  "hb_inv i w = (\<lambda>(h, j). j \<noteq> 0 \<and> 0 < h \<and> unat j < 2 ^ w \<and> (\<forall>x. hb_at j x \<longrightarrow> hb_at i (x + h - 1)))"

lemma hb_halve_inv:
  assumes "hb_inv i w s" "w = k + k" "m = push_bit k (mask k)" "w \<le> 64"
  shows "hb_inv i k (hb_halve k m s)"
proof -
  obtain h j where s: "s = (h, j)" by (cases s)
  have j: "j \<noteq> 0" "0 < h" "unat j < 2 ^ (k + k)" and up: "\<And>x. hb_at j x \<Longrightarrow> hb_at i (x + h - 1)"
    using assms(1,2) by (simp_all add: s hb_inv_def)
  note st = hb_step [OF j(1,3) assms(3) assms(4) [unfolded assms(2)]]
  show ?thesis
  proof (cases "j AND m \<noteq> 0")
    case True
    have "hb_at i (x + (h + k) - 1)" if "hb_at (drop_bit k j) x" for x
      using up [OF st(4) [OF that]] by (simp add: add.commute add.left_commute)
    then show ?thesis using True st(1,3) j(2) by (simp add: s hb_halve_def hb_inv_def)
  next
    case False
    then show ?thesis using st(1,2) j up by (simp add: s hb_halve_def hb_inv_def)
  qed
qed

lemma highbit_at:
  assumes "i \<noteq> 0"
  shows "hb_at i (highbit i)"
proof -
  let ?s1 = "hb_halve 32 0xffffffff00000000 (1, i)"
  let ?s2 = "hb_halve 16 0xffff0000 ?s1"
  let ?s3 = "hb_halve 8 0xff00 ?s2"
  let ?s4 = "hb_halve 4 0xf0 ?s3"
  let ?s5 = "hb_halve 2 0xc ?s4"
  have s0: "hb_inv i 64 (1, i)" using assms unat_lt64 [of i] by (simp add: hb_inv_def)
  have s1: "hb_inv i 32 ?s1" by (rule hb_halve_inv [OF s0]) (simp_all add: mask_eq_exp_minus_1)
  have s2: "hb_inv i 16 ?s2" by (rule hb_halve_inv [OF s1]) (simp_all add: mask_eq_exp_minus_1)
  have s3: "hb_inv i 8 ?s3" by (rule hb_halve_inv [OF s2]) (simp_all add: mask_eq_exp_minus_1)
  have s4: "hb_inv i 4 ?s4" by (rule hb_halve_inv [OF s3]) (simp_all add: mask_eq_exp_minus_1)
  have inv: "hb_inv i 2 ?s5" by (rule hb_halve_inv [OF s4]) (simp_all add: mask_eq_exp_minus_1)
  obtain h j where hj: "?s5 = (h, j)" by (cases ?s5)
  have j: "j \<noteq> 0" "0 < h" "unat j < 2 ^ 2" and up: "\<And>x. hb_at j x \<Longrightarrow> hb_at i (x + h - 1)"
    using inv [unfolded hj] by (simp_all add: hb_inv_def)
  have "unat j = 1 \<or> unat j = 2 \<or> unat j = 3" using j(1,3) by (simp add: unat_gt_0 [symmetric]) linarith
  then have "j = 1 \<or> j = 2 \<or> j = 3" by (simp add: word_unat_eq_iff)
  then have "hb_at j (if j AND 0x2 \<noteq> 0 then 2 else 1)" by (auto simp: hb_at_def)
  from up [OF this] show ?thesis
    unfolding highbit_def Let_def hj prod.case using assms j(2) by (simp split: if_splits)
qed

subsection \<open>The lowest bit\<close>

definition lb_at :: "u64 \<Rightarrow> nat \<Rightarrow> bool" where
  "lb_at i h \<longleftrightarrow> 0 < h \<and> bit i (h - 1) \<and> take_bit (h - 1) i = 0"

definition lb_inv :: "u64 \<Rightarrow> nat \<Rightarrow> nat \<times> u64 \<Rightarrow> bool" where
  "lb_inv i w = (\<lambda>(h, j). take_bit w j \<noteq> 0 \<and> 0 < h \<and> (\<forall>x. lb_at j x \<longrightarrow> lb_at i (x + h - 1)))"

lemma take_bit_split:
  fixes j :: u64
  assumes "take_bit k j = 0"
  shows "take_bit (k + n) j = push_bit k (take_bit n (drop_bit k j))"
proof (rule bit_eqI)
  fix m
  have "\<not> bit j m" if "m < k" using assms that by (metis bit_take_bit_iff bit_0_eq bot_apply bot_bool_def)
  then show "bit (take_bit (k + n) j) m = bit (push_bit k (take_bit n (drop_bit k j))) m"
    by (cases "m < k") (auto simp: bit_simps dest: bit64)
qed

lemma lb_halve_inv:
  assumes "lb_inv i w s" "w = k + k" "m = mask k"
  shows "lb_inv i k (lb_halve k m s)"
proof -
  obtain h j where s: "s = (h, j)" by (cases s)
  have j: "take_bit (k + k) j \<noteq> 0" "0 < h" and up: "\<And>x. lb_at j x \<Longrightarrow> lb_at i (x + h - 1)"
    using assms(1,2) by (simp_all add: s lb_inv_def)
  have m: "j AND m = take_bit k j" by (simp add: assms(3) take_bit_eq_mask)
  show ?thesis
  proof (cases "take_bit k j = 0")
    case True
    note sp = take_bit_split [OF True]
    have "take_bit k (drop_bit k j) \<noteq> 0" using j(1) sp [of k] by auto
    moreover have "lb_at i (x + (h + k) - 1)" if x: "lb_at (drop_bit k j) x" for x
    proof -
      have "lb_at j (x + k)"
        using x sp [of "x - 1"] by (cases x) (simp_all add: lb_at_def bit_simps add.commute)
      from up [OF this] show ?thesis by (simp add: add.commute add.left_commute)
    qed
    ultimately show ?thesis using True j(2) m by (simp add: s lb_halve_def lb_inv_def)
  next
    case False
    then show ?thesis using j up m by (simp add: s lb_halve_def lb_inv_def)
  qed
qed

lemma lowbit_at:
  assumes "i \<noteq> 0"
  shows "lb_at i (lowbit i)"
proof -
  let ?s1 = "lb_halve 32 0xffffffff (1, i)"
  let ?s2 = "lb_halve 16 0xffff ?s1"
  let ?s3 = "lb_halve 8 0xff ?s2"
  let ?s4 = "lb_halve 4 0xf ?s3"
  let ?s5 = "lb_halve 2 0x3 ?s4"
  have s0: "lb_inv i 64 (1, i)" using assms by (simp add: lb_inv_def take_bit_word_eq_self)
  have s1: "lb_inv i 32 ?s1" by (rule lb_halve_inv [OF s0]) (simp_all add: mask_eq_exp_minus_1)
  have s2: "lb_inv i 16 ?s2" by (rule lb_halve_inv [OF s1]) (simp_all add: mask_eq_exp_minus_1)
  have s3: "lb_inv i 8 ?s3" by (rule lb_halve_inv [OF s2]) (simp_all add: mask_eq_exp_minus_1)
  have s4: "lb_inv i 4 ?s4" by (rule lb_halve_inv [OF s3]) (simp_all add: mask_eq_exp_minus_1)
  have inv: "lb_inv i 2 ?s5" by (rule lb_halve_inv [OF s4]) (simp_all add: mask_eq_exp_minus_1)
  obtain h j where hj: "?s5 = (h, j)" by (cases ?s5)
  have j: "take_bit 2 j \<noteq> 0" "0 < h" and up: "\<And>x. lb_at j x \<Longrightarrow> lb_at i (x + h - 1)"
    using inv [unfolded hj] by (simp_all add: lb_inv_def)
  have a: "j AND 1 = 0 \<longleftrightarrow> take_bit 1 j = 0" by (simp add: take_bit_eq_mask)
  have "lb_at j (if j AND 1 = 0 then 2 else 1)"
  proof (cases "take_bit 1 j = 0")
    case True
    have "take_bit 2 j = push_bit 1 (take_bit 1 (drop_bit 1 j))" using take_bit_split [OF True, of 1] by (simp add: numeral_2_eq_2)
    then have "take_bit 1 (drop_bit 1 j) \<noteq> 0" using j(1) by (metis push_bit_of_0)
    then have "bit j 1" by (auto simp: take_bit_Suc One_nat_def bit_iff_odd_drop_bit even_iff_mod_2_eq_zero)
    then show ?thesis using True a by (simp add: lb_at_def)
  next
    case False
    then have "bit j 0" by (auto simp: take_bit_Suc One_nat_def bit_0 even_iff_mod_2_eq_zero)
    then show ?thesis using False a by (simp add: lb_at_def)
  qed
  from up [OF this] show ?thesis
    unfolding lowbit_def Let_def hj prod.case using assms j(2) by (simp split: if_splits)
qed

text \<open>The idiom \<^verbatim>\<open>x & -x\<close>.\<close>

lemma minus_low_bit:
  fixes x :: u64
  assumes "bit x k" "take_bit k x = 0"
  shows "x AND - x = 2 ^ k"
proof -
  let ?h = "NOT x AND NOT (mask (Suc k)) :: u64"
  have low: "\<not> bit x n" if "n < k" for n
    using assms(2) that by (metis bit_take_bit_iff bit_0_eq bot_apply bot_bool_def)
  have k: "k < 64" by (rule bit64 [OF assms(1)])
  have "NOT x = ?h OR mask k"
    using assms(1) low by (intro bit_eqI) (auto simp: bit_simps less_Suc_eq)
  moreover have "?h AND mask k = 0" by (intro bit_eqI) (auto simp: bit_simps)
  ultimately have n: "NOT x = ?h + mask k" by (simp add: disjunctive_add_eq_or)
  have "- x = ?h + (mask k + 1)"
    using arg_cong [OF n, of "\<lambda>y. y + 1"] minus_eq_not_plus_1 [of x] by (metis add.assoc)
  then have "- x = ?h + 2 ^ k" by (simp only: mask_eq_exp_minus_1 [of k] diff_add_cancel)
  moreover have "?h AND 2 ^ k = 0" by (intro bit_eqI) (auto simp: bit_simps)
  ultimately have "- x = ?h OR 2 ^ k" by (simp add: disjunctive_add_eq_or)
  then show ?thesis
    using assms(1) k by (intro bit_eqI) (auto simp: bit_simps)
qed

lemma unat_exp64: "k < 64 \<Longrightarrow> unat (2 ^ k :: u64) = 2 ^ k"
  using unat_of_nat64 [of "2 ^ k"] power_strict_increasing [of k 64 "2 :: nat"] by simp

lemma low_bit_isolate:
  fixes x :: u64
  assumes "x \<noteq> 0"
  obtains k where "k < 64" "x AND - x = 2 ^ k" "take_bit k x = 0" "unat x \<ge> 2 ^ k" "highbit (x AND - x) = Suc k"
proof -
  have lb: "0 < lowbit x" "bit x (lowbit x - 1)" "take_bit (lowbit x - 1) x = 0"
    using lowbit_at [OF assms] by (simp_all add: lb_at_def)
  define k where "k = lowbit x - 1"
  have k: "k < 64" using bit64 lb(2) by (simp add: k_def)
  have iso: "x AND - x = 2 ^ k" unfolding k_def by (rule minus_low_bit [OF lb(2,3)])
  have u: "unat (2 ^ k :: u64) = 2 ^ k" using k by (rule unat_exp64)
  have "unat (x AND - x) \<le> unat x" by (metis word_and_le2 word_le_nat_alt and.commute)
  moreover have "(2 :: u64) ^ k \<noteq> 0" using u by (metis power_not_zero unat_0 zero_neq_numeral)
  then have h: "hb_at (2 ^ k) (highbit (2 ^ k))" by (rule highbit_at)
  have "highbit (2 ^ k) = Suc k"
  proof -
    let ?h = "highbit (2 ^ k)"
    have "2 ^ (?h - 1) \<le> (2 :: nat) ^ k" "(2 :: nat) ^ k < 2 ^ ?h" "0 < ?h" using h u by (simp_all add: hb_at_def)
    then have "?h - 1 \<le> k" "k < ?h" by simp_all
    then show ?thesis by simp
  qed
  ultimately show thesis using that [of k] k iso u lb(3) [folded k_def] by simp
qed

lemma aligned_uminus:
  fixes a :: u64
  assumes "take_bit n a = 0"
  shows "take_bit n (- a) = 0"
proof (cases "a = 0 \<or> 64 \<le> n")
  case True
  then show ?thesis using assms by (auto simp: take_bit_word_eq_self)
next
  case False
  have d: "2 ^ n dvd unat x \<longleftrightarrow> take_bit n x = 0" for x :: u64
    by (simp add: and_mask_dvd_nat take_bit_eq_mask)
  have "unat (- a) = 2 ^ 64 - unat a" using False unat_sub_if' [of 0 a] by (simp add: unat_gt_0)
  moreover have "(2 :: nat) ^ n dvd 2 ^ 64" using False by (intro le_imp_power_dvd) simp
  ultimately have "2 ^ n dvd unat (- a)" using assms d [of a] by (simp add: dvd_diff_nat)
  then show ?thesis by (simp add: d)
qed

text \<open>Rounding up to a multiple of a power of two.\<close>

lemma P2ROUNDUP_spec:
  assumes "k < 64" "unat x + 2 ^ k \<le> 2 ^ 64"
  shows "take_bit k (P2ROUNDUP x (2 ^ k)) = 0" "x \<le> P2ROUNDUP x (2 ^ k)"
    "unat (P2ROUNDUP x (2 ^ k)) < unat x + 2 ^ k"
    "take_bit k y = 0 \<Longrightarrow> x \<le> y \<Longrightarrow> P2ROUNDUP x (2 ^ k) \<le> y"
proof -
  let ?t = "take_bit k (- x)"
  have m: "- (2 ^ k :: u64) = NOT (mask k)" by (simp add: mask_eq_exp_minus_1 minus_eq_not_minus_1)
  have al: "take_bit k (- x AND NOT (mask k)) = 0" by (intro bit_eqI) (auto simp: bit_simps)
  then show al': "take_bit k (P2ROUNDUP x (2 ^ k)) = 0" by (simp add: P2ROUNDUP_def m aligned_uminus)
  have "(- x AND NOT (mask k)) + ?t = - x"
    by (subst disjunctive_add_eq_or) (auto intro!: bit_eqI simp: bit_simps)
  then have "- x AND NOT (mask k) = - x - ?t" by (simp add: algebra_simps)
  then have r: "P2ROUNDUP x (2 ^ k) = x + ?t" by (simp add: P2ROUNDUP_def m)
  have t: "unat ?t < 2 ^ k" by (simp add: unsigned_take_bit_eq)
  then have "unat (x + ?t) = unat x + unat ?t"
    using assms(2) by (simp add: unat_word_ariths)
  then show le: "x \<le> P2ROUNDUP x (2 ^ k)" and "unat (P2ROUNDUP x (2 ^ k)) < unat x + 2 ^ k"
    using t by (simp_all add: r word_le_nat_alt)
  show "P2ROUNDUP x (2 ^ k) \<le> y" if "take_bit k y = 0" "x \<le> y"
  proof (rule ccontr)
    assume "\<not> P2ROUNDUP x (2 ^ k) \<le> y"
    then have lt: "y < P2ROUNDUP x (2 ^ k)" by simp
    have d: "2 ^ k dvd unat z \<longleftrightarrow> take_bit k z = 0" for z :: u64
      by (simp add: and_mask_dvd_nat take_bit_eq_mask)
    have "2 ^ k dvd unat (P2ROUNDUP x (2 ^ k)) - unat y" using al' that(1) d by (intro dvd_diff_nat) simp_all
    moreover have "0 < unat (P2ROUNDUP x (2 ^ k)) - unat y" using lt by (simp add: word_less_nat_alt)
    ultimately have "2 ^ k \<le> unat (P2ROUNDUP x (2 ^ k)) - unat y" by (rule dvd_imp_le)
    then show False
      using \<open>unat (P2ROUNDUP x (2 ^ k)) < unat x + 2 ^ k\<close> that(2)
        zero_less_power [of "2 :: nat" k]
      unfolding word_le_nat_alt by linarith
  qed
qed

text \<open>C22: \<^verbatim>\<open>highbit()\<close> and \<^verbatim>\<open>lowbit()\<close> return one more than the index of the highest and of the
  lowest set bit, and 0 for a word without set bits.\<close>

theorem highbit_lowbit_correct:
  "highbit 0 = 0 \<and> lowbit 0 = 0 \<and>
   (i \<noteq> 0 \<longrightarrow> 0 < highbit i \<and> bit i (highbit i - 1) \<and> (\<forall>n. highbit i \<le> n \<longrightarrow> \<not> bit i n) \<and>
      0 < lowbit i \<and> bit i (lowbit i - 1) \<and> (\<forall>n. n < lowbit i - 1 \<longrightarrow> \<not> bit i n))"
proof (intro conjI impI)
  assume i: "i \<noteq> 0"
  have h: "0 < highbit i" "2 ^ (highbit i - 1) \<le> unat i" "unat i < 2 ^ highbit i"
    using highbit_at [OF i] by (simp_all add: hb_at_def)
  show "0 < highbit i" by (rule h)
  have top: "unat i < 2 * 2 ^ (highbit i - 1)" using h by (metis power_Suc Suc_diff_1)
  then have "unat i div 2 ^ (highbit i - 1) = 1" using h(2) by (simp add: div_nat_eqI)
  then have "bit (unat i) (highbit i - 1)" by (simp add: bit_iff_odd)
  then show "bit i (highbit i - 1)" by (simp add: bit_unsigned_iff)
  have "\<not> bit (unat i) n" if "highbit i \<le> n" for n
    using that h(3) by (metis bit_take_bit_iff linorder_not_less take_bit_nat_eq_self)
  then show "\<forall>n. highbit i \<le> n \<longrightarrow> \<not> bit i n" by (simp add: bit_unsigned_iff)
  have l: "0 < lowbit i" "bit i (lowbit i - 1)" "take_bit (lowbit i - 1) i = 0"
    using lowbit_at [OF i] by (simp_all add: lb_at_def)
  show "0 < lowbit i" "bit i (lowbit i - 1)" by (rule l)+
  show "\<forall>n. n < lowbit i - 1 \<longrightarrow> \<not> bit i n"
    using l(3) by (metis bit_take_bit_iff bit_0_eq bot_apply bot_bool_def)
qed (simp_all add: highbit_def lowbit_def)

theorem highbit_lowbit_correct_witness: "bit (40 :: u64) (highbit 40 - 1) \<and> highbit 40 = 6 \<and> lowbit 40 = 4"
proof -
  have "highbit 40 = 6" "lowbit 40 = 4" by code_simp+
  then show ?thesis using highbit_lowbit_correct [of 40] by simp
qed

end
