(* ===== verification/Blkptr.thy ===== *)
theory Blkptr
  imports Bitops
begin

text \<open>
  Data virtual addresses and block pointers: the structures and the accessor macros of
  \<^verbatim>\<open>src/usr/src/uts/common/fs/zfs/sys/spa.h\<close>.
\<close>

subsection \<open>Bit fields\<close>

definition BF64_GET :: "u64 \<Rightarrow> nat \<Rightarrow> nat \<Rightarrow> u64" where
  "BF64_GET x low len = BF64_DECODE x low len"

definition BF64_SET :: "u64 \<Rightarrow> nat \<Rightarrow> nat \<Rightarrow> u64 \<Rightarrow> u64" where
  "BF64_SET x low len val = x XOR BF64_ENCODE (drop_bit low x XOR val) low len"

definition BF64_GET_SB :: "u64 \<Rightarrow> nat \<Rightarrow> nat \<Rightarrow> nat \<Rightarrow> u64 \<Rightarrow> u64" where
  "BF64_GET_SB x low len shift bias = push_bit shift (BF64_GET x low len + bias)"

definition BF64_SET_SB :: "u64 \<Rightarrow> nat \<Rightarrow> nat \<Rightarrow> nat \<Rightarrow> u64 \<Rightarrow> u64 \<Rightarrow> u64" where
  "BF64_SET_SB x low len shift bias val = BF64_SET x low len (drop_bit shift val - bias)"

definition SPA_MINBLOCKSHIFT :: nat where
  "SPA_MINBLOCKSHIFT = 9"

definition SPA_MAXBLOCKSHIFT :: nat where
  "SPA_MAXBLOCKSHIFT = 17"

definition SPA_MINBLOCKSIZE :: u64 where
  "SPA_MINBLOCKSIZE = push_bit SPA_MINBLOCKSHIFT 1"

definition SPA_MAXBLOCKSIZE :: u64 where
  "SPA_MAXBLOCKSIZE = push_bit SPA_MAXBLOCKSHIFT 1"

subsection \<open>Data virtual addresses\<close>

record dva =
  dva_word0 :: u64
  dva_word1 :: u64

definition DVA_GET_ASIZE :: "dva \<Rightarrow> u64" where
  "DVA_GET_ASIZE dva = BF64_GET_SB (dva_word0 dva) 0 24 SPA_MINBLOCKSHIFT 0"

definition DVA_SET_ASIZE :: "dva \<Rightarrow> u64 \<Rightarrow> dva" where
  "DVA_SET_ASIZE dva x = dva\<lparr>dva_word0 := BF64_SET_SB (dva_word0 dva) 0 24 SPA_MINBLOCKSHIFT 0 x\<rparr>"

definition DVA_GET_GRID :: "dva \<Rightarrow> u64" where
  "DVA_GET_GRID dva = BF64_GET (dva_word0 dva) 24 8"

definition DVA_SET_GRID :: "dva \<Rightarrow> u64 \<Rightarrow> dva" where
  "DVA_SET_GRID dva x = dva\<lparr>dva_word0 := BF64_SET (dva_word0 dva) 24 8 x\<rparr>"

definition DVA_GET_VDEV :: "dva \<Rightarrow> u64" where
  "DVA_GET_VDEV dva = BF64_GET (dva_word0 dva) 32 32"

definition DVA_SET_VDEV :: "dva \<Rightarrow> u64 \<Rightarrow> dva" where
  "DVA_SET_VDEV dva x = dva\<lparr>dva_word0 := BF64_SET (dva_word0 dva) 32 32 x\<rparr>"

definition DVA_GET_OFFSET :: "dva \<Rightarrow> u64" where
  "DVA_GET_OFFSET dva = BF64_GET_SB (dva_word1 dva) 0 63 SPA_MINBLOCKSHIFT 0"

definition DVA_SET_OFFSET :: "dva \<Rightarrow> u64 \<Rightarrow> dva" where
  "DVA_SET_OFFSET dva x = dva\<lparr>dva_word1 := BF64_SET_SB (dva_word1 dva) 0 63 SPA_MINBLOCKSHIFT 0 x\<rparr>"

definition DVA_GET_GANG :: "dva \<Rightarrow> u64" where
  "DVA_GET_GANG dva = BF64_GET (dva_word1 dva) 63 1"

definition DVA_SET_GANG :: "dva \<Rightarrow> u64 \<Rightarrow> dva" where
  "DVA_SET_GANG dva x = dva\<lparr>dva_word1 := BF64_SET (dva_word1 dva) 63 1 x\<rparr>"

definition DVA_EQUAL :: "dva \<Rightarrow> dva \<Rightarrow> bool" where
  "DVA_EQUAL dva1 dva2 \<longleftrightarrow> dva_word1 dva1 = dva_word1 dva2 \<and> dva_word0 dva1 = dva_word0 dva2"

definition DVA_IS_VALID :: "dva \<Rightarrow> bool" where
  "DVA_IS_VALID dva \<longleftrightarrow> DVA_GET_ASIZE dva \<noteq> 0"

subsection \<open>Block pointers\<close>

record zio_cksum =
  zc_word0 :: u64
  zc_word1 :: u64
  zc_word2 :: u64
  zc_word3 :: u64

record blkptr =
  blk_dva0 :: dva
  blk_dva1 :: dva
  blk_dva2 :: dva
  blk_prop :: u64
  blk_pad :: "u64 \<times> u64 \<times> u64"
  blk_birth :: u64
  blk_fill :: u64
  blk_cksum :: zio_cksum

definition BP_IS_HOLE :: "blkptr \<Rightarrow> bool" where
  "BP_IS_HOLE bp \<longleftrightarrow> blk_birth bp = 0"

definition BP_IS_OLDER :: "blkptr \<Rightarrow> u64 \<Rightarrow> bool" where
  "BP_IS_OLDER bp txg \<longleftrightarrow> \<not> BP_IS_HOLE bp \<and> blk_birth bp < txg"

definition BP_GET_LSIZE :: "blkptr \<Rightarrow> u64" where
  "BP_GET_LSIZE bp = (if BP_IS_HOLE bp then 0 else BF64_GET_SB (blk_prop bp) 0 16 SPA_MINBLOCKSHIFT 1)"

definition BP_SET_LSIZE :: "blkptr \<Rightarrow> u64 \<Rightarrow> blkptr" where
  "BP_SET_LSIZE bp x = bp\<lparr>blk_prop := BF64_SET_SB (blk_prop bp) 0 16 SPA_MINBLOCKSHIFT 1 x\<rparr>"

definition BP_GET_PSIZE :: "blkptr \<Rightarrow> u64" where
  "BP_GET_PSIZE bp = BF64_GET_SB (blk_prop bp) 16 16 SPA_MINBLOCKSHIFT 1"

definition BP_SET_PSIZE :: "blkptr \<Rightarrow> u64 \<Rightarrow> blkptr" where
  "BP_SET_PSIZE bp x = bp\<lparr>blk_prop := BF64_SET_SB (blk_prop bp) 16 16 SPA_MINBLOCKSHIFT 1 x\<rparr>"

definition BP_GET_COMPRESS :: "blkptr \<Rightarrow> u64" where
  "BP_GET_COMPRESS bp = BF64_GET (blk_prop bp) 32 8"

definition BP_SET_COMPRESS :: "blkptr \<Rightarrow> u64 \<Rightarrow> blkptr" where
  "BP_SET_COMPRESS bp x = bp\<lparr>blk_prop := BF64_SET (blk_prop bp) 32 8 x\<rparr>"

definition BP_GET_CHECKSUM :: "blkptr \<Rightarrow> u64" where
  "BP_GET_CHECKSUM bp = BF64_GET (blk_prop bp) 40 8"

definition BP_SET_CHECKSUM :: "blkptr \<Rightarrow> u64 \<Rightarrow> blkptr" where
  "BP_SET_CHECKSUM bp x = bp\<lparr>blk_prop := BF64_SET (blk_prop bp) 40 8 x\<rparr>"

definition BP_GET_TYPE :: "blkptr \<Rightarrow> u64" where
  "BP_GET_TYPE bp = BF64_GET (blk_prop bp) 48 8"

definition BP_SET_TYPE :: "blkptr \<Rightarrow> u64 \<Rightarrow> blkptr" where
  "BP_SET_TYPE bp x = bp\<lparr>blk_prop := BF64_SET (blk_prop bp) 48 8 x\<rparr>"

definition BP_GET_LEVEL :: "blkptr \<Rightarrow> u64" where
  "BP_GET_LEVEL bp = BF64_GET (blk_prop bp) 56 5"

definition BP_SET_LEVEL :: "blkptr \<Rightarrow> u64 \<Rightarrow> blkptr" where
  "BP_SET_LEVEL bp x = bp\<lparr>blk_prop := BF64_SET (blk_prop bp) 56 5 x\<rparr>"

definition BP_GET_BYTEORDER :: "blkptr \<Rightarrow> u64" where
  "BP_GET_BYTEORDER bp = 0 - BF64_GET (blk_prop bp) 63 1"

definition BP_SET_BYTEORDER :: "blkptr \<Rightarrow> u64 \<Rightarrow> blkptr" where
  "BP_SET_BYTEORDER bp x = bp\<lparr>blk_prop := BF64_SET (blk_prop bp) 63 1 x\<rparr>"

definition BP_GET_ASIZE :: "blkptr \<Rightarrow> u64" where
  "BP_GET_ASIZE bp = DVA_GET_ASIZE (blk_dva0 bp) + DVA_GET_ASIZE (blk_dva1 bp) + DVA_GET_ASIZE (blk_dva2 bp)"

definition BP_GET_NDVAS :: "blkptr \<Rightarrow> nat" where
  "BP_GET_NDVAS bp = of_bool (DVA_GET_ASIZE (blk_dva0 bp) \<noteq> 0) + of_bool (DVA_GET_ASIZE (blk_dva1 bp) \<noteq> 0) +
     of_bool (DVA_GET_ASIZE (blk_dva2 bp) \<noteq> 0)"

definition BP_COUNT_GANG :: "blkptr \<Rightarrow> u64" where
  "BP_COUNT_GANG bp = DVA_GET_GANG (blk_dva0 bp) + DVA_GET_GANG (blk_dva1 bp) + DVA_GET_GANG (blk_dva2 bp)"

definition BP_IDENTITY :: "blkptr \<Rightarrow> dva" where
  "BP_IDENTITY bp = blk_dva0 bp"

definition BP_IS_GANG :: "blkptr \<Rightarrow> u64" where
  "BP_IS_GANG bp = DVA_GET_GANG (BP_IDENTITY bp)"

definition ZIO_CHECKSUM_EQUAL :: "zio_cksum \<Rightarrow> zio_cksum \<Rightarrow> bool" where
  "ZIO_CHECKSUM_EQUAL zc1 zc2 \<longleftrightarrow>
     0 = ((zc_word0 zc1 - zc_word0 zc2) OR (zc_word1 zc1 - zc_word1 zc2) OR
          (zc_word2 zc1 - zc_word2 zc2) OR (zc_word3 zc1 - zc_word3 zc2))"

definition ZIO_SET_CHECKSUM :: "u64 \<Rightarrow> u64 \<Rightarrow> u64 \<Rightarrow> u64 \<Rightarrow> zio_cksum" where
  "ZIO_SET_CHECKSUM w0 w1 w2 w3 = \<lparr>zc_word0 = w0, zc_word1 = w1, zc_word2 = w2, zc_word3 = w3\<rparr>"

definition BP_ZERO_DVAS :: "blkptr \<Rightarrow> blkptr" where
  "BP_ZERO_DVAS bp =
     bp\<lparr>blk_dva0 := \<lparr>dva_word0 = 0, dva_word1 = 0\<rparr>, blk_dva1 := \<lparr>dva_word0 = 0, dva_word1 = 0\<rparr>,
        blk_dva2 := \<lparr>dva_word0 = 0, dva_word1 = 0\<rparr>, blk_birth := 0\<rparr>"

definition BP_ZERO :: "blkptr \<Rightarrow> blkptr" where
  "BP_ZERO bp =
     (BP_ZERO_DVAS bp)\<lparr>blk_prop := 0, blk_pad := (0, 0, 0), blk_fill := 0,
        blk_cksum := ZIO_SET_CHECKSUM 0 0 0 0\<rparr>"

text \<open>The byte order of the host: \<open>0\<close> on big-endian machines (the s390x port), \<open>-1\<close> on
  little-endian ones.\<close>

definition ZFS_HOST_BYTEORDER :: "bool \<Rightarrow> u64" where
  "ZFS_HOST_BYTEORDER big_endian = (if big_endian then 0 else - 1)"

definition BP_SHOULD_BYTESWAP :: "bool \<Rightarrow> blkptr \<Rightarrow> bool" where
  "BP_SHOULD_BYTESWAP big_endian bp \<longleftrightarrow> BP_GET_BYTEORDER bp \<noteq> ZFS_HOST_BYTEORDER big_endian"

subsection \<open>Reading back a field\<close>

lemma BF64_GET_SET:
  assumes "low + len \<le> 64"
  shows "BF64_GET (BF64_SET x low len val) low len = take_bit len val"
  using assms by (intro bit_eqI) (auto simp: BF64_GET_def BF64_SET_def p2_simps bit_simps)

lemma BF64_GET_SET_other:
  assumes "low + len \<le> low' \<or> low' + len' \<le> low"
  shows "BF64_GET (BF64_SET x low' len' val) low len = BF64_GET x low len"
  using assms by (intro bit_eqI) (auto simp: BF64_GET_def BF64_SET_def p2_simps bit_simps)

lemmas bf_defs = BF64_GET_SB_def BF64_SET_SB_def SPA_MINBLOCKSHIFT_def

lemmas dva_defs = DVA_GET_ASIZE_def DVA_SET_ASIZE_def DVA_GET_GRID_def DVA_SET_GRID_def DVA_GET_VDEV_def
  DVA_SET_VDEV_def DVA_GET_OFFSET_def DVA_SET_OFFSET_def DVA_GET_GANG_def DVA_SET_GANG_def

lemmas bp_defs = BP_GET_LSIZE_def BP_SET_LSIZE_def BP_GET_PSIZE_def BP_SET_PSIZE_def BP_GET_COMPRESS_def
  BP_SET_COMPRESS_def BP_GET_CHECKSUM_def BP_SET_CHECKSUM_def BP_GET_TYPE_def BP_SET_TYPE_def
  BP_GET_LEVEL_def BP_SET_LEVEL_def BP_GET_BYTEORDER_def BP_SET_BYTEORDER_def BP_IS_HOLE_def

text \<open>The shifted and biased field of an aligned size: \<open>bias\<close> is \<open>1\<close> for sizes stored minus one.\<close>

lemma SB_read_back:
  assumes "take_bit s val = 0" "bias \<le> drop_bit s val" "unat (drop_bit s val - bias) < 2 ^ len"
  shows "push_bit s (take_bit len (drop_bit s val - bias) + bias) = (val :: u64)"
  using assms bits_ident [of s val] by (simp add: take_bit_small)

subsection \<open>Properties\<close>



text \<open>C21: the property word of a block pointer. After the sizes, the compression, checksum, type, level
  and byte order have been set, in any previous state of the word, each reads back the value stored: the
  two sizes cover the multiples of 512 bytes from 512 bytes to 32MB, and the byte order reads back as the
  host's.\<close>

theorem bp_fields_roundtrip:
  assumes "P2PHASE lsize SPA_MINBLOCKSIZE = 0" "0 < lsize" "unat lsize \<le> 2 ^ 25"
    and "P2PHASE psize SPA_MINBLOCKSIZE = 0" "0 < psize" "unat psize \<le> 2 ^ 25"
    and "unat compress < 2 ^ 8" "unat cksum < 2 ^ 8" "unat type < 2 ^ 8" "unat level < 2 ^ 5"
    and "\<not> BP_IS_HOLE bp"
    and "bq = BP_SET_BYTEORDER (BP_SET_LEVEL (BP_SET_TYPE (BP_SET_CHECKSUM (BP_SET_COMPRESS (BP_SET_PSIZE
           (BP_SET_LSIZE bp lsize) psize) compress) cksum) type) level) (ZFS_HOST_BYTEORDER be)"
  shows "BP_GET_LSIZE bq = lsize \<and> BP_GET_PSIZE bq = psize \<and> BP_GET_COMPRESS bq = compress \<and>
    BP_GET_CHECKSUM bq = cksum \<and> BP_GET_TYPE bq = type \<and> BP_GET_LEVEL bq = level \<and>
    BP_GET_BYTEORDER bq = ZFS_HOST_BYTEORDER be \<and> BP_SHOULD_BYTESWAP be bq = False \<and>
    BP_SHOULD_BYTESWAP (\<not> be) bq"
proof -
  have sz: "push_bit 9 (take_bit 16 (drop_bit 9 x - 1) + 1) = x"
    if "P2PHASE x SPA_MINBLOCKSIZE = 0" "0 < x" "unat x \<le> 2 ^ 25" for x :: u64
  proof -
    have t: "take_bit 9 x = 0"
      using that(1) by (simp add: SPA_MINBLOCKSIZE_def SPA_MINBLOCKSHIFT_def flip: P2PHASE_take_bit)
    then have "drop_bit 9 x \<noteq> 0" using that(2) bits_ident [of 9 x] by auto
    then have le: "1 \<le> drop_bit 9 x" by (simp add: unat_gt_0 word_le_nat_alt Suc_le_eq)
    have "unat (drop_bit 9 x) \<le> 2 ^ 16"
      using that(3) by (simp add: unat_drop_bit)
    then have "unat (drop_bit 9 x - 1) < 2 ^ 16" using le unat_sub [OF le] by (simp add: word_le_nat_alt)
    then show ?thesis by (rule SB_read_back [OF t le])
  qed
  have o: "0 - take_bit 1 (ZFS_HOST_BYTEORDER b) = ZFS_HOST_BYTEORDER b" for b
    by (cases b) (simp_all add: ZFS_HOST_BYTEORDER_def)
  have n: "blk_birth bp \<noteq> 0" using assms(11) by (simp add: BP_IS_HOLE_def)
  show ?thesis
    unfolding assms(12) BP_SHOULD_BYTESWAP_def
    using assms(7-10) n sz [OF assms(1-3)] sz [OF assms(4-6)] o [of be]
    by (simp add: bp_defs bf_defs BF64_GET_SET BF64_GET_SET_other take_bit_small)
      (simp add: ZFS_HOST_BYTEORDER_def)
qed

theorem bp_fields_roundtrip_witness:
  "\<exists>bp. BP_GET_LSIZE (BP_SET_BYTEORDER (BP_SET_LEVEL (BP_SET_TYPE (BP_SET_CHECKSUM (BP_SET_COMPRESS (BP_SET_PSIZE
     (BP_SET_LSIZE bp 0x20000) 0x1000) 3) 2) 19) 1) (ZFS_HOST_BYTEORDER True)) = 0x20000"
proof -
  define d where "d = \<lparr>dva_word0 = 0, dva_word1 = 0\<rparr>"
  define bp where "bp = \<lparr>blk_dva0 = d, blk_dva1 = d, blk_dva2 = d, blk_prop = - 1, blk_pad = (0, 0, 0),
    blk_birth = 5, blk_fill = 1, blk_cksum = ZIO_SET_CHECKSUM 0 0 0 0\<rparr>"
  have "\<not> BP_IS_HOLE bp" by (simp add: bp_def BP_IS_HOLE_def)
  from bp_fields_roundtrip [where lsize = "0x20000" and psize = "0x1000" and compress = 3 and cksum = 2 and
    type = 19 and level = 1 and be = True, OF _ _ _ _ _ _ _ _ _ _ this refl]
  show ?thesis by (auto simp: SPA_MINBLOCKSIZE_def SPA_MINBLOCKSHIFT_def P2PHASE_def)
qed

text \<open>Two checksums compare equal exactly when all four words are equal, although the test is made
  without branches, on the union of the differences.\<close>

lemma ZIO_CHECKSUM_EQUAL_correct: "ZIO_CHECKSUM_EQUAL zc1 zc2 \<longleftrightarrow> zc1 = zc2"
proof -
  have "a OR b = 0 \<longleftrightarrow> a = 0 \<and> b = 0" for a b :: u64 by (rule or_eq_0_iff)
  then have "ZIO_CHECKSUM_EQUAL zc1 zc2 \<longleftrightarrow> zc_word0 zc1 = zc_word0 zc2 \<and> zc_word1 zc1 = zc_word1 zc2 \<and>
    zc_word2 zc1 = zc_word2 zc2 \<and> zc_word3 zc1 = zc_word3 zc2"
    unfolding ZIO_CHECKSUM_EQUAL_def by (subst eq_commute) simp
  then show ?thesis by auto
qed

end
