(* ===== verification/Metaslab_FF.thy ===== *)
theory Metaslab_FF
  imports Space_Map_Properties Bitops
begin

text \<open>
  The block picker of a space map. The locale \<open>block_picker\<close> is the contract of an ops vector
  (\<^verbatim>\<open>space_map_ops_t\<close>) that \<^verbatim>\<open>space_map_alloc\<close>, \<^verbatim>\<open>space_map_claim\<close>, \<^verbatim>\<open>space_map_free\<close> and
  \<^verbatim>\<open>space_map_unload\<close> rely on; it is interpreted on the first-fit allocator of
  \<^verbatim>\<open>src/usr/src/uts/common/fs/zfs/metaslab.c\<close>, the only vector of the system.
\<close>

subsection \<open>The contract of a block picker\<close>

text \<open>An allocation size a map can serve: a non-zero multiple of the map's unit, small enough that
  rounding past the end of the map cannot wrap around.\<close>

definition alloc_size_ok :: "space_map \<Rightarrow> u64 \<Rightarrow> bool" where
  "alloc_size_ok sm sz \<longleftrightarrow> sz \<noteq> 0 \<and> space_map_aligned sm sz \<and>
     unat (sm_start sm) + unat (sm_size sm) + 2 * unat sz < 2 ^ 64"

definition alloc_fits :: "space_map \<Rightarrow> u64 \<Rightarrow> u64 \<Rightarrow> bool" where
  "alloc_fits sm sz start \<longleftrightarrow> start \<noteq> - 1 \<and> space_map_aligned sm start \<and> start < start + sz \<and>
     {start ..< start + sz} \<subseteq> space_map_set sm"

locale block_picker =
  fixes ops :: space_map_ops and pinv :: "space_map \<Rightarrow> bool"
  assumes load_law: "\<exists>q. smop_load ops sm = sm\<lparr>sm_ppd := q\<rparr> \<and> pinv (smop_load ops sm)"
    and unload_law: "\<exists>q. smop_unload ops sm = sm\<lparr>sm_ppd := q\<rparr>"
    and alloc_law: "space_map_inv sm \<Longrightarrow> pinv sm \<Longrightarrow> alloc_size_ok sm sz \<Longrightarrow>
      \<exists>start q. smop_alloc ops sm sz = Some (start, sm\<lparr>sm_ppd := q\<rparr>) \<and> pinv (sm\<lparr>sm_ppd := q\<rparr>) \<and>
        (start = - 1 \<or> alloc_fits sm sz start)"
    and claim_law: "smop_claim ops sm start sz = sm"
    and free_law: "smop_free ops sm start sz = sm"
    and pinv_same: "pinv sm \<Longrightarrow> space_map_same sm sm' \<Longrightarrow> pinv sm'"
    and pinv_flags: "pinv (sm\<lparr>sm_loaded := b\<rparr>) = pinv sm" "pinv (sm\<lparr>sm_loading := b\<rparr>) = pinv sm"
      "pinv (sm\<lparr>sm_ops := p\<rparr>) = pinv sm"
begin

text \<open>A map that is loaded with this picker.\<close>

definition picking :: "(space_map_opsp \<Rightarrow> space_map_ops) \<Rightarrow> space_map \<Rightarrow> bool" where
  "picking vec sm \<longleftrightarrow> space_map_inv sm \<and> (\<exists>p. sm_ops sm = Some p \<and> vec p = ops) \<and> pinv sm"

lemma picking_same: "picking vec sm \<Longrightarrow> space_map_inv sm' \<Longrightarrow> space_map_same sm sm' \<Longrightarrow> picking vec sm'"
  using pinv_same [of sm sm'] by (auto simp: picking_def space_map_same_simps(6))

lemma space_map_alloc_law:
  assumes "picking vec sm" "alloc_size_ok sm sz"
  shows "\<exists>start sm' q. space_map_alloc zr vec sm sz = Some (start, sm') \<and> picking vec sm' \<and>
    space_map_same (sm\<lparr>sm_ppd := q\<rparr>) sm' \<and>
    (start = - 1 \<and> sm' = sm\<lparr>sm_ppd := q\<rparr> \<or>
     alloc_fits sm sz start \<and> space_map_set sm' = space_map_set sm - {start ..< start + sz} \<and>
     sm_space sm' = sm_space sm - sz)"
proof -
  obtain p where p: "sm_ops sm = Some p" "vec p = ops" and inv: "space_map_inv sm" "pinv sm"
    using assms(1) by (auto simp: picking_def)
  obtain start q where a: "smop_alloc ops sm sz = Some (start, sm\<lparr>sm_ppd := q\<rparr>)" "pinv (sm\<lparr>sm_ppd := q\<rparr>)"
      "start = - 1 \<or> alloc_fits sm sz start"
    using alloc_law [OF inv assms(2)] by (elim exE conjE)
  have pk: "picking vec (sm\<lparr>sm_ppd := q\<rparr>)" using inv p a(2) by (simp add: picking_def)
  show ?thesis
  proof (cases "start = - 1")
    case True
    then show ?thesis using a(1) p pk
      by (intro exI [of _ start] exI [of _ "sm\<lparr>sm_ppd := q\<rparr>"] exI [of _ q]) (simp add: space_map_alloc_def)
  next
    case False
    let ?m = "sm\<lparr>sm_ppd := q\<rparr>"
    have f: "alloc_fits sm sz start" using a(3) False by simp
    have al: "space_map_aligned ?m start" "space_map_aligned ?m sz"
      using f assms(2) by (simp_all add: alloc_fits_def alloc_size_ok_def space_map_aligned_def)
    have ne: "start < start + sz" and sub: "{start ..< start + sz} \<subseteq> space_map_set ?m"
      using f by (simp_all add: alloc_fits_def)
    have inv': "space_map_inv ?m" using inv(1) by simp
    obtain sm' where r: "space_map_remove zr ?m start sz = Some sm'" "space_map_inv sm'"
        "space_map_set sm' = space_map_set ?m - {start ..< start + sz}" "sm_space sm' = sm_space ?m - sz"
        "\<exists>t. sm' = ?m\<lparr>sm_root := t, sm_space := sm_space ?m - sz\<rparr>"
      by (rule space_map_remove_ok [OF inv' al ne sub])
    have same: "space_map_same ?m sm'" using r(5) by auto
    have "space_map_alloc zr vec sm sz = Some (start, sm')"
      using False a(1) p r(1) by (simp add: space_map_alloc_def)
    then show ?thesis
      using False f r(3,4) same picking_same [OF pk r(2) same] by (intro exI [of _ start] exI [of _ sm'] exI [of _ q]) simp
  qed
qed

lemma space_map_free_law:
  assumes "picking vec sm" "range_in_map sm start sz" "space_map_set sm \<inter> {start ..< start + sz} = {}"
  shows "\<exists>sm'. space_map_free zr vec sm start sz = Some sm' \<and> picking vec sm' \<and> space_map_same sm sm' \<and>
    space_map_set sm' = space_map_set sm \<union> {start ..< start + sz}"
proof -
  have inv: "space_map_inv sm" using assms(1) by (simp add: picking_def)
  obtain sm' where s: "space_map_add zr sm start sz = Some sm'" "space_map_inv sm'" "space_map_same sm sm'"
      "space_map_set sm' = space_map_set sm \<union> {start ..< start + sz}"
    using sm_add.func_law [OF inv assms(2,3), of zr] by (elim exE conjE)
  have pk: "picking vec sm'" by (rule picking_same [OF assms(1) s(2,3)])
  then obtain p where "sm_ops sm' = Some p" "vec p = ops" by (auto simp: picking_def)
  then have "space_map_free zr vec sm start sz = Some sm'" using s(1) by (simp add: space_map_free_def free_law)
  then show ?thesis using pk s(3,4) by (intro exI [of _ sm']) simp
qed

lemma space_map_claim_law:
  assumes "picking vec sm" "range_in_map sm start sz" "{start ..< start + sz} \<subseteq> space_map_set sm"
  shows "\<exists>sm'. space_map_claim zr vec sm start sz = Some sm' \<and> picking vec sm' \<and> space_map_same sm sm' \<and>
    space_map_set sm' = space_map_set sm - {start ..< start + sz}"
proof -
  have inv: "space_map_inv sm" using assms(1) by (simp add: picking_def)
  obtain sm' where s: "space_map_remove zr sm start sz = Some sm'" "space_map_inv sm'" "space_map_same sm sm'"
      "space_map_set sm' = space_map_set sm - {start ..< start + sz}"
    using sm_remove.func_law [OF inv assms(2,3), of zr] by (elim exE conjE)
  obtain p where "sm_ops sm = Some p" "vec p = ops" using assms(1) by (auto simp: picking_def)
  then have "space_map_claim zr vec sm start sz = Some sm'"
    using s(1) by (simp add: space_map_claim_def claim_law)
  then show ?thesis using picking_same [OF assms(1) s(2,3)] s(3,4) by (intro exI [of _ sm']) simp
qed

lemma space_map_load_law:
  assumes "maptype = SM_ALLOC \<or> maptype = SM_FREE" "space_map_unloaded sm" "smo_holds sm smo obj A"
    and "object_reads_or_fails (dmu_read (smo_object smo)) obj" "vec p = ops"
  shows "\<exists>error sm'. space_map_load zr vec dmu_read sm (Some p) maptype smo = Some (error, sm') \<and>
    space_map_inv sm' \<and> sm_start sm' = sm_start sm \<and> sm_size sm' = sm_size sm \<and> sm_shift sm' = sm_shift sm \<and>
    \<not> sm_loading sm' \<and>
    (if error = 0 then sm_loaded sm' \<and> picking vec sm' \<and> space_map_set sm' = map_view maptype sm A
     else space_map_unloaded sm' \<and> \<not> object_reads (dmu_read (smo_object smo)) obj)"
proof (rule space_map_load_ok [where dmu_read = dmu_read and zr = zr and vec = vec and ops = "Some p", OF assms(1-4)], goal_cases)
  case (1 d)
  obtain q where q: "smop_load ops d = d\<lparr>sm_ppd := q\<rparr>" "pinv (smop_load ops d)" using load_law [of d] by (elim exE conjE)
  have d: "sm_loaded d" "sm_ops d = Some p" "sm_start d = sm_start sm" "sm_size d = sm_size sm" "sm_shift d = sm_shift sm"
    using arg_cong [OF 1(4), of sm_loaded] arg_cong [OF 1(4), of sm_ops] arg_cong [OF 1(4), of sm_start]
      arg_cong [OF 1(4), of sm_size] arg_cong [OF 1(4), of sm_shift] by simp_all
  have "space_map_load zr vec dmu_read sm (Some p) maptype smo = Some (0, d\<lparr>sm_ppd := q, sm_loading := False\<rparr>)"
    using 1(1) q(1) assms(5) by simp
  moreover have "picking vec (d\<lparr>sm_ppd := q, sm_loading := False\<rparr>)"
    using 1(2) d(2) assms(5) q by (simp add: picking_def pinv_flags)
  ultimately show ?case using 1(2,3) d by (intro exI [of _ 0] exI [of _ "d\<lparr>sm_ppd := q, sm_loading := False\<rparr>"]) simp
next
  case (2 error)
  have u: "space_map_inv sm" "\<not> sm_loaded sm" "\<not> sm_loading sm" "range_in_map sm (sm_start sm) (sm_size sm)"
    using assms(2) by (simp_all add: space_map_unloaded_def)
  have "space_map_unloaded (space_map_emptied sm)"
    using u space_map_emptied_ok [OF u(1)] by (simp add: space_map_unloaded_def space_map_same_simps)
  then show ?case
    using 2 space_map_emptied_ok [OF u(1)] u unfolding space_map_emptied_def [symmetric]
    by (intro exI [of _ error] exI [of _ "space_map_emptied sm"]) (simp add: space_map_same_simps)
qed

lemma space_map_unload_law:
  assumes "picking vec sm" "sm_loaded sm"
  shows "\<exists>q. space_map_unload vec sm = Some (space_map_emptied (sm\<lparr>sm_ppd := q, sm_loaded := False, sm_ops := None\<rparr>))"
proof -
  obtain q where q: "smop_unload ops sm = sm\<lparr>sm_ppd := q\<rparr>" using unload_law [of sm] by (elim exE)
  have "space_map_inv (sm\<lparr>sm_ppd := q, sm_loaded := False, sm_ops := None\<rparr>)"
    using assms(1) by (simp add: picking_def)
  then show ?thesis
    using assms q space_map_vacate_none [of "sm\<lparr>sm_ppd := q, sm_loaded := False, sm_ops := None\<rparr>" "()"]
    by (auto simp: space_map_unload_def picking_def intro!: exI [of _ q])
qed

end

subsection \<open>The first-fit allocator\<close>

definition metaslab_ff_load :: "space_map \<Rightarrow> space_map" where
  "metaslab_ff_load sm = sm\<lparr>sm_ppd := Some (replicate 64 0)\<rparr>"

definition metaslab_ff_unload :: "space_map \<Rightarrow> space_map" where
  "metaslab_ff_unload sm = sm\<lparr>sm_ppd := None\<rparr>"

text \<open>The search loop from a segment on; \<open>None\<close> is running out of fuel, \<open>Some None\<close> that no
  segment fits.\<close>

fun metaslab_ff_search ::
  "nat \<Rightarrow> space_seg avl_tree \<Rightarrow> space_seg option \<Rightarrow> u64 \<Rightarrow> u64 \<Rightarrow> u64 option option" where
  "metaslab_ff_search fuel t None align sz = Some None"
| "metaslab_ff_search 0 t (Some ss) align sz = None"
| "metaslab_ff_search (Suc fuel) t (Some ss) align sz =
     (let offset = P2ROUNDUP (ss_start ss) align
      in if offset + sz \<le> ss_end ss then Some (Some offset)
         else metaslab_ff_search fuel t (avl_walk t ss ChRight) align sz)"

text \<open>The index of the cursor an allocation of a size uses.\<close>

function metaslab_ff_alloc :: "space_map \<Rightarrow> u64 \<Rightarrow> (u64 \<times> space_map) option" where
  "metaslab_ff_alloc sm sz =
     (case sm_ppd sm of
        None \<Rightarrow> None
      | Some ppd \<Rightarrow>
          let t = sm_root sm;
              align = sz AND - sz;
              i = highbit align - 1
          in if highbit align = 0 \<or> length ppd \<le> i then None
             else
               let cursor = ppd ! i;
                   ss = (case avl_find t (space_seg cursor (cursor + sz)) of
                           Inl ss \<Rightarrow> Some ss
                         | Inr where \<Rightarrow> avl_nearest t where ChRight)
               in (case metaslab_ff_search (avl_numnodes t) t ss align sz of
                     None \<Rightarrow> None
                   | Some (Some offset) \<Rightarrow> Some (offset, sm\<lparr>sm_ppd := Some (ppd[i := offset + sz])\<rparr>)
                   | Some None \<Rightarrow>
                       if cursor = 0 then Some (- 1, sm)
                       else metaslab_ff_alloc (sm\<lparr>sm_ppd := Some (ppd[i := 0])\<rparr>) sz))"
  by pat_completeness auto
termination
  by (relation "measure (\<lambda>(sm, sz). case sm_ppd sm of None \<Rightarrow> 0
        | Some ppd \<Rightarrow> if ppd ! (highbit (sz AND - sz) - 1) = 0 then 0 else 1)") auto

declare metaslab_ff_alloc.simps [simp del]

definition metaslab_ff_claim :: "space_map \<Rightarrow> u64 \<Rightarrow> u64 \<Rightarrow> space_map" where
  "metaslab_ff_claim sm start sz = sm"

definition metaslab_ff_free :: "space_map \<Rightarrow> u64 \<Rightarrow> u64 \<Rightarrow> space_map" where
  "metaslab_ff_free sm start sz = sm"

definition metaslab_ff_ops :: space_map_ops where
  "metaslab_ff_ops =
     \<lparr>smop_load = metaslab_ff_load, smop_unload = metaslab_ff_unload, smop_alloc = metaslab_ff_alloc,
      smop_claim = metaslab_ff_claim, smop_free = metaslab_ff_free\<rparr>"

text \<open>The vector an ops pointer designates.\<close>

fun ops_vec :: "space_map_opsp \<Rightarrow> space_map_ops" where
  "ops_vec Metaslab_ff_ops = metaslab_ff_ops"

subsection \<open>First fit\<close>

text \<open>The first segment of a list into which an aligned block fits, and its offset there.\<close>

fun ff_first :: "space_seg list \<Rightarrow> u64 \<Rightarrow> u64 \<Rightarrow> u64 option" where
  "ff_first [] align sz = None"
| "ff_first (s # xs) align sz =
     (if P2ROUNDUP (ss_start s) align + sz \<le> ss_end s then Some (P2ROUNDUP (ss_start s) align)
      else ff_first xs align sz)"

lemma ff_search_list:
  assumes "distinct (avl_list t)" "avl_list t = xs @ ys" "length ys \<le> fuel"
  shows "metaslab_ff_search fuel t (case ys of [] \<Rightarrow> None | y # _ \<Rightarrow> Some y) align sz = Some (ff_first ys align sz)"
  using assms(2,3)
proof (induction ys arbitrary: xs fuel)
  case (Cons y ys)
  then obtain f where f: "fuel = Suc f" by (cases fuel) auto
  have w: "avl_walk t y ChRight = (case ys of [] \<Rightarrow> None | z # _ \<Rightarrow> Some z)"
    using avl_walk_next [OF assms(1) Cons.prems(1)] by simp
  show ?case using Cons.IH [of "xs @ [y]" f] Cons.prems w f by (simp add: Let_def)
qed simp

definition ff_inv :: "space_map \<Rightarrow> bool" where
  "ff_inv sm \<longleftrightarrow> (\<exists>ppd. sm_ppd sm = Some ppd \<and> length ppd = 64 \<and>
     (\<forall>c \<in> set ppd. unat c \<le> unat (sm_start sm) + unat (sm_size sm)))"

text \<open>The segment the search starts from: every earlier one ends before the cursor plus the size.\<close>

definition ff_start :: "space_map \<Rightarrow> u64 \<Rightarrow> u64 \<Rightarrow> space_seg option" where
  "ff_start sm cursor sz = (case avl_find (sm_root sm) (space_seg cursor (cursor + sz)) of
      Inl ss \<Rightarrow> Some ss | Inr where \<Rightarrow> avl_nearest (sm_root sm) where ChRight)"

lemma ff_start_spec:
  assumes inv: "space_map_inv sm" and lt: "cursor < cursor + sz"
  obtains xs ys where "space_map_segs sm = xs @ ys"
    "ff_start sm cursor sz = (case ys of [] \<Rightarrow> None | y # _ \<Rightarrow> Some y)" "\<forall>x \<in> set xs. ss_end x < cursor + sz"
  using inv lt
proof (cases rule: space_map_find)
  case (hit s xs ys)
  have "segs_ok (xs @ s # ys)" using inv hit(2) by (simp add: space_map_inv_def)
  then have "\<forall>x \<in> set xs. ss_end x < cursor + sz" using hit(3) by (force simp: segs_ok_append)
  then show thesis using that [of xs "s # ys"] hit(1,2) by (simp add: ff_start_def)
next
  case (miss w)
  have "\<forall>x \<in> set (avl_before w). ss_end x < cursor + sz" using miss(4) lt by (force simp: seg_fits_def)
  then show thesis using that [of "avl_before w" "avl_after w"] miss(1,3) by (simp add: ff_start_def avl_nearest_after)
qed

lemma ff_first_Some: "ff_first ys align sz = Some off \<Longrightarrow>
    \<exists>s \<in> set ys. off = P2ROUNDUP (ss_start s) align \<and> off + sz \<le> ss_end s"
  by (induction ys) (auto split: if_splits)

lemma ff_first_None: "ff_first ys align sz = None \<Longrightarrow>
    \<forall>s \<in> set ys. \<not> P2ROUNDUP (ss_start s) align + sz \<le> ss_end s"
  by (induction ys) (auto split: if_splits)

text \<open>The facts about a size that the search needs.\<close>

lemma alloc_size_align:
  assumes "alloc_size_ok sm sz"
  obtains k where "k < 64" "sz AND - sz = 2 ^ k" "highbit (sz AND - sz) = Suc k" "sm_shift sm \<le> k"
    "2 ^ k \<le> unat sz" "take_bit k sz = 0"
proof -
  obtain k where k: "k < 64" "sz AND - sz = 2 ^ k" "take_bit k sz = 0" "2 ^ k \<le> unat sz" "highbit (sz AND - sz) = Suc k"
    using low_bit_isolate [of sz] assms by (auto simp: alloc_size_ok_def)
  have "sm_shift sm \<le> k"
  proof (rule ccontr)
    assume "\<not> sm_shift sm \<le> k"
    then have n: "\<not> bit sz k" using assms by (metis alloc_size_ok_def aligned_iff bit_take_bit_iff bit_0_eq bot_apply bot_bool_def not_le)
    have "bit (sz AND - sz) k" unfolding k(2) using k(1) by (simp add: bit_simps)
    then show False using n by (simp add: bit_simps)
  qed
  then show thesis using that k by blast
qed

lemma round_in_seg:
  assumes inv: "space_map_inv sm" and sz: "alloc_size_ok sm sz" and s: "s \<in> set (space_map_segs sm)"
    and k: "k < 64" "2 ^ k \<le> unat sz"
  shows "take_bit k (P2ROUNDUP (ss_start s) (2 ^ k)) = 0" "ss_start s \<le> P2ROUNDUP (ss_start s) (2 ^ k)"
    "P2ROUNDUP (ss_start s) (2 ^ k) < P2ROUNDUP (ss_start s) (2 ^ k) + sz"
    "take_bit k y = 0 \<Longrightarrow> ss_start s \<le> y \<Longrightarrow> P2ROUNDUP (ss_start s) (2 ^ k) \<le> y"
proof -
  have im: "seg_in_map sm s" and lt: "ss_start s < ss_end s" and le: "sm_start sm \<le> sm_start sm + sm_size sm"
    using inv s by (simp_all add: space_map_inv_def segs_ok_def)
  have "unat (ss_start s) \<le> unat (sm_start sm) + unat (sm_size sm)"
    using im lt unat_add64 [OF no_overflow [OF le]] by (simp add: seg_in_map_def word_le_nat_alt word_less_nat_alt)
  then have b: "unat (ss_start s) + 2 * unat sz < 2 ^ 64" using sz by (simp add: alloc_size_ok_def)
  then have b': "unat (ss_start s) + 2 ^ k \<le> 2 ^ 64" using k(2) by linarith
  note r = P2ROUNDUP_spec [OF k(1) b']
  show "take_bit k (P2ROUNDUP (ss_start s) (2 ^ k)) = 0" "ss_start s \<le> P2ROUNDUP (ss_start s) (2 ^ k)"
    by (rule r)+
  have "unat (P2ROUNDUP (ss_start s) (2 ^ k)) + unat sz < 2 ^ 64" using r(3) b k(2) by linarith
  then show "P2ROUNDUP (ss_start s) (2 ^ k) < P2ROUNDUP (ss_start s) (2 ^ k) + sz"
    using sz by (simp add: word_less_nat_alt unat_add64 alloc_size_ok_def unat_gt_0)
  show "take_bit k y = 0 \<Longrightarrow> ss_start s \<le> y \<Longrightarrow> P2ROUNDUP (ss_start s) (2 ^ k) \<le> y" by (rule r(4))
qed

text \<open>A block found by the search, and what its failure means.\<close>

lemma ff_found:
  assumes inv: "space_map_inv sm" and sz: "alloc_size_ok sm sz" and l: "space_map_segs sm = xs @ ys"
    and k: "k < 64" "2 ^ k \<le> unat sz" "sm_shift sm \<le> k" and f: "ff_first ys (2 ^ k) sz = Some off"
  shows "alloc_fits sm sz off" "take_bit k off = 0" "unat (off + sz) \<le> unat (sm_start sm) + unat (sm_size sm)"
proof -
  obtain s where s: "s \<in> set ys" "off = P2ROUNDUP (ss_start s) (2 ^ k)" "off + sz \<le> ss_end s"
    using ff_first_Some [OF f] by blast
  have sin: "s \<in> set (space_map_segs sm)" using s(1) l by simp
  note r = round_in_seg [OF inv sz sin k(1,2), folded s(2)]
  show tk: "take_bit k off = 0" by (rule r(1))
  have "take_bit (sm_shift sm) off = 0" using tk k(3) by (metis take_bit_take_bit min.absorb1 take_bit_of_0)
  moreover have "{off ..< off + sz} \<subseteq> space_map_set sm"
    using r(2) s(3) sin by (force simp: space_map_set_def segs_set_def)
  moreover have "off \<noteq> - 1" using r(3) word_order.extremum [of "off + sz"] by auto
  ultimately show "alloc_fits sm sz off" using r(3) by (simp add: alloc_fits_def aligned_iff)
  have e: "ss_end s \<le> sm_start sm + sm_size sm" and b: "sm_start sm \<le> sm_start sm + sm_size sm"
    using inv sin by (simp_all add: space_map_inv_def seg_in_map_def)
  show "unat (off + sz) \<le> unat (sm_start sm) + unat (sm_size sm)"
    using order_trans [OF s(3) e] unfolding word_le_nat_alt unat_add64 [OF no_overflow [OF b]] .
qed

definition ff_no_fit :: "space_map \<Rightarrow> u64 \<Rightarrow> bool" where
  "ff_no_fit sm sz \<longleftrightarrow> (\<forall>off. P2PHASE off (sz AND - sz) = 0 \<longrightarrow> off < off + sz \<longrightarrow>
     \<not> {off ..< off + sz} \<subseteq> space_map_set sm)"

lemma ff_not_found:
  assumes inv: "space_map_inv sm" and sz: "alloc_size_ok sm sz" and l: "space_map_segs sm = xs @ ys"
    and k: "k < 64" "2 ^ k \<le> unat sz" "sz AND - sz = 2 ^ k" and f: "ff_first ys (2 ^ k) sz = None"
    and skip: "\<forall>x \<in> set xs. ss_end x < sz"
  shows "ff_no_fit sm sz"
  unfolding ff_no_fit_def
proof (intro allI impI notI)
  fix off assume ph: "P2PHASE off (sz AND - sz) = 0" and lt: "off < off + sz" and sub: "{off ..< off + sz} \<subseteq> space_map_set sm"
  have al: "take_bit k off = 0" using ph k(3) by (simp add: p2_simps)
  have ok: "segs_ok (space_map_segs sm)" using inv by (simp add: space_map_inv_def)
  obtain s where s: "s \<in> set (space_map_segs sm)" "ss_start s \<le> off" "off + sz \<le> ss_end s"
    using segs_cover [OF ok lt] sub by (auto simp: space_map_set_def)
  have u: "unat (off + sz) = unat off + unat sz" by (rule unat_add64 [OF no_overflow [OF less_imp_le [OF lt]]])
  then have "sz \<le> off + sz" by (simp add: word_le_nat_alt)
  then have "\<not> ss_end s < sz" using s(3) by simp
  then have "s \<in> set ys" using s(1) l skip by auto
  moreover have "P2ROUNDUP (ss_start s) (2 ^ k) + sz \<le> off + sz"
    using round_in_seg(4) [OF inv sz s(1) k(1,2) al s(2)] u unat_add64 [of "P2ROUNDUP (ss_start s) (2 ^ k)" sz]
      unat_lt64 [of "off + sz"]
    by (simp add: word_le_nat_alt)
  ultimately show False using ff_first_None [OF f] s(3) by auto
qed

text \<open>One round of the allocator, in terms of the list of segments.\<close>

lemma ff_alloc_unfold:
  assumes inv: "space_map_inv sm" and p: "sm_ppd sm = Some ppd" "length ppd = 64"
    and k: "k < 64" "sz AND - sz = 2 ^ k" "highbit (sz AND - sz) = Suc k"
    and l: "space_map_segs sm = xs @ ys" and st: "ff_start sm (ppd ! k) sz = (case ys of [] \<Rightarrow> None | y # _ \<Rightarrow> Some y)"
  shows "metaslab_ff_alloc sm sz =
    (case ff_first ys (2 ^ k) sz of
       Some off \<Rightarrow> Some (off, sm\<lparr>sm_ppd := Some (ppd[k := off + sz])\<rparr>)
     | None \<Rightarrow> if ppd ! k = 0 then Some (- 1, sm) else metaslab_ff_alloc (sm\<lparr>sm_ppd := Some (ppd[k := 0])\<rparr>) sz)"
proof -
  note D = space_map_invD [OF inv]
  have "length ys \<le> avl_numnodes (sm_root sm)" using D(1) l by (simp add: avl_wf_def space_map_segs_def)
  from ff_search_list [OF D(4) l [unfolded space_map_segs_def] this]
  have s: "metaslab_ff_search (avl_numnodes (sm_root sm)) (sm_root sm) (ff_start sm (ppd ! k) sz) (2 ^ k) sz =
      Some (ff_first ys (2 ^ k) sz)"
    by (simp add: st)
  show ?thesis
    using k(1) by (subst metaslab_ff_alloc.simps)
      (simp add: p k(3) [unfolded k(2)] k(2) Let_def ff_start_def [symmetric] s split: option.split)
qed

lemma ff_alloc_round:
  assumes inv: "space_map_inv sm" and ff: "ff_inv sm" and sz: "alloc_size_ok sm sz"
    and p: "sm_ppd sm = Some ppd" and k: "k < 64" "sz AND - sz = 2 ^ k" "highbit (sz AND - sz) = Suc k" "sm_shift sm \<le> k"
      "2 ^ k \<le> unat sz"
  obtains (found) off where "metaslab_ff_alloc sm sz = Some (off, sm\<lparr>sm_ppd := Some (ppd[k := off + sz])\<rparr>)"
      "alloc_fits sm sz off" "take_bit k off = 0" "ff_inv (sm\<lparr>sm_ppd := Some (ppd[k := off + sz])\<rparr>)"
    | (wrap) "ppd ! k \<noteq> 0" "metaslab_ff_alloc sm sz = metaslab_ff_alloc (sm\<lparr>sm_ppd := Some (ppd[k := 0])\<rparr>) sz"
        "ff_inv (sm\<lparr>sm_ppd := Some (ppd[k := 0])\<rparr>)"
    | (full) "metaslab_ff_alloc sm sz = Some (- 1, sm)" "ff_no_fit sm sz"
proof -
  have len: "length ppd = 64" and c: "\<forall>c \<in> set ppd. unat c \<le> unat (sm_start sm) + unat (sm_size sm)"
    using ff p by (auto simp: ff_inv_def)
  have "unat (ppd ! k) \<le> unat (sm_start sm) + unat (sm_size sm)" using c len k(1) by simp
  moreover have "unat (sm_start sm) + unat (sm_size sm) + 2 * unat sz < 2 ^ 64" using sz by (simp add: alloc_size_ok_def)
  ultimately have "unat (ppd ! k) + unat sz < 2 ^ 64" by linarith
  then have lt: "ppd ! k < ppd ! k + sz"
    using sz by (simp add: word_less_nat_alt unat_add64 alloc_size_ok_def unat_gt_0)
  obtain xs ys where l: "space_map_segs sm = xs @ ys"
      "ff_start sm (ppd ! k) sz = (case ys of [] \<Rightarrow> None | y # _ \<Rightarrow> Some y)" "\<forall>x \<in> set xs. ss_end x < ppd ! k + sz"
    by (rule ff_start_spec [OF inv lt])
  note unf = ff_alloc_unfold [OF inv p len k(1-3) l(1,2)]
  have upd: "ff_inv (sm\<lparr>sm_ppd := Some (ppd[k := v])\<rparr>)" if "unat v \<le> unat (sm_start sm) + unat (sm_size sm)" for v
    using that c len by (auto simp: ff_inv_def dest!: set_update_subset_insert [THEN subsetD])
  show thesis
  proof (cases "ff_first ys (2 ^ k) sz")
    case (Some off)
    note f = ff_found [OF inv sz l(1) k(1,5,4) Some]
    show thesis using found [of off] unf Some f upd [OF f(3)] by simp
  next
    case None
    show thesis
    proof (cases "ppd ! k = 0")
      case True
      then have "ff_no_fit sm sz" using ff_not_found [OF inv sz l(1) k(1,5,2) None] l(3) by simp
      then show thesis using full unf None True by simp
    next
      case False
      have "metaslab_ff_alloc sm sz = metaslab_ff_alloc (sm\<lparr>sm_ppd := Some (ppd[k := 0])\<rparr>) sz"
        using unf unfolding None by (simp only: option.case False if_False)
      from wrap [OF False this upd] show thesis by simp
    qed
  qed
qed

lemma ff_alloc_spec:
  assumes inv: "space_map_inv sm" and ff: "ff_inv sm" and sz: "alloc_size_ok sm sz"
  shows "\<exists>start q. metaslab_ff_alloc sm sz = Some (start, sm\<lparr>sm_ppd := q\<rparr>) \<and> ff_inv (sm\<lparr>sm_ppd := q\<rparr>) \<and>
    (if start = - 1 then ff_no_fit sm sz else alloc_fits sm sz start \<and> P2PHASE start (sz AND - sz) = 0)"
proof -
  obtain k where k: "k < 64" "sz AND - sz = 2 ^ k" "highbit (sz AND - sz) = Suc k" "sm_shift sm \<le> k" "2 ^ k \<le> unat sz"
    using alloc_size_align [OF sz] by metis
  obtain ppd where p: "sm_ppd sm = Some ppd" "length ppd = 64" using ff by (auto simp: ff_inv_def)
  from inv ff sz p(1) k show ?thesis
  proof (cases rule: ff_alloc_round)
    case (found off)
    then show ?thesis using k(2)
      by (intro exI [of _ off] exI [of _ "Some (ppd[k := off + sz])"]) (simp add: alloc_fits_def p2_simps)
  next
    case full
    have "sm = sm\<lparr>sm_ppd := sm_ppd sm\<rparr>" by simp
    then show ?thesis using full ff by (intro exI [of _ "- 1"] exI [of _ "sm_ppd sm"]) simp
  next
    case wrap
    let ?m = "sm\<lparr>sm_ppd := Some (ppd[k := 0])\<rparr>"
    have inv': "space_map_inv ?m" and sz': "alloc_size_ok ?m sz" and k4: "sm_shift ?m \<le> k"
      using inv sz k(4) by (simp_all add: alloc_size_ok_def space_map_aligned_def)
    have nf: "ff_no_fit ?m sz = ff_no_fit sm sz" "alloc_fits ?m sz = alloc_fits sm sz"
      by (simp_all add: ff_no_fit_def alloc_fits_def fun_eq_iff space_map_aligned_def)
    have p': "sm_ppd ?m = Some (ppd[k := 0])" by simp
    from inv' wrap(3) sz' p' k(1-3) k4 k(5) show ?thesis
    proof (cases rule: ff_alloc_round)
      case (found off)
      then show ?thesis using k(2) wrap(2) nf
        by (intro exI [of _ off] exI [of _ "Some (ppd[k := off + sz])"]) (simp add: alloc_fits_def p2_simps)
    next
      case full
      then show ?thesis using wrap(2,3) nf
        by (intro exI [of _ "- 1"] exI [of _ "Some (ppd[k := 0])"]) simp
    next
      case wrap
      then show ?thesis using p(2) k(1) by simp
    qed
  qed
qed

interpretation ff: block_picker metaslab_ff_ops ff_inv
proof (unfold_locales, goal_cases)
  case (3 sm sz)
  from ff_alloc_spec [OF 3]
  obtain start q where "metaslab_ff_alloc sm sz = Some (start, sm\<lparr>sm_ppd := q\<rparr>)" "ff_inv (sm\<lparr>sm_ppd := q\<rparr>)"
      "if start = - 1 then ff_no_fit sm sz else alloc_fits sm sz start \<and> P2PHASE start (sz AND - sz) = 0"
    by (elim exE conjE)
  then show ?case
    by (intro exI [of _ start] exI [of _ q]) (simp add: metaslab_ff_ops_def split: if_splits)
next
  case (6 sm sm')
  then show ?case using space_map_same_simps [OF 6(2)] by (simp add: ff_inv_def)
qed (auto simp: metaslab_ff_ops_def metaslab_ff_load_def metaslab_ff_unload_def metaslab_ff_claim_def
    metaslab_ff_free_def ff_inv_def)

subsection \<open>The property\<close>

text \<open>C17: the first-fit allocator is sound and complete, whatever its cursors. It always returns. A block
  it returns lies in the free space of the map, aligned to the largest power of two that divides the
  size; when it returns \<^verbatim>\<open>-1ULL\<close> the map has no such block at all. It changes nothing but its
  cursors.\<close>

theorem metaslab_ff_alloc_correct:
  assumes "space_map_inv sm" "ff_inv sm" "alloc_size_ok sm sz"
  shows "\<exists>start q. metaslab_ff_alloc sm sz = Some (start, sm\<lparr>sm_ppd := q\<rparr>) \<and> ff_inv (sm\<lparr>sm_ppd := q\<rparr>) \<and>
    (if start = - 1
     then \<forall>off. P2PHASE off (sz AND - sz) = 0 \<longrightarrow> off < off + sz \<longrightarrow> \<not> {off ..< off + sz} \<subseteq> space_map_set sm
     else start < start + sz \<and> {start ..< start + sz} \<subseteq> space_map_set sm \<and>
       P2PHASE start (sz AND - sz) = 0 \<and> space_map_aligned sm start)"
  using ff_alloc_spec [OF assms] unfolding ff_no_fit_def alloc_fits_def by metis

lemma sm_sample_ff:
  "space_map_inv (metaslab_ff_load sm_sample)" "ff_inv (metaslab_ff_load sm_sample)"
  "alloc_size_ok (metaslab_ff_load sm_sample) 0x400" "space_map_set (metaslab_ff_load sm_sample) = {0x1000 ..< 0x3000}"
proof -
  have "take_bit 9 (0x400 :: u64) = 0" by code_simp
  then show "alloc_size_ok (metaslab_ff_load sm_sample) 0x400"
    by (simp add: alloc_size_ok_def metaslab_ff_load_def aligned_iff sm_sample_simps)
qed (simp_all add: metaslab_ff_load_def sm_sample_ok ff_inv_def)

theorem metaslab_ff_alloc_correct_witness:
  "\<exists>q. metaslab_ff_alloc (metaslab_ff_load sm_sample) 0x400 = Some (0x1000, (metaslab_ff_load sm_sample)\<lparr>sm_ppd := q\<rparr>)"
proof -
  have "map_option fst (metaslab_ff_alloc (metaslab_ff_load sm_sample) 0x400) = Some 0x1000" by code_simp
  then show ?thesis using metaslab_ff_alloc_correct [OF sm_sample_ff(1-3)] by auto
qed

end
