(* ===== verification/Metaslab.thy ===== *)
theory Metaslab
  imports Metaslab_FF Blkptr Vdev_Asize "HOL-Library.Monad_Syntax"
begin

text \<open>
  Metaslabs, from \<^verbatim>\<open>src/usr/src/uts/common/fs/zfs/metaslab.c\<close> and \<^verbatim>\<open>sys/metaslab_impl.h\<close>: the
  ring of metaslab groups of a class, the tree of metaslabs of a group, and the operations on one
  metaslab. A group pointer is an index of the store of groups. An element of a group's tree is the
  pair of fields the comparison function reads, which identifies the metaslab. What an operation asks
  of the DMU and of the vdev is its list of effects, in order. Taking locks is left out.
\<close>

subsection \<open>Transaction groups (sys/txg.h)\<close>

definition TXG_CONCURRENT_STATES :: nat where
  "TXG_CONCURRENT_STATES = 3"

definition TXG_SIZE :: nat where
  "TXG_SIZE = 4"

definition TXG_MASK :: u64 where
  "TXG_MASK = of_nat TXG_SIZE - 1"

definition TXG_INITIAL :: u64 where
  "TXG_INITIAL = of_nat TXG_SIZE"

definition TXG_CLEAN :: "u64 \<Rightarrow> u64" where
  "TXG_CLEAN txg = txg - 1"

definition TXG_IDX :: "u64 \<Rightarrow> nat" where
  "TXG_IDX txg = unat (txg AND TXG_MASK)"

subsection \<open>The structures\<close>

record metaslab =
  ms_smo :: space_map_obj
  ms_smo_syncing :: space_map_obj
  ms_allocmap :: "space_map list"
  ms_freemap :: "space_map list"
  ms_map :: space_map
  ms_weight :: u64

record ms_ref =
  mr_weight :: u64
  mr_start :: u64

definition ms_ref :: "metaslab \<Rightarrow> ms_ref" where
  "ms_ref msp = \<lparr>mr_weight = ms_weight msp, mr_start = sm_start (ms_map msp)\<rparr>"

record metaslab_class =
  mc_rotor :: "nat option"
  mc_allocated :: u64

record metaslab_group =
  mg_metaslab_tree :: "ms_ref avl_tree"
  mg_aliquot :: u64
  mg_bias :: u64
  mg_class :: "nat option"
  mg_vd :: nat
  mg_prev :: "nat option"
  mg_next :: "nat option"

text \<open>The fields of a top-level vdev the allocator uses.\<close>

record vdev =
  vdev_id :: u64
  vdev_ashift :: nat
  vdev_ms_shift :: nat
  vdev_ms_count :: u64
  vdev_ms_array :: u64
  vdev_asize :: u64
  vdev_state :: nat
  vdev_is_failing :: bool
  vs_io_failure :: bool
  vs_write_errors :: u64
  vs_alloc :: u64
  vs_space :: u64
  vdev_ms :: "metaslab list"
  vdev_mg :: "nat option"
  vdev_tree :: vdev_tree

datatype ms_effect =
    Dmu_write u64 u64 "u64 list"
  | Dmu_free_range u64
  | Dmu_bonus u64 space_map_obj
  | Vdev_space_update u64 u64
  | Vdev_dirty u64
  | Vdev_dirty_metaslab u64 u64

definition metaslab_aliquot :: u64 where
  "metaslab_aliquot = push_bit 10 512"

subsection \<open>Metaslab classes\<close>

type_synonym mg_store = "nat \<Rightarrow> metaslab_group"

definition metaslab_class_create :: metaslab_class where
  "metaslab_class_create = \<lparr>mc_rotor = None, mc_allocated = 0\<rparr>"

definition metaslab_class_add ::
  "metaslab_class \<times> mg_store \<Rightarrow> nat \<Rightarrow> nat \<Rightarrow> (metaslab_class \<times> mg_store) option" where
  "metaslab_class_add st mcid mg =
     (let (mc, g) = st in
      do {
        g \<leftarrow> (case mc_rotor mc of
                None \<Rightarrow> Some (g(mg := (g mg)\<lparr>mg_prev := Some mg, mg_next := Some mg\<rparr>))
              | Some mgprev \<Rightarrow>
                  do {
                    mgnext \<leftarrow> mg_next (g mgprev);
                    let g = g(mg := (g mg)\<lparr>mg_prev := Some mgprev, mg_next := Some mgnext\<rparr>);
                    let g = g(mgprev := (g mgprev)\<lparr>mg_next := Some mg\<rparr>);
                    Some (g(mgnext := (g mgnext)\<lparr>mg_prev := Some mg\<rparr>))
                  });
        Some (mc\<lparr>mc_rotor := Some mg\<rparr>, g(mg := (g mg)\<lparr>mg_class := Some mcid\<rparr>))
      })"

definition metaslab_class_remove ::
  "metaslab_class \<times> mg_store \<Rightarrow> nat \<Rightarrow> (metaslab_class \<times> mg_store) option" where
  "metaslab_class_remove st mg =
     (let (mc, g) = st; mgprev = mg_prev (g mg); mgnext = mg_next (g mg) in
      do {
        (mc, g) \<leftarrow>
          (if Some mg = mgnext then Some (mc\<lparr>mc_rotor := None\<rparr>, g)
           else
             do {
               p \<leftarrow> mgprev;
               n \<leftarrow> mgnext;
               let g = g(p := (g p)\<lparr>mg_next := Some n\<rparr>);
               Some (mc\<lparr>mc_rotor := Some n\<rparr>, g(n := (g n)\<lparr>mg_prev := Some p\<rparr>))
             });
        Some (mc, g(mg := (g mg)\<lparr>mg_prev := None, mg_next := None, mg_class := None\<rparr>))
      })"

subsection \<open>Metaslab groups\<close>

definition metaslab_compare :: "ms_ref \<Rightarrow> ms_ref \<Rightarrow> int" where
  "metaslab_compare m1 m2 =
     (if mr_weight m1 < mr_weight m2 then 1
      else if mr_weight m1 > mr_weight m2 then -1
      else if mr_start m1 < mr_start m2 then -1
      else if mr_start m1 > mr_start m2 then 1
      else 0)"

definition metaslab_group_new :: "nat \<Rightarrow> u64 \<Rightarrow> metaslab_group" where
  "metaslab_group_new vd children =
     \<lparr>mg_metaslab_tree = avl_create metaslab_compare, mg_aliquot = metaslab_aliquot * max 1 children,
      mg_bias = 0, mg_class = None, mg_vd = vd, mg_prev = None, mg_next = None\<rparr>"

text \<open>Creation of a group at the free address \<open>mg\<close>.\<close>

definition metaslab_group_create ::
  "metaslab_class \<times> mg_store \<Rightarrow> nat \<Rightarrow> nat \<Rightarrow> nat \<Rightarrow> u64 \<Rightarrow> (metaslab_class \<times> mg_store) option" where
  "metaslab_group_create st mcid mg vd children =
     (let (mc, g) = st in metaslab_class_add (mc, g(mg := metaslab_group_new vd children)) mcid mg)"

text \<open>\<^verbatim>\<open>avl_destroy()\<close> checks that the tree is empty.\<close>

definition metaslab_group_destroy :: "metaslab_group \<Rightarrow> unit option" where
  "metaslab_group_destroy mg =
     (if avl_numnodes (mg_metaslab_tree mg) = 0 \<and> avl_root (mg_metaslab_tree mg) = Null then Some () else None)"

text \<open>The loop ends when the rotor is \<^verbatim>\<open>NULL\<close>; \<open>fuel\<close> bounds the number of groups.\<close>

fun metaslab_class_destroy :: "nat \<Rightarrow> metaslab_class \<times> mg_store \<Rightarrow> mg_store option" where
  "metaslab_class_destroy fuel (mc, g) =
     (case mc_rotor mc of
        None \<Rightarrow> Some g
      | Some mg \<Rightarrow>
          (case fuel of
             0 \<Rightarrow> None
           | Suc n \<Rightarrow>
               do {
                 (mc, g) \<leftarrow> metaslab_class_remove (mc, g) mg;
                 _ \<leftarrow> metaslab_group_destroy (g mg);
                 metaslab_class_destroy n (mc, g)
               }))"

definition metaslab_group_add ::
  "metaslab_group \<Rightarrow> metaslab \<Rightarrow> (metaslab_group \<times> metaslab) option" where
  "metaslab_group_add mg msp =
     (let msp = msp\<lparr>ms_weight := 0\<rparr> in
      do {
        t \<leftarrow> avl_add (mg_metaslab_tree mg) (ms_ref msp);
        Some (mg\<lparr>mg_metaslab_tree := t\<rparr>, msp)
      })"

definition metaslab_group_remove :: "metaslab_group \<Rightarrow> metaslab \<Rightarrow> metaslab_group option" where
  "metaslab_group_remove mg msp =
     do {
       t \<leftarrow> avl_remove (mg_metaslab_tree mg) (ms_ref msp);
       Some (mg\<lparr>mg_metaslab_tree := t\<rparr>)
     }"

definition metaslab_group_sort ::
  "metaslab_group \<Rightarrow> metaslab \<Rightarrow> u64 \<Rightarrow> (metaslab_group \<times> metaslab) option" where
  "metaslab_group_sort mg msp weight =
     do {
       t \<leftarrow> avl_remove (mg_metaslab_tree mg) (ms_ref msp);
       let msp = msp\<lparr>ms_weight := weight\<rparr>;
       t \<leftarrow> avl_add t (ms_ref msp);
       Some (mg\<lparr>mg_metaslab_tree := t\<rparr>, msp)
     }"

subsection \<open>Weight, activation and passivation\<close>

definition METASLAB_WEIGHT_PRIMARY :: u64 where
  "METASLAB_WEIGHT_PRIMARY = push_bit 63 1"

definition METASLAB_WEIGHT_SECONDARY :: u64 where
  "METASLAB_WEIGHT_SECONDARY = push_bit 62 1"

definition METASLAB_ACTIVE_MASK :: u64 where
  "METASLAB_ACTIVE_MASK = METASLAB_WEIGHT_PRIMARY OR METASLAB_WEIGHT_SECONDARY"

definition METASLAB_SMO_BONUS_MULTIPLIER :: u64 where
  "METASLAB_SMO_BONUS_MULTIPLIER = 2"

definition metaslab_weight :: "vdev \<Rightarrow> metaslab \<Rightarrow> u64" where
  "metaslab_weight vd msp =
     (let sm = ms_map msp; smo = ms_smo msp;
          space = sm_size sm - smo_alloc smo;
          weight = 2 * space - (drop_bit (vdev_ms_shift vd) (sm_start sm) * space) div vdev_ms_count vd;
          weight = (if smo_object smo \<noteq> 0 then weight * METASLAB_SMO_BONUS_MULTIPLIER else weight)
      in weight OR (ms_weight msp AND METASLAB_ACTIVE_MASK))"

type_synonym dmu_reader = "u64 \<Rightarrow> u64 \<Rightarrow> u64 \<Rightarrow> int + u64 list"

definition metaslab_activate ::
  "bool \<Rightarrow> dmu_reader \<Rightarrow> metaslab_group \<Rightarrow> metaslab \<Rightarrow> u64 \<Rightarrow> (int \<times> metaslab_group \<times> metaslab) option" where
  "metaslab_activate zr dmu_read mg msp activation_weight =
     (if ms_weight msp AND METASLAB_ACTIVE_MASK = 0 then
        do {
          (error, sm) \<leftarrow> space_map_load zr ops_vec dmu_read (ms_map msp) (Some Metaslab_ff_ops) SM_FREE (ms_smo msp);
          let msp = msp\<lparr>ms_map := sm\<rparr>;
          if error \<noteq> 0 then map_option (Pair error) (metaslab_group_sort mg msp 0)
          else map_option (Pair 0) (metaslab_group_sort mg msp (ms_weight msp OR activation_weight))
        }
      else Some (0, mg, msp))"

definition metaslab_passivate ::
  "metaslab_group \<Rightarrow> metaslab \<Rightarrow> u64 \<Rightarrow> (metaslab_group \<times> metaslab) option" where
  "metaslab_passivate mg msp sz = metaslab_group_sort mg msp (min (ms_weight msp) sz)"

subsection \<open>Syncing a metaslab\<close>

text \<open>The space map object is allocated when the metaslab is first synced; \<open>new_object\<close> is the
  number the DMU returns.\<close>

definition metaslab_sync_object ::
  "u64 \<Rightarrow> vdev \<Rightarrow> metaslab \<Rightarrow> metaslab \<times> ms_effect list" where
  "metaslab_sync_object new_object vd msp =
     (let smo = ms_smo_syncing msp in
      if smo_object smo = 0 then
        (msp\<lparr>ms_smo_syncing := smo\<lparr>smo_object := new_object\<rparr>\<rparr>,
         [Dmu_write (vdev_ms_array vd) (8 * drop_bit (vdev_ms_shift vd) (sm_start (ms_map msp))) [new_object]])
      else (msp, []))"

text \<open>Rewriting the log as a pure allocation map.\<close>

definition metaslab_condense ::
  "bool \<Rightarrow> (u64 \<Rightarrow> int) \<Rightarrow> metaslab \<Rightarrow> u64 \<Rightarrow> (metaslab \<times> ms_effect list) option" where
  "metaslab_condense zr dmu_free_range msp txg =
     do {
       let i = TXG_IDX txg;
       (allocmap, _) \<leftarrow> space_map_vacate (ms_allocmap msp ! i) None ();
       (freemap, _) \<leftarrow> space_map_vacate (ms_freemap msp ! i) None ();
       allocmap \<leftarrow> space_map_add zr allocmap (sm_start allocmap) (sm_size allocmap);
       allocmap \<leftarrow> space_map_walk (ms_map msp) (space_map_remove zr) allocmap;
       allocmap \<leftarrow> space_map_walk (ms_freemap msp ! TXG_IDX (TXG_CLEAN txg)) (space_map_remove zr) allocmap;
       allocmap \<leftarrow> foldM (\<lambda>am t. space_map_walk (ms_allocmap msp ! TXG_IDX (txg + of_nat t)) (space_map_remove zr) am)
                     allocmap [1 ..< TXG_CONCURRENT_STATES];
       smo \<leftarrow> space_map_truncate dmu_free_range (ms_smo_syncing msp);
       Some (msp\<lparr>ms_allocmap := (ms_allocmap msp)[i := allocmap], ms_freemap := (ms_freemap msp)[i := freemap],
                 ms_smo_syncing := smo\<rparr>, [Dmu_free_range (smo_object smo)])
     }"

definition metaslab_should_condense :: "u64 \<Rightarrow> metaslab \<Rightarrow> bool" where
  "metaslab_should_condense sync_pass msp \<longleftrightarrow> sm_loaded (ms_map msp) \<and> sync_pass = 1 \<and>
     smo_objsize (ms_smo_syncing msp) \<ge> 2 * 8 * of_nat (avl_numnodes (sm_root (ms_map msp)))"

definition metaslab_sync ::
  "bool \<Rightarrow> u64 \<Rightarrow> (u64 \<Rightarrow> int) \<Rightarrow> (u64 \<Rightarrow> int) \<Rightarrow> u64 \<Rightarrow> vdev \<Rightarrow> metaslab \<Rightarrow> u64 \<Rightarrow>
   (metaslab \<times> ms_effect list) option" where
  "metaslab_sync zr new_object dmu_free_range dmu_bonus_hold sync_pass vd msp txg =
     do {
       let i = TXG_IDX txg;
       let c = TXG_IDX (TXG_CLEAN txg);
       let (msp, eff0) = metaslab_sync_object new_object vd msp;
       freed_map \<leftarrow> space_map_walk (ms_freemap msp ! i) (space_map_add zr) (ms_freemap msp ! c);
       let msp = msp\<lparr>ms_freemap := (ms_freemap msp)[c := freed_map]\<rparr>;
       (msp, eff1) \<leftarrow> (if metaslab_should_condense sync_pass msp then metaslab_condense zr dmu_free_range msp txg
                      else Some (msp, []));
       (allocmap, smo, ws) \<leftarrow> space_map_sync (ms_allocmap msp ! i) SM_ALLOC (ms_smo_syncing msp) sync_pass txg;
       (freemap, smo, ws') \<leftarrow> space_map_sync (ms_freemap msp ! i) SM_FREE smo sync_pass txg;
       let msp = msp\<lparr>ms_allocmap := (ms_allocmap msp)[i := allocmap], ms_freemap := (ms_freemap msp)[i := freemap],
                    ms_smo_syncing := smo\<rparr>;
       if dmu_bonus_hold (smo_object smo) \<noteq> 0 then None
       else Some (msp, eff0 @ eff1 @ map (\<lambda>(off, w). Dmu_write (smo_object smo) off w) (ws @ ws') @
                       [Dmu_bonus (smo_object smo) smo])
     }"

definition metaslab_evictable :: "metaslab \<Rightarrow> u64 \<Rightarrow> bool" where
  "metaslab_evictable msp txg \<longleftrightarrow>
     (\<forall>t \<in> set [1 ..< TXG_CONCURRENT_STATES]. sm_space (ms_allocmap msp ! TXG_IDX (txg + of_nat t)) = 0)"

definition metaslab_sync_done ::
  "bool \<Rightarrow> vdev \<Rightarrow> metaslab_group \<Rightarrow> metaslab \<Rightarrow> u64 \<Rightarrow> (metaslab_group \<times> metaslab \<times> ms_effect list) option" where
  "metaslab_sync_done zr vd mg msp txg =
     do {
       let c = TXG_IDX (TXG_CLEAN txg);
       let sm = ms_map msp;
       let fresh = sm_size (ms_freemap msp ! c) = 0;
       let new = space_map_create (sm_start sm) (sm_size sm) (sm_shift sm);
       let msp = (if fresh then msp\<lparr>ms_allocmap := replicate TXG_SIZE new, ms_freemap := replicate TXG_SIZE new\<rparr>
                  else msp);
       let eff = (if fresh then [Vdev_space_update (sm_size sm) 0] else []) @
                 [Vdev_space_update 0 (smo_alloc (ms_smo_syncing msp) - smo_alloc (ms_smo msp))];
       _ \<leftarrow> space_map_load_wait sm;
       (freed_map, sm) \<leftarrow> space_map_vacate (ms_freemap msp ! c)
                            (if sm_loaded sm then Some (space_map_free zr ops_vec) else None) sm;
       let msp = msp\<lparr>ms_freemap := (ms_freemap msp)[c := freed_map], ms_map := sm, ms_smo := ms_smo_syncing msp\<rparr>;
       sm \<leftarrow> (if sm_loaded sm \<and> ms_weight msp AND METASLAB_ACTIVE_MASK = 0 \<and> metaslab_evictable msp txg
              then space_map_unload ops_vec sm else Some sm);
       let msp = msp\<lparr>ms_map := sm\<rparr>;
       (mg, msp) \<leftarrow> metaslab_group_sort mg msp (metaslab_weight vd msp);
       Some (mg, msp, eff)
     }"

subsection \<open>Creating and destroying a metaslab\<close>

text \<open>A zeroed \<^verbatim>\<open>metaslab_t\<close>, whose allocation and free maps do not exist yet.\<close>

definition metaslab_init ::
  "bool \<Rightarrow> vdev \<Rightarrow> metaslab_group \<Rightarrow> space_map_obj \<Rightarrow> u64 \<Rightarrow> u64 \<Rightarrow> u64 \<Rightarrow>
   (metaslab_group \<times> metaslab \<times> ms_effect list) option" where
  "metaslab_init zr vd mg smo start sz txg =
     do {
       let nomap = space_map_create 0 0 0;
       let msp = \<lparr>ms_smo = \<lparr>smo_object = 0, smo_objsize = 0, smo_alloc = 0\<rparr>, ms_smo_syncing = smo,
                  ms_allocmap = replicate TXG_SIZE nomap, ms_freemap = replicate TXG_SIZE nomap,
                  ms_map = space_map_create start sz (vdev_ashift vd), ms_weight = 0\<rparr>;
       (mg, msp) \<leftarrow> metaslab_group_add mg msp;
       (mg, msp, eff) \<leftarrow> (if txg \<le> TXG_INITIAL then metaslab_sync_done zr vd mg msp 0 else Some (mg, msp, []));
       Some (mg, msp, eff @ (if txg \<noteq> 0 then [Vdev_dirty txg, Vdev_dirty_metaslab start (TXG_CLEAN txg)] else []))
     }"

definition metaslab_fini :: "metaslab_group \<Rightarrow> metaslab \<Rightarrow> (metaslab_group \<times> ms_effect list) option" where
  "metaslab_fini mg msp =
     do {
       let eff = [Vdev_space_update (- sm_size (ms_map msp)) (- smo_alloc (ms_smo msp))];
       mg \<leftarrow> metaslab_group_remove mg msp;
       sm \<leftarrow> space_map_unload ops_vec (ms_map msp);
       _ \<leftarrow> space_map_destroy sm;
       _ \<leftarrow> foldM (\<lambda>_. space_map_destroy) () (ms_allocmap msp);
       _ \<leftarrow> foldM (\<lambda>_. space_map_destroy) () (ms_freemap msp);
       Some (mg, eff)
     }"

end
