(* ===== verification/Metaslab_Group.thy ===== *)
theory Metaslab_Group
  imports Metaslab
begin

text \<open>
  The ring of groups of a metaslab class, the tree of metaslabs of a group, and the weight by which
  the tree is ordered.
\<close>

subsection \<open>The ring of groups\<close>

text \<open>Consecutive members of a chain point at each other; a ring is a chain that returns to its head.\<close>

fun mg_chain :: "(nat \<Rightarrow> nat option) \<Rightarrow> (nat \<Rightarrow> nat option) \<Rightarrow> nat list \<Rightarrow> bool" where
  "mg_chain nx pv (x # y # zs) \<longleftrightarrow> nx x = Some y \<and> pv y = Some x \<and> mg_chain nx pv (y # zs)"
| "mg_chain nx pv _ \<longleftrightarrow> True"

definition mg_links :: "mg_store \<Rightarrow> nat list \<Rightarrow> bool" where
  "mg_links g gs \<longleftrightarrow> distinct gs \<and>
     (gs \<noteq> [] \<longrightarrow> mg_chain (\<lambda>i. mg_next (g i)) (\<lambda>i. mg_prev (g i)) (gs @ [hd gs]))"

definition mg_ring :: "metaslab_class \<Rightarrow> mg_store \<Rightarrow> nat list \<Rightarrow> bool" where
  "mg_ring mc g gs \<longleftrightarrow> mg_links g gs \<and> mc_rotor mc = (case gs of [] \<Rightarrow> None | x # _ \<Rightarrow> Some x)"

lemma chain_Cons: "zs \<noteq> [] \<Longrightarrow>
    mg_chain nx pv (x # zs) \<longleftrightarrow> nx x = Some (hd zs) \<and> pv (hd zs) = Some x \<and> mg_chain nx pv zs"
  by (cases zs) auto

lemma chain_snoc: "zs \<noteq> [] \<Longrightarrow>
    mg_chain nx pv (zs @ [m]) \<longleftrightarrow> mg_chain nx pv zs \<and> nx (last zs) = Some m \<and> pv m = Some (last zs)"
  by (induction nx pv zs rule: mg_chain.induct) auto

lemma chain_append: "mg_chain nx pv (xs @ y # ys) \<longleftrightarrow> mg_chain nx pv (xs @ [y]) \<and> mg_chain nx pv (y # ys)"
  by (induction xs) (auto simp: chain_Cons hd_append)

lemma chain_cong:
  assumes "\<And>x. x \<in> set (butlast xs) \<Longrightarrow> nx' x = nx x" "\<And>x. x \<in> set (tl xs) \<Longrightarrow> pv' x = pv x"
  shows "mg_chain nx' pv' xs = mg_chain nx pv xs"
  using assms by (induction nx pv xs rule: mg_chain.induct) auto

lemma links_rotate: "mg_links g (xs @ ys) \<Longrightarrow> mg_links g (ys @ xs)"
proof (cases "xs = [] \<or> ys = []")
  case False
  then obtain x xs' y ys' where xy: "xs = x # xs'" "ys = y # ys'" by (auto simp: neq_Nil_conv)
  assume "mg_links g (xs @ ys)"
  then show ?thesis
    unfolding mg_links_def xy
    using chain_append [of _ _ "x # xs'" y "ys' @ [x]"] chain_append [of _ _ "y # ys'" x "xs' @ [y]"]
    by auto
qed auto

lemma links_next:
  assumes "mg_links g (mg # rest)"
  shows "mg_next (g mg) = Some (hd (rest @ [mg]))" "mg_prev (g mg) = Some (last (mg # rest))"
proof -
  have c: "mg_chain (\<lambda>i. mg_next (g i)) (\<lambda>i. mg_prev (g i)) ((mg # rest) @ [mg])"
    using assms by (simp add: mg_links_def)
  show "mg_prev (g mg) = Some (last (mg # rest))" using c unfolding chain_snoc [OF list.distinct(2)] by simp
  show "mg_next (g mg) = Some (hd (rest @ [mg]))" using c by (cases rest) simp_all
qed

lemma ring_add:
  assumes r: "mg_ring mc g gs" and n: "mg \<notin> set gs"
  shows "\<exists>mc' g'. metaslab_class_add (mc, g) mcid mg = Some (mc', g') \<and>
    mg_ring mc' g' (mg # (case gs of [] \<Rightarrow> [] | x # xs \<Rightarrow> xs @ [x])) \<and> mg_class (g' mg) = Some mcid \<and>
    (\<forall>i. mg_metaslab_tree (g' i) = mg_metaslab_tree (g i) \<and> (i \<noteq> mg \<longrightarrow> mg_class (g' i) = mg_class (g i)))"
proof (cases gs)
  case Nil
  then show ?thesis using r by (auto simp: mg_ring_def mg_links_def metaslab_class_add_def)
next
  case (Cons x xs)
  have l: "mg_links g (x # xs)" and rot: "mc_rotor mc = Some x" using r Cons by (auto simp: mg_ring_def)
  obtain y ys where ys: "xs @ [x] = y # ys" by (cases xs) auto
  have nx: "mg_next (g x) = Some y" using links_next(1) [OF l] ys by simp
  have d: "distinct (y # ys)" "mg \<notin> set (y # ys)" "set (y # ys) = set (x # xs)" 
    using l n Cons arg_cong [OF ys, of set] arg_cong [OF ys, of distinct] by (auto simp: mg_links_def)
  have b: "butlast (y # ys) = xs" "last (y # ys) = x" using ys by (metis butlast_snoc) (metis last_snoc ys)
  have c: "mg_chain (\<lambda>i. mg_next (g i)) (\<lambda>i. mg_prev (g i)) (y # ys)"
    using l unfolding mg_links_def append_Cons ys by (auto simp: ys)
  define g' where "g' = (let g = g(mg := (g mg)\<lparr>mg_prev := Some x, mg_next := Some y\<rparr>);
       g = g(x := (g x)\<lparr>mg_next := Some mg\<rparr>); g = g(y := (g y)\<lparr>mg_prev := Some mg\<rparr>)
     in g(mg := (g mg)\<lparr>mg_class := Some mcid\<rparr>))"
  have add: "metaslab_class_add (mc, g) mcid mg = Some (mc\<lparr>mc_rotor := Some mg\<rparr>, g')"
    by (simp add: metaslab_class_add_def rot nx g'_def Let_def)
  have f: "mg_next (g' i) = (if i = x then Some mg else if i = mg then Some y else mg_next (g i))"
    "mg_prev (g' i) = (if i = y then Some mg else if i = mg then Some x else mg_prev (g i))" for i
    using d n Cons by (auto simp: g'_def Let_def)
  have c': "mg_chain (\<lambda>i. mg_next (g' i)) (\<lambda>i. mg_prev (g' i)) (y # ys)"
  proof (subst chain_cong [where nx = "\<lambda>i. mg_next (g i)" and pv = "\<lambda>i. mg_prev (g i)"])
    show "mg_next (g' i) = mg_next (g i)" if "i \<in> set (butlast (y # ys))" for i
      using that l n Cons unfolding b(1) by (auto simp: f mg_links_def)
    show "mg_prev (g' i) = mg_prev (g i)" if "i \<in> set (tl (y # ys))" for i
      using that d by (auto simp: f)
  qed (rule c)
  have "mg_chain (\<lambda>i. mg_next (g' i)) (\<lambda>i. mg_prev (g' i)) (mg # (y # ys) @ [mg])"
    using c' b(2) d(2) n Cons chain_snoc [of "y # ys" "\<lambda>i. mg_next (g' i)" "\<lambda>i. mg_prev (g' i)" mg]
    by (simp add: f)
  then have "mg_links g' (mg # xs @ [x])" using d n Cons unfolding mg_links_def ys by auto
  then have "mg_ring (mc\<lparr>mc_rotor := Some mg\<rparr>) g' (mg # xs @ [x])" by (simp add: mg_ring_def)
  then show ?thesis
    using Cons d n add by (intro exI [of _ "mc\<lparr>mc_rotor := Some mg\<rparr>"] exI [of _ g'])
      (auto simp: g'_def Let_def)
qed

lemma links_remove:
  assumes l: "mg_links g (mg # y # ys)" and x: "x = last (y # ys)"
    and f: "\<And>i. i \<noteq> mg \<Longrightarrow> mg_next (g' i) = (if i = x then Some y else mg_next (g i))"
      "\<And>i. i \<noteq> mg \<Longrightarrow> mg_prev (g' i) = (if i = y then Some x else mg_prev (g i))"
  shows "mg_links g' (y # ys)"
proof -
  have d: "distinct (mg # y # ys)" using l by (simp add: mg_links_def)
  have b: "butlast (y # ys) @ [x] = y # ys" using x by simp
  have c: "mg_chain (\<lambda>i. mg_next (g i)) (\<lambda>i. mg_prev (g i)) (y # ys)"
    using l chain_snoc [of "mg # y # ys" "\<lambda>i. mg_next (g i)" "\<lambda>i. mg_prev (g i)" mg] by (simp add: mg_links_def)
  have nb: "x \<notin> set (butlast (y # ys))" "mg \<notin> set (butlast (y # ys))" "x \<noteq> mg" "y \<noteq> mg"
    using d b x distinct_append [of "butlast (y # ys)" "[x]"] by (auto dest: in_set_butlastD)
  have "mg_chain (\<lambda>i. mg_next (g' i)) (\<lambda>i. mg_prev (g' i)) (y # ys)"
  proof (subst chain_cong [where nx = "\<lambda>i. mg_next (g i)" and pv = "\<lambda>i. mg_prev (g i)"])
    show "mg_next (g' i) = mg_next (g i)" if "i \<in> set (butlast (y # ys))" for i
      using that nb f(1) [of i] by (cases "i = mg"; cases "i = x") simp_all
    show "mg_prev (g' i) = mg_prev (g i)" if "i \<in> set (tl (y # ys))" for i
      using that d f(2) [of i] by (cases "i = mg"; cases "i = y") simp_all
  qed (rule c)
  then have "mg_chain (\<lambda>i. mg_next (g' i)) (\<lambda>i. mg_prev (g' i)) ((y # ys) @ [y])"
    using f(1) [of x] f(2) [of y] nb x chain_snoc [of "y # ys" "\<lambda>i. mg_next (g' i)" "\<lambda>i. mg_prev (g' i)" y]
    by simp
  then show ?thesis using d by (simp add: mg_links_def)
qed

lemma ring_remove:
  assumes r: "mg_ring mc g gs" and gs: "gs = xs @ mg # zs"
  shows "\<exists>mc' g'. metaslab_class_remove (mc, g) mg = Some (mc', g') \<and> mg_ring mc' g' (zs @ xs) \<and>
    mg_next (g' mg) = None \<and> mg_prev (g' mg) = None \<and> mg_class (g' mg) = None \<and>
    (\<forall>i. mg_metaslab_tree (g' i) = mg_metaslab_tree (g i) \<and> (i \<noteq> mg \<longrightarrow> mg_class (g' i) = mg_class (g i)))"
proof -
  have l: "mg_links g (mg # zs @ xs)" using r gs links_rotate [of g xs "mg # zs"] by (simp add: mg_ring_def)
  note p = links_next [OF l]
  show ?thesis
  proof (cases "zs @ xs")
    case Nil
    then show ?thesis using p by (auto simp: metaslab_class_remove_def mg_ring_def mg_links_def)
  next
    case (Cons y ys)
    have d: "distinct (mg # y # ys)" using l Cons by (simp add: mg_links_def)
    define x where "x = last (y # ys)"
    have x: "x \<noteq> mg" "mg \<noteq> y" using d last_in_set [of "y # ys"] by (auto simp: x_def)
    have pv: "mg_prev (g mg) = Some x" "mg_next (g mg) = Some y" using p Cons by (auto simp: x_def)
    define g' where "g' = (let g = g(x := (g x)\<lparr>mg_next := Some y\<rparr>); g = g(y := (g y)\<lparr>mg_prev := Some x\<rparr>)
      in g(mg := (g mg)\<lparr>mg_prev := None, mg_next := None, mg_class := None\<rparr>))"
    have rm: "metaslab_class_remove (mc, g) mg = Some (mc\<lparr>mc_rotor := Some y\<rparr>, g')"
      using x by (simp add: metaslab_class_remove_def pv g'_def Let_def)
    have "mg_links g' (y # ys)"
      using x by (intro links_remove [OF l [unfolded Cons] x_def]) (auto simp: g'_def Let_def)
    then have "mg_ring (mc\<lparr>mc_rotor := Some y\<rparr>) g' (zs @ xs)" unfolding Cons by (simp add: mg_ring_def)
    then show ?thesis using rm x by (intro exI [of _ "mc\<lparr>mc_rotor := Some y\<rparr>"] exI [of _ g'])
        (simp add: g'_def Let_def)
  qed
qed

lemma class_destroy_ok:
  assumes "mg_ring mc g gs" "\<forall>i \<in> set gs. avl_numnodes (mg_metaslab_tree (g i)) = 0 \<and> avl_root (mg_metaslab_tree (g i)) = Null"
    and "length gs \<le> fuel"
  shows "\<exists>g'. metaslab_class_destroy fuel (mc, g) = Some g' \<and> (\<forall>i \<in> set gs. mg_class (g' i) = None) \<and>
    (\<forall>i. i \<notin> set gs \<longrightarrow> mg_class (g' i) = mg_class (g i))"
  using assms
proof (induction gs arbitrary: fuel mc g)
  case Nil
  then show ?case by (simp add: mg_ring_def)
next
  case (Cons x gs)
  obtain n where n: "fuel = Suc n" "length gs \<le> n" using Cons.prems(3) by (cases fuel) auto
  obtain mc' g' where m: "metaslab_class_remove (mc, g) x = Some (mc', g')" "mg_ring mc' g' gs" "mg_class (g' x) = None"
    "\<And>i. mg_metaslab_tree (g' i) = mg_metaslab_tree (g i)" "\<And>i. i \<noteq> x \<Longrightarrow> mg_class (g' i) = mg_class (g i)"
    using ring_remove [OF Cons.prems(1), of "[]" x gs] by auto
  obtain g'' where g'': "metaslab_class_destroy n (mc', g') = Some g''" "\<forall>i \<in> set gs. mg_class (g'' i) = None"
    "\<forall>i. i \<notin> set gs \<longrightarrow> mg_class (g'' i) = mg_class (g' i)"
    using Cons.IH [OF m(2) _ n(2)] Cons.prems(2) m(4) by auto
  have "x \<notin> set gs" using Cons.prems(1) by (simp add: mg_ring_def mg_links_def)
  then have "\<forall>i \<in> set (x # gs). mg_class (g'' i) = None" "\<forall>i. i \<notin> set (x # gs) \<longrightarrow> mg_class (g'' i) = mg_class (g i)"
    using g'' m(3,5) by auto
  moreover have "mc_rotor mc = Some x" using Cons.prems(1) by (simp add: mg_ring_def)
  ultimately show ?case using n m(1,4) g''(1) Cons.prems(2) by (simp add: metaslab_group_destroy_def)
qed

subsection \<open>The tree of a group\<close>

interpretation ms_cmp: avl_comparator metaslab_compare
  by unfold_locales (auto simp: metaslab_compare_def split: if_splits)

text \<open>The tree holds exactly the metaslabs of the group, by weight and start; no two of them start at
  the same offset.\<close>

definition group_ok :: "metaslab_group \<Rightarrow> metaslab list \<Rightarrow> bool" where
  "group_ok mg mss \<longleftrightarrow> avl_ok (mg_metaslab_tree mg) \<and> avl_compar (mg_metaslab_tree mg) = metaslab_compare \<and>
     mset (avl_list (mg_metaslab_tree mg)) = mset (map ms_ref mss) \<and> distinct (map (\<lambda>m. sm_start (ms_map m)) mss)"

lemma compare_starts: "metaslab_compare a b = 0 \<Longrightarrow> mr_start a = mr_start b"
  by (auto simp: metaslab_compare_def split: if_splits)

lemma tree_add:
  assumes "avl_ok t" "avl_compar t = metaslab_compare" "\<forall>y \<in> set (avl_list t). mr_start y \<noteq> mr_start x"
  obtains t' where "avl_add t x = Some t'" "avl_ok t'" "avl_compar t' = metaslab_compare"
    "mset (avl_list t') = add_mset x (mset (avl_list t))"
  using avl_add_cases [OF assms(1), of x] assms(2,3) compare_starts [of x] that
  by (cases "avl_add t x") fastforce+

lemma distinct_others:
  assumes "distinct (map f xs)" "mset ys + {#g (xs ! i)#} = mset (map g xs)" "i < length xs"
    and h: "\<And>x. h (g x) = f x"
  shows "\<forall>y \<in> set ys. h y \<noteq> f (xs ! i)"
proof
  fix y assume "y \<in> set ys"
  have xs: "xs = take i xs @ xs ! i # drop (Suc i) xs" using assms(3) by (rule id_take_nth_drop)
  have "mset ys + {#g (xs ! i)#} = mset (map g (take i xs @ drop (Suc i) xs)) + {#g (xs ! i)#}"
    unfolding assms(2) by (subst xs) simp
  then have "set ys = g ` set (take i xs @ drop (Suc i) xs)"
    by (simp only: add_right_cancel) (metis set_map set_mset_mset)
  then obtain x where x: "y = g x" "x \<in> set (take i xs @ drop (Suc i) xs)" using \<open>y \<in> set ys\<close> by auto
  have "distinct (map f (take i xs @ xs ! i # drop (Suc i) xs))" using assms(1) xs by simp
  then show "h y \<noteq> f (xs ! i)" using x h by (auto simp: image_iff)
qed

lemma group_sort_ok:
  assumes g: "group_ok mg mss" and i: "i < length mss" "ms_ref msp = ms_ref (mss ! i)"
  obtains t where "metaslab_group_sort mg msp w = Some (mg\<lparr>mg_metaslab_tree := t\<rparr>, msp\<lparr>ms_weight := w\<rparr>)"
    "group_ok (mg\<lparr>mg_metaslab_tree := t\<rparr>) (mss[i := msp\<lparr>ms_weight := w\<rparr>])"
proof -
  have m: "mset (avl_list (mg_metaslab_tree mg)) = mset (map ms_ref mss)"
    and c: "avl_compar (mg_metaslab_tree mg) = metaslab_compare" "avl_ok (mg_metaslab_tree mg)"
    and d: "distinct (map (\<lambda>m. sm_start (ms_map m)) mss)"
    using g by (auto simp: group_ok_def)
  have st: "sm_start (ms_map msp) = sm_start (ms_map (mss ! i))" using i(2) by (simp add: ms_ref_def)
  have "ms_ref msp \<in> set (avl_list (mg_metaslab_tree mg))"
    using i unfolding set_mset_mset [symmetric] m by (auto simp: in_set_conv_nth intro!: imageI)
  then obtain xs ys where xs: "avl_list (mg_metaslab_tree mg) = xs @ ms_ref msp # ys" by (auto dest: split_list)
  obtain t where t: "avl_remove (mg_metaslab_tree mg) (ms_ref msp) = Some t" "avl_ok t" "avl_list t = xs @ ys"
    "avl_compar t = metaslab_compare"
    using avl_remove_ok [OF c(2) xs] c(1) by metis
  have mt: "mset (avl_list t) + {#ms_ref (mss ! i)#} = mset (map ms_ref mss)"
    using m xs t(3) i(2) by simp
  have "\<forall>y \<in> set (avl_list t). mr_start y \<noteq> mr_start (ms_ref (msp\<lparr>ms_weight := w\<rparr>))"
    using distinct_others [OF d mt i(1), of mr_start] st by (simp add: ms_ref_def)
  then obtain t' where t': "avl_add t (ms_ref (msp\<lparr>ms_weight := w\<rparr>)) = Some t'" "avl_ok t'"
    "avl_compar t' = metaslab_compare" "mset (avl_list t') = add_mset (ms_ref (msp\<lparr>ms_weight := w\<rparr>)) (mset (avl_list t))"
    using tree_add [OF t(2,4)] by metis
  have "mset (map ms_ref (mss[i := msp\<lparr>ms_weight := w\<rparr>])) =
    add_mset (ms_ref (msp\<lparr>ms_weight := w\<rparr>)) (mset (map ms_ref mss) - {#ms_ref (mss ! i)#})"
    using i(1) by (simp add: map_update mset_update)
  also have "mset (map ms_ref mss) - {#ms_ref (mss ! i)#} = mset (avl_list t)" by (subst mt [symmetric]) simp
  finally have l: "mset (avl_list t') = mset (map ms_ref (mss[i := msp\<lparr>ms_weight := w\<rparr>]))" using t'(4) by simp
  have "map (\<lambda>m. sm_start (ms_map m)) (mss[i := msp\<lparr>ms_weight := w\<rparr>]) = map (\<lambda>m. sm_start (ms_map m)) mss"
    using i(1) st by (intro nth_equalityI) (auto simp: nth_list_update)
  then have "group_ok (mg\<lparr>mg_metaslab_tree := t'\<rparr>) (mss[i := msp\<lparr>ms_weight := w\<rparr>])"
    using t'(2,3) l d by (simp add: group_ok_def)
  then show thesis using that t(1) t'(1) by (simp add: metaslab_group_sort_def)
qed

lemma group_add_ok:
  assumes g: "group_ok mg mss" and n: "sm_start (ms_map msp) \<notin> (\<lambda>m. sm_start (ms_map m)) ` set mss"
  obtains t where "metaslab_group_add mg msp = Some (mg\<lparr>mg_metaslab_tree := t\<rparr>, msp\<lparr>ms_weight := 0\<rparr>)"
    "group_ok (mg\<lparr>mg_metaslab_tree := t\<rparr>) (mss @ [msp\<lparr>ms_weight := 0\<rparr>])"
proof -
  have "set (avl_list (mg_metaslab_tree mg)) = ms_ref ` set mss"
    using g by (metis group_ok_def set_map set_mset_mset)
  then have "\<forall>y \<in> set (avl_list (mg_metaslab_tree mg)). mr_start y \<noteq> mr_start (ms_ref (msp\<lparr>ms_weight := 0\<rparr>))"
    using n by (auto simp: ms_ref_def image_iff)
  then obtain t where t: "avl_add (mg_metaslab_tree mg) (ms_ref (msp\<lparr>ms_weight := 0\<rparr>)) = Some t" "avl_ok t"
    "avl_compar t = metaslab_compare"
    "mset (avl_list t) = add_mset (ms_ref (msp\<lparr>ms_weight := 0\<rparr>)) (mset (avl_list (mg_metaslab_tree mg)))"
    using tree_add g unfolding group_ok_def by metis
  have "group_ok (mg\<lparr>mg_metaslab_tree := t\<rparr>) (mss @ [msp\<lparr>ms_weight := 0\<rparr>])"
    using g t n by (auto simp: group_ok_def)
  then show thesis using that t(1) by (simp add: metaslab_group_add_def)
qed

subsection \<open>The weight of a metaslab\<close>

lemma unat_mult64: "unat a * unat b < 2 ^ 64 \<Longrightarrow> unat (a * b :: u64) = unat a * unat b"
  by (simp add: unat_word_ariths)

lemma active_bits: "bit METASLAB_ACTIVE_MASK n \<longleftrightarrow> n = 62 \<or> n = 63"
  unfolding METASLAB_ACTIVE_MASK_def METASLAB_WEIGHT_PRIMARY_def METASLAB_WEIGHT_SECONDARY_def
    bit_or_iff bit_push_bit_iff bit_1_iff by auto

lemma active_disjoint:
  assumes "unat w < 2 ^ 62"
  shows "w AND METASLAB_ACTIVE_MASK = (0 :: u64)"
proof (rule bit_eqI)
  fix n
  have "take_bit 62 w = w" using assms by (rule take_bit_small)
  then have "bit w n \<Longrightarrow> n < 62" by (metis bit_take_bit_iff)
  then show "bit (w AND METASLAB_ACTIVE_MASK) n = bit 0 n"
    by (auto simp: bit_and_iff active_bits)
qed

definition base_weight :: "vdev \<Rightarrow> metaslab \<Rightarrow> nat" where
  "base_weight vd msp =
     (let space = unat (sm_size (ms_map msp)) - unat (smo_alloc (ms_smo msp)) in
      (if smo_object (ms_smo msp) \<noteq> 0 then 2 else 1) *
        (2 * space - unat (drop_bit (vdev_ms_shift vd) (sm_start (ms_map msp))) * space div unat (vdev_ms_count vd)))"

lemma metaslab_weight_spec:
  assumes a: "smo_alloc (ms_smo msp) \<le> sm_size (ms_map msp)" and s: "unat (sm_size (ms_map msp)) < 2 ^ 60"
    and c: "drop_bit (vdev_ms_shift vd) (sm_start (ms_map msp)) < vdev_ms_count vd"
    and o: "unat (drop_bit (vdev_ms_shift vd) (sm_start (ms_map msp))) * unat (sm_size (ms_map msp)) < 2 ^ 64"
  obtains w where "metaslab_weight vd msp = w OR (ms_weight msp AND METASLAB_ACTIVE_MASK)"
    "unat w = base_weight vd msp" "unat w < 2 ^ 62"
proof -
  define space where "space = sm_size (ms_map msp) - smo_alloc (ms_smo msp)"
  define i where "i = drop_bit (vdev_ms_shift vd) (sm_start (ms_map msp))"
  have sp: "unat space = unat (sm_size (ms_map msp)) - unat (smo_alloc (ms_smo msp))"
    using a by (simp add: space_def unat_sub)
  then have sl: "unat space < 2 ^ 60" using s by linarith
  have "unat i * unat space \<le> unat i * unat (sm_size (ms_map msp))" using sp by (intro mult_left_mono) auto
  then have il: "unat (i * space) = unat i * unat space" 
    using order.strict_trans1 [OF _ o [folded i_def]] by (intro unat_mult64)
  have q: "unat i * unat space div unat (vdev_ms_count vd) \<le> unat space"
  proof -
    have "unat i * unat space \<le> unat (vdev_ms_count vd) * unat space"
      using c by (intro mult_right_mono) (simp_all add: i_def word_less_nat_alt)
    then have "unat i * unat space div unat (vdev_ms_count vd) \<le> unat (vdev_ms_count vd) * unat space div unat (vdev_ms_count vd)"
      by (rule div_le_mono)
    moreover have "unat (vdev_ms_count vd) \<noteq> 0" using c by (simp add: word_less_nat_alt)
    ultimately show ?thesis by simp
  qed
  define v where "v = 2 * space - i * space div vdev_ms_count vd"
  have d: "unat (2 * space) = 2 * unat space" using sl unat_mult64 [of 2 space] by simp
  have v: "unat v = 2 * unat space - unat i * unat space div unat (vdev_ms_count vd)"
    unfolding v_def using q d il by (subst unat_sub) (simp_all add: word_le_nat_alt unat_div)
  define w where "w = (if smo_object (ms_smo msp) \<noteq> 0 then v * METASLAB_SMO_BONUS_MULTIPLIER else v)"
  have v2: "unat (v * METASLAB_SMO_BONUS_MULTIPLIER) = 2 * unat v"
    using v sl unat_mult64 [of v 2] by (simp add: METASLAB_SMO_BONUS_MULTIPLIER_def)
  have "unat w = base_weight vd msp"
    using v v2 by (simp add: w_def base_weight_def Let_def sp i_def)
  moreover have "unat v \<le> 2 * unat space" using v by simp
  then have "unat w < 2 ^ 62" using v2 sl by (simp add: w_def)
  moreover have "metaslab_weight vd msp = w OR (ms_weight msp AND METASLAB_ACTIVE_MASK)"
    by (simp add: metaslab_weight_def Let_def w_def v_def space_def i_def)
  ultimately show thesis using that by blast
qed

subsection \<open>Properties\<close>

text \<open>C19: the groups of a class form a ring through the rotor. Adding a group puts it behind the current
  rotor and makes it the rotor; removing any member closes the ring over it, makes its successor the
  rotor and clears its links; destroying the class visits every member once and ends, provided the trees
  of the groups are empty.\<close>

theorem metaslab_class_ring_correct:
  assumes "mg_ring mc g gs"
  shows "(\<forall>mg mcid. mg \<notin> set gs \<longrightarrow> (\<exists>mc' g'. metaslab_class_add (mc, g) mcid mg = Some (mc', g') \<and>
      mg_ring mc' g' (mg # (case gs of [] \<Rightarrow> [] | x # xs \<Rightarrow> xs @ [x])) \<and> mg_class (g' mg) = Some mcid)) \<and>
    (\<forall>xs mg zs. gs = xs @ mg # zs \<longrightarrow> (\<exists>mc' g'. metaslab_class_remove (mc, g) mg = Some (mc', g') \<and>
      mg_ring mc' g' (zs @ xs) \<and> mg_next (g' mg) = None \<and> mg_prev (g' mg) = None \<and> mg_class (g' mg) = None)) \<and>
    ((\<forall>i \<in> set gs. metaslab_group_destroy (g i) = Some ()) \<longrightarrow>
      (\<exists>g'. metaslab_class_destroy (length gs) (mc, g) = Some g' \<and> (\<forall>i \<in> set gs. mg_class (g' i) = None)))"
proof (intro conjI allI impI, goal_cases)
  case (1 mg mcid)
  from ring_add [OF assms 1, of mcid] show ?case by (elim exE conjE, intro exI conjI)
next
  case (2 xs mg zs)
  from ring_remove [OF assms 2] show ?case by (elim exE conjE, intro exI conjI)
next
  case 3
  then have "\<forall>i \<in> set gs. avl_numnodes (mg_metaslab_tree (g i)) = 0 \<and> avl_root (mg_metaslab_tree (g i)) = Null"
    by (auto simp: metaslab_group_destroy_def split: if_splits)
  from class_destroy_ok [OF assms this order.refl] show ?case by meson
qed

theorem metaslab_class_ring_correct_witness:
  "\<exists>mc g. metaslab_class_add (metaslab_class_create, \<lambda>_. metaslab_group_new 0 1) 0 7 = Some (mc, g) \<and>
     mg_ring mc g [7] \<and> mg_next (g 7) = Some 7"
proof -
  have "mg_ring metaslab_class_create (\<lambda>_. metaslab_group_new 0 1) []"
    by (simp add: mg_ring_def mg_links_def metaslab_class_create_def)
  from metaslab_class_ring_correct [OF this, THEN conjunct1, rule_format, of 7 0] show ?thesis
    by (auto simp: mg_ring_def mg_links_def)
qed


definition ms_sample :: metaslab where
  "ms_sample = \<lparr>ms_smo = \<lparr>smo_object = 42, smo_objsize = 8, smo_alloc = 0x2000\<rparr>,
     ms_smo_syncing = \<lparr>smo_object = 42, smo_objsize = 8, smo_alloc = 0x2000\<rparr>,
     ms_allocmap = replicate 4 (space_map_create 0 0x100000 9), ms_freemap = replicate 4 (space_map_create 0 0x100000 9),
     ms_map = space_map_create 0 0x100000 9, ms_weight = 0\<rparr>"

definition vd_sample :: vdev where
  "vd_sample = \<lparr>vdev_id = 0, vdev_ashift = 9, vdev_ms_shift = 20, vdev_ms_count = 1, vdev_ms_array = 7, vdev_asize = 0x100000,
     vdev_state = 7, vdev_is_failing = False, vs_io_failure = False, vs_write_errors = 0, vs_alloc = 0,
     vs_space = 0x100000, vdev_ms = [ms_sample], vdev_mg = Some 0, vdev_tree = Vdev_tree Vdev_disk_ops 0 []\<rparr>"


end
