(* ===== verification/Metaslab_Space.thy ===== *)
theory Metaslab_Space
  imports Metaslab_Group
begin

text \<open>
  The life of the space of one metaslab across transaction groups: the invariant that ties the in-core
  free map, the allocation and free maps of the open transaction groups and the space map object on
  disk together, and that every operation on a metaslab keeps it. \<open>s\<close> is the last transaction group
  that has completely synced; the slots \<open>s + 1\<close>, \<open>s + 2\<close> and \<open>s + 3\<close> take allocations and frees, and
  the slot of \<open>s\<close> collects what the transaction group \<open>s + 1\<close> has freed while it syncs.
\<close>

subsection \<open>Slots of the allocation and free maps\<close>

lemma TXG_IDX_mod: "TXG_IDX txg = unat txg mod 4"
proof -
  have "TXG_IDX txg = unat (take_bit 2 txg)"
    by (simp add: TXG_IDX_def TXG_MASK_def TXG_SIZE_def take_bit_eq_mask mask_eq_exp_minus_1)
  then show ?thesis unfolding unsigned_take_bit_eq by (simp add: take_bit_eq_mod)
qed

lemma unat_add_mod4: "unat (x + y :: u64) mod 4 = (unat x + unat y) mod 4"
proof -
  have "(4 :: nat) dvd 2 ^ 64" by simp
  then show ?thesis by (simp add: unat_word_ariths mod_mod_cancel)
qed

definition txg_slot :: "u64 \<Rightarrow> nat \<Rightarrow> nat" where
  "txg_slot s k = TXG_IDX (s + of_nat k)"

lemma txg_slot_mod: "txg_slot s k = (unat s + k) mod 4"
proof -
  have "(4 :: nat) dvd 2 ^ 64" by simp
  then have "unat (of_nat k :: u64) mod 4 = k mod 4" by (simp add: unat_of_nat mod_mod_cancel)
  then show ?thesis unfolding txg_slot_def TXG_IDX_mod unat_add_mod4 by (metis mod_add_right_eq)
qed

lemma slot_less: "txg_slot s k < 4"
  by (simp add: txg_slot_mod)

lemma slot_inj: "j < 4 \<Longrightarrow> k < 4 \<Longrightarrow> txg_slot s j = txg_slot s k \<longleftrightarrow> j = k"
proof (induction j k rule: linorder_wlog)
  case (le j k)
  have "(unat s + k) mod 4 = (unat s + j) mod 4 \<longleftrightarrow> 4 dvd k - j"
    using le by (subst mod_eq_dvd_iff_nat) auto
  moreover have "4 dvd k - j \<longleftrightarrow> k - j = 0" using le by (auto dest!: dvd_imp_le)
  ultimately show ?case using le by (auto simp: txg_slot_mod)
qed auto

lemma slot_update:
  assumes "length l = 4" "j < 4" "k < 4"
  shows "l[txg_slot s k := m] ! txg_slot s j = (if j = k then m else l ! txg_slot s j)"
  using assms slot_less [of s k] slot_inj [OF assms(2,3), of s] by (auto simp: nth_list_update)

lemma TXG_IDX_slot:
  "TXG_IDX (s + 1) = txg_slot s 1" "TXG_IDX (TXG_CLEAN (s + 1)) = txg_slot s 0"
  "TXG_IDX (s + 1 + of_nat k) = txg_slot s (Suc k)" "TXG_IDX (s + of_nat k) = txg_slot s k"
  by (simp_all add: txg_slot_def TXG_CLEAN_def add.assoc)

lemma slot_shift: "txg_slot (s + 1) k = txg_slot s (Suc k)" "txg_slot s 4 = txg_slot s 0"
  by (simp_all add: txg_slot_def add.assoc) (simp add: TXG_IDX_mod unat_add_mod4)

subsection \<open>The invariant\<close>

definition same_geometry :: "space_map \<Rightarrow> space_map \<Rightarrow> bool" where
  "same_geometry sm m \<longleftrightarrow> sm_start m = sm_start sm \<and> sm_size m = sm_size sm \<and> sm_shift m = sm_shift sm"

definition ms_universe :: "metaslab \<Rightarrow> u64 set" where
  "ms_universe msp = {sm_start (ms_map msp) ..< sm_start (ms_map msp) + sm_size (ms_map msp)}"

definition ms_geometry :: "space_map \<Rightarrow> bool" where
  "ms_geometry sm \<longleftrightarrow> range_in_map sm (sm_start sm) (sm_size sm) \<and>
     unat (sm_size sm) \<le> 2 ^ (47 + sm_shift sm) \<and> unat (sm_size sm) < 2 ^ 60"

definition ms_wf :: "metaslab \<Rightarrow> bool" where
  "ms_wf msp \<longleftrightarrow> ms_geometry (ms_map msp) \<and> space_map_inv (ms_map msp) \<and> \<not> sm_loading (ms_map msp) \<and>
     length (ms_allocmap msp) = 4 \<and> length (ms_freemap msp) = 4 \<and>
     (\<forall>m \<in> set (ms_allocmap msp) \<union> set (ms_freemap msp). space_map_inv m \<and> same_geometry (ms_map msp) m)"

text \<open>What is allocated and what is freed in the \<open>k\<close>-th transaction group after \<open>s\<close>.\<close>

definition ms_allocs :: "u64 \<Rightarrow> metaslab \<Rightarrow> nat \<Rightarrow> u64 set" where
  "ms_allocs s msp k = (if k < 4 then space_map_set (ms_allocmap msp ! txg_slot s k) else {})"

definition ms_frees :: "u64 \<Rightarrow> metaslab \<Rightarrow> nat \<Rightarrow> u64 set" where
  "ms_frees s msp k = (if k < 4 then space_map_set (ms_freemap msp ! txg_slot s k) else {})"

text \<open>\<open>A\<close> is what the object on disk says is allocated. Nothing is allocated twice, only allocated
  space is freed, and nothing is freed twice.\<close>

definition sets_ok :: "u64 set \<Rightarrow> (nat \<Rightarrow> u64 set) \<Rightarrow> (nat \<Rightarrow> u64 set) \<Rightarrow> bool" where
  "sets_ok A a f \<longleftrightarrow> a 0 = {} \<and> A \<inter> f 0 = {} \<and>
     a 1 \<inter> (A \<union> f 0) = {} \<and> a 2 \<inter> (A \<union> f 0) = {} \<and> a 3 \<inter> (A \<union> f 0) = {} \<and>
     a 1 \<inter> a 2 = {} \<and> a 1 \<inter> a 3 = {} \<and> a 2 \<inter> a 3 = {} \<and>
     f 1 \<subseteq> A \<union> a 1 \<and> f 2 \<subseteq> A \<union> (a 1 \<union> a 2) \<and> f 3 \<subseteq> A \<union> (a 1 \<union> a 2 \<union> a 3) \<and>
     f 1 \<inter> f 2 = {} \<and> f 1 \<inter> f 3 = {} \<and> f 2 \<inter> f 3 = {}"

definition sets_free :: "u64 set \<Rightarrow> u64 set \<Rightarrow> (nat \<Rightarrow> u64 set) \<Rightarrow> (nat \<Rightarrow> u64 set) \<Rightarrow> u64 set" where
  "sets_free U A a f = U - A - f 0 - a 1 - a 2 - a 3"

text \<open>A loaded map is exactly the space that is free for allocation. An unloaded one has no
  allocations pending, and the object as of \<^verbatim>\<open>ms_smo\<close>, a prefix of the log, describes the same space.\<close>

definition ms_core :: "metaslab \<Rightarrow> u64 list \<Rightarrow> u64 set \<Rightarrow> (nat \<Rightarrow> u64 set) \<Rightarrow> (nat \<Rightarrow> u64 set) \<Rightarrow> bool" where
  "ms_core msp obj A a f \<longleftrightarrow>
     (if sm_loaded (ms_map msp)
      then ff.picking ops_vec (ms_map msp) \<and> space_map_set (ms_map msp) = sets_free (ms_universe msp) A a f
      else space_map_unloaded (ms_map msp) \<and> a 1 = {} \<and> a 2 = {} \<and> a 3 = {} \<and>
        (\<exists>n. smo_holds (ms_map msp) (ms_smo msp) (take n obj) (A \<union> f 0)))"

definition ms_inv :: "u64 \<Rightarrow> u64 list \<Rightarrow> u64 set \<Rightarrow> metaslab \<Rightarrow> bool" where
  "ms_inv s obj A msp \<longleftrightarrow> ms_wf msp \<and> sets_ok A (ms_allocs s msp) (ms_frees s msp) \<and>
     smo_holds (ms_map msp) (ms_smo_syncing msp) obj A \<and> ms_core msp obj A (ms_allocs s msp) (ms_frees s msp)"

text \<open>The space that may be handed out.\<close>

definition ms_free_set :: "u64 \<Rightarrow> u64 set \<Rightarrow> metaslab \<Rightarrow> u64 set" where
  "ms_free_set s A msp = sets_free (ms_universe msp) A (ms_allocs s msp) (ms_frees s msp)"

subsection \<open>Sets\<close>

lemma union_upto: "(\<Union>j \<in> {1 .. 1 :: nat}. a j) = a 1" "(\<Union>j \<in> {1 .. 2 :: nat}. a j) = a 1 \<union> a 2"
  "(\<Union>j \<in> {1 .. 3 :: nat}. a j) = a 1 \<union> a 2 \<union> a 3"
proof -
  have "{1 .. 2 :: nat} = {1, 2}" "{1 .. 3 :: nat} = {1, 2, 3}" by auto
  then show "(\<Union>j \<in> {1 .. 1 :: nat}. a j) = a 1" "(\<Union>j \<in> {1 .. 2 :: nat}. a j) = a 1 \<union> a 2"
    "(\<Union>j \<in> {1 .. 3 :: nat}. a j) = a 1 \<union> a 2 \<union> a 3" by auto
qed

lemma sets_alloc:
  assumes "sets_ok A a f" "k \<in> {1, 2, 3}" "R \<subseteq> sets_free U A a f"
  shows "sets_ok A (a(k := a k \<union> R)) f" "sets_free U A (a(k := a k \<union> R)) f = sets_free U A a f - R"
  using assms unfolding sets_ok_def sets_free_def by auto

lemma sets_free_op:
  assumes "sets_ok A a f" "k \<in> {1, 2, 3}" "R \<subseteq> A \<union> (\<Union>j \<in> {1 .. k}. a j)" "R \<inter> (f 1 \<union> f 2 \<union> f 3) = {}"
  shows "sets_ok A a (f(k := f k \<union> R))" "sets_free U A a (f(k := f k \<union> R)) = sets_free U A a f"
proof -
  consider "k = 1" "R \<subseteq> A \<union> a 1" | "k = 2" "R \<subseteq> A \<union> (a 1 \<union> a 2)" | "k = 3" "R \<subseteq> A \<union> (a 1 \<union> a 2 \<union> a 3)"
    using assms(2,3) union_upto [of a] by auto
  then show "sets_ok A a (f(k := f k \<union> R))"
    using assms(1,4) unfolding sets_ok_def by cases auto
  show "sets_free U A a (f(k := f k \<union> R)) = sets_free U A a f"
    using assms(2) unfolding sets_free_def by auto
qed

lemma sets_free_now:
  assumes "sets_ok A a f" "k \<in> {1, 2, 3}" "R \<subseteq> a k" "R \<inter> (f 1 \<union> f 2 \<union> f 3) = {}" "a k \<subseteq> U"
  shows "sets_ok A (a(k := a k - R)) f" "sets_free U A (a(k := a k - R)) f = sets_free U A a f \<union> R"
proof -
  define b where "b = a(k := a k - R)"
  have b: "b 0 = a 0" "b 1 \<subseteq> a 1" "b 2 \<subseteq> a 2" "b 3 \<subseteq> a 3" "a 1 - R \<subseteq> b 1" "a 2 - R \<subseteq> b 2" "a 3 - R \<subseteq> b 3"
    using assms(2) by (auto simp: b_def)
  have keep: "X' \<inter> Y' = {}" if "X \<inter> Y = {}" "X' \<subseteq> X" "Y' \<subseteq> Y" for X Y X' Y' :: "u64 set" using that by blast
  have part: "X \<subseteq> A \<union> Z" if "X \<subseteq> A \<union> Y" "R \<inter> X = {}" "Y - R \<subseteq> Z" for X Y Z :: "u64 set" using that by blast
  have f: "R \<inter> f 1 = {}" "R \<inter> f 2 = {}" "R \<inter> f 3 = {}" using assms(4) by blast+
  have u: "a 1 \<union> a 2 - R \<subseteq> b 1 \<union> b 2" "a 1 \<union> a 2 \<union> a 3 - R \<subseteq> b 1 \<union> b 2 \<union> b 3" using b(5-7) by blast+
  note s = assms(1) [unfolded sets_ok_def]
  show "sets_ok A (a(k := a k - R)) f"
    unfolding b_def [symmetric] sets_ok_def b(1)
    using s part [OF _ f(1) b(5)] part [OF _ f(2) u(1)] part [OF _ f(3) u(2)]
      keep [OF _ b(2) subset_refl] keep [OF _ b(3) subset_refl] keep [OF _ b(4) subset_refl]
      keep [OF _ b(2,3)] keep [OF _ b(2,4)] keep [OF _ b(3,4)]
    by (simp del: One_nat_def)
  have one: "U - A - F - (X - R) - Y - Z = U - A - F - X - Y - Z \<union> R"
    if "R \<subseteq> X" "X \<subseteq> U" "X \<inter> (A \<union> F) = {}" "X \<inter> Y = {}" "X \<inter> Z = {}" for F X Y Z using that by blast
  have swap: "U - A - F - Y - X - Z = U - A - F - X - Y - Z" "U - A - F - Y - Z - X = U - A - F - X - Y - Z" for F X Y Z
    by blast+
  consider "k = 1" | "k = 2" | "k = 3" using assms(2) by auto
  then show "sets_free U A (a(k := a k - R)) f = sets_free U A a f \<union> R"
  proof cases
    case 1
    then show ?thesis using one [of "a 1" "f 0" "a 2" "a 3"] s assms(3,5) by (simp add: sets_free_def)
  next
    case 2
    then show ?thesis using one [of "a 2" "f 0" "a 1" "a 3"] s assms(3,5)
        swap(1) [of "f 0" "a 1" "a 2" "a 3"] swap(1) [of "f 0" "a 1" "a 2 - R" "a 3"]
      by (simp add: sets_free_def Int_commute)
  next
    case 3
    then show ?thesis using one [of "a 3" "f 0" "a 1" "a 2"] s assms(3,5)
        swap(2) [of "f 0" "a 1" "a 2" "a 3"] swap(2) [of "f 0" "a 1" "a 2" "a 3 - R"]
      by (simp add: sets_free_def Int_commute)
  qed
qed

lemma sets_sync:
  assumes "sets_ok A a f"
  shows "sets_ok (A \<union> a 1 - f 1) (a(1 := {})) (f(0 := f 0 \<union> f 1, 1 := {}))"
    "A \<subseteq> U \<Longrightarrow> a 1 \<subseteq> U \<Longrightarrow> sets_free U (A \<union> a 1 - f 1) (a(1 := {})) (f(0 := f 0 \<union> f 1, 1 := {})) = sets_free U A a f"
    "A \<union> a 1 - f 1 \<union> (f 0 \<union> f 1) = A \<union> f 0 \<union> a 1"
  using assms unfolding sets_ok_def sets_free_def by auto

lemma sets_done:
  assumes "sets_ok A a f" "a 1 = {}" "f 1 = {}"
    and "\<And>k. k < 3 \<Longrightarrow> a' k = a (Suc k)" "\<And>k. k < 3 \<Longrightarrow> f' k = f (Suc k)" "a' 3 = a 0" "f' 3 = {}"
  shows "sets_ok A a' f'" "A \<subseteq> U \<Longrightarrow> f 0 \<subseteq> U \<Longrightarrow> sets_free U A a' f' = sets_free U A a f \<union> f 0"
proof -
  have e: "a' 0 = a 1" "a' 1 = a 2" "a' 2 = a 3" "f' 0 = f 1" "f' 1 = f 2" "f' 2 = f 3"
    using assms(4) [of 0] assms(4) [of 1] assms(4) [of 2] assms(5) [of 0] assms(5) [of 1] assms(5) [of 2]
    by (simp_all add: numeral_3_eq_3 numeral_2_eq_2)
  show "sets_ok A a' f'" using assms(1-3,6,7) unfolding sets_ok_def e by auto
  show "sets_free U A a' f' = sets_free U A a f \<union> f 0" if "A \<subseteq> U" "f 0 \<subseteq> U"
    using assms(1-3,6,7) that unfolding sets_ok_def sets_free_def e by auto
qed

subsection \<open>Maps of the same geometry\<close>

lemma same_geometry_simps:
  assumes "same_geometry sm m"
  shows "sm_start m = sm_start sm" "sm_size m = sm_size sm" "sm_shift m = sm_shift sm"
    "space_map_aligned m = space_map_aligned sm" "seg_in_map m = seg_in_map sm" "range_in_map m = range_in_map sm"
  using assms by (auto simp: same_geometry_def space_map_aligned_def seg_in_map_def range_in_map_def fun_eq_iff)

lemma same_geometry_refl [simp]: "same_geometry sm sm"
  by (simp add: same_geometry_def)

lemma same_geometry_trans: "same_geometry a b \<Longrightarrow> same_geometry b c \<Longrightarrow> same_geometry a c"
  by (simp add: same_geometry_def)

lemma same_geometry_sym: "same_geometry a b \<Longrightarrow> same_geometry b a"
  by (simp add: same_geometry_def)

lemma space_map_same_geometry: "space_map_same sm m \<Longrightarrow> same_geometry sm m"
  by (auto simp: space_map_same_iff same_geometry_def)

lemma same_geometry_flags [simp]:
  "same_geometry sm (m\<lparr>sm_ppd := q\<rparr>) = same_geometry sm m" "same_geometry sm (m\<lparr>sm_loaded := b\<rparr>) = same_geometry sm m"
  "same_geometry sm (m\<lparr>sm_loading := b\<rparr>) = same_geometry sm m" "same_geometry sm (m\<lparr>sm_ops := p\<rparr>) = same_geometry sm m"
  by (simp_all add: same_geometry_def)

lemma smo_holds_geometry:
  assumes "same_geometry sm m"
  shows "smo_holds m smo obj A = smo_holds sm smo obj A"
proof -
  note g = same_geometry_simps(1-3) [OF assms]
  have "space_map_log m obj {} A = space_map_log sm obj {} A"
    by (rule iffI; erule log_same) (simp_all add: g)
  then show ?thesis by (simp add: smo_holds_def)
qed

lemma range_sub:
  assumes "a < b" "{a ..< b} \<subseteq> {c ..< d :: u64}"
  shows "c \<le> a" "b \<le> d"
proof -
  have "a \<in> {c ..< d}" using assms by auto
  then show "c \<le> a" by simp
  show "b \<le> d"
  proof (rule ccontr)
    assume "\<not> b \<le> d"
    then have "d \<in> {a ..< b}" using \<open>a \<in> {c ..< d}\<close> by (auto simp: not_le)
    then show False using assms(2) by auto
  qed
qed

lemma fits_range:
  assumes "space_map_inv sm" "alloc_fits sm sz off" "space_map_aligned sm sz"
  shows "range_in_map sm off sz"
proof -
  have f: "off < off + sz" "space_map_aligned sm off" "{off ..< off + sz} \<subseteq> space_map_set sm"
    using assms(2) by (simp_all add: alloc_fits_def)
  show ?thesis
    using range_sub [OF f(1) subset_trans [OF f(3) space_map_set_bounds [OF assms(1)]]] f(1,2) assms(3)
    by (simp add: range_in_map_def)
qed

lemma length_segs_card: "segs_ok zs \<Longrightarrow> length zs \<le> card (segs_set zs)"
proof -
  assume ok: "segs_ok zs"
  have "segs_apart xs \<Longrightarrow> \<forall>s \<in> set xs. ss_start s < ss_end s \<Longrightarrow> length xs \<le> card (segs_set xs)" for xs
  proof (induction xs)
    case (Cons s xs)
    have "card (segs_set (s # xs)) = card {ss_start s ..< ss_end s} + card (segs_set xs)"
      using Cons.prems(1) by (simp add: segs_apart_Cons card_Un_disjoint)
    moreover have "0 < card {ss_start s ..< ss_end s}" using Cons.prems(2) by (simp add: card_gt_0_iff)
    ultimately show ?case using Cons by (simp add: segs_apart_Cons)
  qed simp
  then show ?thesis using segs_apart_perm(1) [OF ok refl] ok by (auto simp: segs_ok_def)
qed

lemma geometry_encodable:
  assumes "ms_geometry sm" "same_geometry sm m" "space_map_inv m"
  shows "space_map_encodable m"
proof -
  have "avl_numnodes (sm_root m) = length (space_map_segs m)"
    using space_map_invD(1) [OF assms(3)] by (simp add: avl_wf_def space_map_segs_def avl_list_def)
  also have "\<dots> \<le> card (space_map_set m)"
    using assms(3) length_segs_card by (simp add: space_map_inv_def space_map_set_def)
  also have "\<dots> \<le> unat (sm_size m)" by (rule space_map_space_card(2) [OF assms(3)])
  finally show ?thesis
    using assms(1) same_geometry_simps [OF assms(2)]
    by (auto simp: space_map_encodable_def ms_geometry_def range_in_map_def)
qed

subsection \<open>Reading and updating the slots\<close>

lemma ms_slot:
  assumes "ms_wf msp"
  shows "space_map_inv (ms_allocmap msp ! txg_slot s k)"
    "same_geometry (ms_map msp) (ms_allocmap msp ! txg_slot s k)"
    "space_map_inv (ms_freemap msp ! txg_slot s k)"
    "same_geometry (ms_map msp) (ms_freemap msp ! txg_slot s k)"
  using assms slot_less [of s k] by (auto simp: ms_wf_def)

lemma ms_slot_bounds:
  assumes "ms_wf msp"
  shows "ms_allocs s msp k \<subseteq> ms_universe msp" "ms_frees s msp k \<subseteq> ms_universe msp"
proof -
  note a = ms_slot(1,2) [OF assms, of s k] and f = ms_slot(3,4) [OF assms, of s k]
  show "ms_allocs s msp k \<subseteq> ms_universe msp"
    using space_map_set_bounds [OF a(1)] same_geometry_simps(1,2) [OF a(2)] by (simp add: ms_allocs_def ms_universe_def)
  show "ms_frees s msp k \<subseteq> ms_universe msp"
    using space_map_set_bounds [OF f(1)] same_geometry_simps(1,2) [OF f(2)] by (simp add: ms_frees_def ms_universe_def)
qed

lemma allocs_update:
  assumes "length l = 4" "k < 4" "l = ms_allocmap msp"
  shows "ms_allocs s (msp'\<lparr>ms_allocmap := l[txg_slot s k := m]\<rparr>) = (ms_allocs s msp)(k := space_map_set m)"
  using assms slot_update [OF assms(1) _ assms(2)] by (auto simp: ms_allocs_def fun_eq_iff)

lemma frees_update:
  assumes "length l = 4" "k < 4" "l = ms_freemap msp"
  shows "ms_frees s (msp'\<lparr>ms_freemap := l[txg_slot s k := m]\<rparr>) = (ms_frees s msp)(k := space_map_set m)"
  using assms slot_update [OF assms(1) _ assms(2)] by (auto simp: ms_frees_def fun_eq_iff)

lemma slots_simps [simp]:
  "ms_allocs s (msp\<lparr>ms_map := sm\<rparr>) = ms_allocs s msp" "ms_frees s (msp\<lparr>ms_map := sm\<rparr>) = ms_frees s msp"
  "ms_allocs s (msp\<lparr>ms_freemap := fm\<rparr>) = ms_allocs s msp" "ms_frees s (msp\<lparr>ms_allocmap := am\<rparr>) = ms_frees s msp"
  "ms_allocs s (msp\<lparr>ms_smo := o1\<rparr>) = ms_allocs s msp" "ms_frees s (msp\<lparr>ms_smo := o1\<rparr>) = ms_frees s msp"
  "ms_allocs s (msp\<lparr>ms_smo_syncing := o1\<rparr>) = ms_allocs s msp" "ms_frees s (msp\<lparr>ms_smo_syncing := o1\<rparr>) = ms_frees s msp"
  "ms_allocs s (msp\<lparr>ms_weight := w\<rparr>) = ms_allocs s msp" "ms_frees s (msp\<lparr>ms_weight := w\<rparr>) = ms_frees s msp"
  by (simp_all add: fun_eq_iff ms_allocs_def ms_frees_def)

lemma ms_inv_weight [simp]: "ms_inv s obj A (msp\<lparr>ms_weight := w\<rparr>) = ms_inv s obj A msp"
  by (simp add: ms_inv_def ms_wf_def ms_core_def ms_universe_def)

text \<open>Changing the maps of a loaded metaslab.\<close>

lemma ms_inv_maps:
  assumes inv: "ms_inv s obj A msp" and l: "sm_loaded sm" "ff.picking ops_vec sm" "\<not> sm_loading sm"
    and g: "same_geometry (ms_map msp) sm" and len: "length am = 4" "length fm = 4"
    and maps: "\<forall>m \<in> set am \<union> set fm. space_map_inv m \<and> same_geometry (ms_map msp) m"
    and msp': "msp' = msp\<lparr>ms_map := sm, ms_allocmap := am, ms_freemap := fm\<rparr>"
    and ok: "sets_ok A (ms_allocs s msp') (ms_frees s msp')"
    and set: "space_map_set sm = sets_free (ms_universe msp) A (ms_allocs s msp') (ms_frees s msp')"
  shows "ms_inv s obj A msp'"
proof -
  have u: "ms_universe msp' = ms_universe msp"
    using same_geometry_simps(1,2) [OF g] by (simp add: ms_universe_def msp')
  have "ms_geometry sm" using inv same_geometry_simps [OF g] by (simp add: ms_inv_def ms_wf_def ms_geometry_def)
  then have "ms_wf msp'"
    using l len maps same_geometry_trans [OF same_geometry_sym [OF g]]
    by (auto simp: ms_wf_def msp' ff.picking_def)
  moreover have "ms_core msp' obj A (ms_allocs s msp') (ms_frees s msp')"
    using l set u by (simp add: ms_core_def) (simp add: msp')
  moreover have "smo_holds (ms_map msp') (ms_smo_syncing msp') obj A"
    using inv smo_holds_geometry [OF g] by (simp add: ms_inv_def msp')
  ultimately show ?thesis using ok by (simp add: ms_inv_def)
qed

subsection \<open>Allocating, claiming and freeing\<close>

lemma ms_inv_loaded:
  assumes "ms_inv s obj A msp" "sm_loaded (ms_map msp)"
  shows "ff.picking ops_vec (ms_map msp)" "space_map_set (ms_map msp) = ms_free_set s A msp" "ms_wf msp"
    "space_map_inv (ms_map msp)" "\<not> sm_loading (ms_map msp)" "sets_ok A (ms_allocs s msp) (ms_frees s msp)"
  using assms by (auto simp: ms_inv_def ms_core_def ms_free_set_def ms_wf_def)

lemma slot_maps:
  assumes "ms_wf msp" "space_map_inv m" "same_geometry (ms_map msp) m"
  shows "\<forall>m \<in> set ((ms_allocmap msp)[i := m]) \<union> set (ms_freemap msp). space_map_inv m \<and> same_geometry (ms_map msp) m"
    "\<forall>m \<in> set (ms_allocmap msp) \<union> set ((ms_freemap msp)[i := m]). space_map_inv m \<and> same_geometry (ms_map msp) m"
  using assms set_update_subset_insert [of "ms_allocmap msp" i m] set_update_subset_insert [of "ms_freemap msp" i m]
  unfolding ms_wf_def by (blast dest: subsetD)+

lemma slot_add_alloc:
  assumes "ms_wf msp" "k < 4" "range_in_map (ms_map msp) off sz" "ms_allocs s msp k \<inter> {off ..< off + sz} = {}"
  obtains am where "space_map_add zr (ms_allocmap msp ! txg_slot s k) off sz = Some am" "space_map_inv am"
    "same_geometry (ms_map msp) am" "space_map_set am = ms_allocs s msp k \<union> {off ..< off + sz}"
proof -
  note sl = ms_slot(1,2) [OF assms(1), of s k]
  have r: "range_in_map (ms_allocmap msp ! txg_slot s k) off sz"
    "space_map_set (ms_allocmap msp ! txg_slot s k) \<inter> {off ..< off + sz} = {}"
    using assms(2-4) same_geometry_simps(6) [OF sl(2)] by (simp_all add: ms_allocs_def)
  show thesis
    by (rule space_map_add_ok [OF sl(1) r, of zr])
      (use that assms(2) same_geometry_trans [OF sl(2)] in \<open>auto simp: ms_allocs_def same_geometry_def\<close>)
qed

lemma slot_add_free:
  assumes "ms_wf msp" "k < 4" "range_in_map (ms_map msp) off sz" "ms_frees s msp k \<inter> {off ..< off + sz} = {}"
  obtains fm where "space_map_add zr (ms_freemap msp ! txg_slot s k) off sz = Some fm" "space_map_inv fm"
    "same_geometry (ms_map msp) fm" "space_map_set fm = ms_frees s msp k \<union> {off ..< off + sz}"
proof -
  note sl = ms_slot(3,4) [OF assms(1), of s k]
  have r: "range_in_map (ms_freemap msp ! txg_slot s k) off sz"
    "space_map_set (ms_freemap msp ! txg_slot s k) \<inter> {off ..< off + sz} = {}"
    using assms(2-4) same_geometry_simps(6) [OF sl(2)] by (simp_all add: ms_frees_def)
  show thesis
    by (rule space_map_add_ok [OF sl(1) r, of zr])
      (use that assms(2) same_geometry_trans [OF sl(2)] in \<open>auto simp: ms_frees_def same_geometry_def\<close>)
qed

lemma slot_remove_alloc:
  assumes "ms_wf msp" "k < 4" "range_in_map (ms_map msp) off sz" "{off ..< off + sz} \<subseteq> ms_allocs s msp k"
  obtains am where "space_map_remove zr (ms_allocmap msp ! txg_slot s k) off sz = Some am" "space_map_inv am"
    "same_geometry (ms_map msp) am" "space_map_set am = ms_allocs s msp k - {off ..< off + sz}"
proof -
  note sl = ms_slot(1,2) [OF assms(1), of s k]
  have r: "space_map_aligned (ms_allocmap msp ! txg_slot s k) off"
    "space_map_aligned (ms_allocmap msp ! txg_slot s k) sz" "off < off + sz"
    "{off ..< off + sz} \<subseteq> space_map_set (ms_allocmap msp ! txg_slot s k)"
    using assms(2-4) same_geometry_simps(4) [OF sl(2)] by (simp_all add: ms_allocs_def range_in_map_def)
  show thesis
    by (rule space_map_remove_ok [OF sl(1) r, of zr])
      (use that assms(2) same_geometry_trans [OF sl(2)] in \<open>auto simp: ms_allocs_def same_geometry_def\<close>)
qed

lemma ms_inv_alloc_slot:
  assumes inv: "ms_inv s obj A msp" "sm_loaded (ms_map msp)" and k: "k \<in> {1, 2, 3}"
    and sm: "sm_loaded sm" "ff.picking ops_vec sm" "\<not> sm_loading sm" "same_geometry (ms_map msp) sm"
    and m: "space_map_inv m" "same_geometry (ms_map msp) m"
    and ok: "sets_ok A ((ms_allocs s msp)(k := space_map_set m)) (ms_frees s msp)"
    and set: "space_map_set sm = sets_free (ms_universe msp) A ((ms_allocs s msp)(k := space_map_set m)) (ms_frees s msp)"
  shows "ms_inv s obj A (msp\<lparr>ms_map := sm, ms_allocmap := (ms_allocmap msp)[txg_slot s k := m]\<rparr>)"
proof -
  note wf = ms_inv_loaded(3) [OF inv]
  have len: "length (ms_allocmap msp) = 4" "length (ms_freemap msp) = 4" using wf by (auto simp: ms_wf_def)
  have k4: "k < 4" using k by auto
  let ?m = "msp\<lparr>ms_map := sm, ms_allocmap := (ms_allocmap msp)[txg_slot s k := m]\<rparr>"
  have a: "ms_allocs s ?m = (ms_allocs s msp)(k := space_map_set m)" by (rule allocs_update [OF len(1) k4 refl])
  show ?thesis
    by (rule ms_inv_maps [OF inv(1) sm _ _ slot_maps(1) [OF wf m]])
      (use len a ok set in simp_all)
qed

lemma ms_alloc_ok:
  assumes inv: "ms_inv s obj A msp" "sm_loaded (ms_map msp)" and k: "k \<in> {1, 2, 3}"
    and sz: "alloc_size_ok (ms_map msp) sz"
  obtains (none) q where "space_map_alloc zr ops_vec (ms_map msp) sz = Some (- 1, (ms_map msp)\<lparr>sm_ppd := q\<rparr>)"
      "ms_inv s obj A (msp\<lparr>ms_map := (ms_map msp)\<lparr>sm_ppd := q\<rparr>\<rparr>)"
    | (some) off sm am where "space_map_alloc zr ops_vec (ms_map msp) sz = Some (off, sm)" "off \<noteq> - 1"
      "range_in_map (ms_map msp) off sz" "{off ..< off + sz} \<subseteq> ms_free_set s A msp"
      "space_map_add zr (ms_allocmap msp ! txg_slot s k) off sz = Some am"
      "ms_inv s obj A (msp\<lparr>ms_map := sm, ms_allocmap := (ms_allocmap msp)[txg_slot s k := am]\<rparr>)"
      "space_map_set am = ms_allocs s msp k \<union> {off ..< off + sz}" "same_geometry (ms_map msp) sm"
      "sm_loaded sm"
proof -
  note l = ms_inv_loaded [OF inv]
  obtain off sm q where r: "space_map_alloc zr ops_vec (ms_map msp) sz = Some (off, sm)" "ff.picking ops_vec sm"
      "space_map_same ((ms_map msp)\<lparr>sm_ppd := q\<rparr>) sm"
      "off = - 1 \<and> sm = (ms_map msp)\<lparr>sm_ppd := q\<rparr> \<or> alloc_fits (ms_map msp) sz off \<and>
        space_map_set sm = space_map_set (ms_map msp) - {off ..< off + sz}"
    using ff.space_map_alloc_law [OF l(1) sz, of zr] by (elim exE conjE) auto
  have g: "same_geometry (ms_map msp) sm" "sm_loaded sm" "\<not> sm_loading sm"
    using r(3) inv(2) l(5) by (auto simp: space_map_same_iff same_geometry_def)
  have k4: "k < 4" using k by auto
  note sl = ms_slot [OF l(3), of s k]
  show thesis
  proof (cases "off = - 1")
    case True
    then have sm: "sm = (ms_map msp)\<lparr>sm_ppd := q\<rparr>" using r(4) by (auto simp: alloc_fits_def)
    have "ms_inv s obj A (msp\<lparr>ms_map := sm, ms_allocmap := (ms_allocmap msp)[txg_slot s k :=
        ms_allocmap msp ! txg_slot s k]\<rparr>)"
      by (rule ms_inv_alloc_slot [OF inv k g(2) r(2) g(3,1) sl(1,2)])
        (use l(2,6) k4 sm in \<open>simp_all add: ms_allocs_def [symmetric] ms_free_set_def fun_upd_idem ms_allocs_def\<close>)
    then show thesis using none r(1) True sm by simp
  next
    case False
    then have f: "alloc_fits (ms_map msp) sz off" "space_map_set sm = space_map_set (ms_map msp) - {off ..< off + sz}"
      using r(4) by auto
    have rg: "range_in_map (ms_map msp) off sz"
      by (rule fits_range [OF l(4) f(1)]) (use sz in \<open>simp add: alloc_size_ok_def\<close>)
    have fr: "{off ..< off + sz} \<subseteq> sets_free (ms_universe msp) A (ms_allocs s msp) (ms_frees s msp)"
      using f(1) l(2) by (simp add: alloc_fits_def ms_free_set_def)
    have "ms_allocs s msp k \<inter> {off ..< off + sz} = {}" using fr k by (auto simp: sets_free_def)
    then obtain am where am: "space_map_add zr (ms_allocmap msp ! txg_slot s k) off sz = Some am"
      "space_map_inv am" "same_geometry (ms_map msp) am" "space_map_set am = ms_allocs s msp k \<union> {off ..< off + sz}"
      using slot_add_alloc [OF l(3) k4 rg] by metis
    note st = sets_alloc [OF l(6) k fr]
    have "ms_inv s obj A (msp\<lparr>ms_map := sm, ms_allocmap := (ms_allocmap msp)[txg_slot s k := am]\<rparr>)"
      by (rule ms_inv_alloc_slot [OF inv k g(2) r(2) g(3,1) am(2,3)])
        (use st f(2) l(2) am(4) in \<open>simp_all add: ms_free_set_def\<close>)
    then show thesis using some [OF r(1) False rg _ am(1) _ am(4) g(1,2)] fr by (simp add: ms_free_set_def)
  qed
qed

lemma ms_claim_ok:
  assumes inv: "ms_inv s obj A msp" "sm_loaded (ms_map msp)" and k: "k \<in> {1, 2, 3}"
    and rg: "range_in_map (ms_map msp) off sz" and fr: "{off ..< off + sz} \<subseteq> ms_free_set s A msp"
  obtains sm am where "space_map_claim zr ops_vec (ms_map msp) off sz = Some sm"
      "space_map_add zr (ms_allocmap msp ! txg_slot s k) off sz = Some am"
      "ms_inv s obj A (msp\<lparr>ms_map := sm, ms_allocmap := (ms_allocmap msp)[txg_slot s k := am]\<rparr>)"
      "space_map_set am = ms_allocs s msp k \<union> {off ..< off + sz}"
proof -
  note l = ms_inv_loaded [OF inv]
  obtain sm where r: "space_map_claim zr ops_vec (ms_map msp) off sz = Some sm" "ff.picking ops_vec sm"
      "space_map_same (ms_map msp) sm" "space_map_set sm = space_map_set (ms_map msp) - {off ..< off + sz}"
    using ff.space_map_claim_law [OF l(1) rg, of zr] fr l(2) by auto
  have g: "same_geometry (ms_map msp) sm" "sm_loaded sm" "\<not> sm_loading sm"
    using r(3) inv(2) l(5) by (auto simp: space_map_same_iff same_geometry_def)
  have k4: "k < 4" using k by auto
  have "ms_allocs s msp k \<inter> {off ..< off + sz} = {}" using fr k by (auto simp: sets_free_def ms_free_set_def)
  then obtain am where am: "space_map_add zr (ms_allocmap msp ! txg_slot s k) off sz = Some am"
    "space_map_inv am" "same_geometry (ms_map msp) am" "space_map_set am = ms_allocs s msp k \<union> {off ..< off + sz}"
    using slot_add_alloc [OF l(3) k4 rg] by metis
  note st = sets_alloc [OF l(6) k fr [unfolded ms_free_set_def]]
  have "ms_inv s obj A (msp\<lparr>ms_map := sm, ms_allocmap := (ms_allocmap msp)[txg_slot s k := am]\<rparr>)"
    by (rule ms_inv_alloc_slot [OF inv k g(2) r(2) g(3,1) am(2,3)])
      (use st r(4) l(2) am(4) in \<open>simp_all add: ms_free_set_def\<close>)
  then show thesis using that [OF r(1) am(1) _ am(4)] by blast
qed

lemma ms_free_now_ok:
  assumes inv: "ms_inv s obj A msp" "sm_loaded (ms_map msp)" and k: "k \<in> {1, 2, 3}"
    and rg: "range_in_map (ms_map msp) off sz" and a: "{off ..< off + sz} \<subseteq> ms_allocs s msp k"
    and nf: "{off ..< off + sz} \<inter> (ms_frees s msp 1 \<union> ms_frees s msp 2 \<union> ms_frees s msp 3) = {}"
  obtains sm am where "space_map_remove zr (ms_allocmap msp ! txg_slot s k) off sz = Some am"
      "space_map_free zr ops_vec (ms_map msp) off sz = Some sm"
      "ms_inv s obj A (msp\<lparr>ms_map := sm, ms_allocmap := (ms_allocmap msp)[txg_slot s k := am]\<rparr>)"
      "space_map_set sm = ms_free_set s A msp \<union> {off ..< off + sz}" "same_geometry (ms_map msp) sm"
      "space_map_set am = ms_allocs s msp k - {off ..< off + sz}" "sm_loaded sm"
proof -
  note l = ms_inv_loaded [OF inv]
  have "space_map_set (ms_map msp) \<inter> {off ..< off + sz} = {}"
    unfolding l(2) using a k by (auto simp: ms_free_set_def sets_free_def)
  then obtain sm where r: "space_map_free zr ops_vec (ms_map msp) off sz = Some sm" "ff.picking ops_vec sm"
      "space_map_same (ms_map msp) sm" "space_map_set sm = space_map_set (ms_map msp) \<union> {off ..< off + sz}"
    using ff.space_map_free_law [OF l(1) rg, of zr] by auto
  have g: "same_geometry (ms_map msp) sm" "sm_loaded sm" "\<not> sm_loading sm"
    using r(3) inv(2) l(5) by (auto simp: space_map_same_iff same_geometry_def)
  have k4: "k < 4" using k by auto
  obtain am where am: "space_map_remove zr (ms_allocmap msp ! txg_slot s k) off sz = Some am"
    "space_map_inv am" "same_geometry (ms_map msp) am" "space_map_set am = ms_allocs s msp k - {off ..< off + sz}"
    using slot_remove_alloc [OF l(3) k4 rg a] by metis
  note st = sets_free_now [OF l(6) k a nf ms_slot_bounds(1) [OF l(3)]]
  have "ms_inv s obj A (msp\<lparr>ms_map := sm, ms_allocmap := (ms_allocmap msp)[txg_slot s k := am]\<rparr>)"
    by (rule ms_inv_alloc_slot [OF inv k g(2) r(2) g(3,1) am(2,3)])
      (use st r(4) l(2) am(4) in \<open>simp_all add: ms_free_set_def\<close>)
  then show thesis using that [OF am(1) r(1) _ _ g(1) am(4) g(2)] r(4) l(2) by simp
qed

lemma ms_free_later_ok:
  assumes inv: "ms_inv s obj A msp" and k: "k \<in> {1, 2, 3}" and rg: "range_in_map (ms_map msp) off sz"
    and a: "{off ..< off + sz} \<subseteq> A \<union> (\<Union>j \<in> {1 .. k}. ms_allocs s msp j)"
    and nf: "{off ..< off + sz} \<inter> (ms_frees s msp 1 \<union> ms_frees s msp 2 \<union> ms_frees s msp 3) = {}"
  obtains fm where "space_map_add zr (ms_freemap msp ! txg_slot s k) off sz = Some fm"
      "ms_inv s obj A (msp\<lparr>ms_freemap := (ms_freemap msp)[txg_slot s k := fm]\<rparr>)"
      "space_map_set fm = ms_frees s msp k \<union> {off ..< off + sz}"
      "ms_free_set s A (msp\<lparr>ms_freemap := (ms_freemap msp)[txg_slot s k := fm]\<rparr>) = ms_free_set s A msp"
proof -
  have wf: "ms_wf msp" and ok: "sets_ok A (ms_allocs s msp) (ms_frees s msp)" using inv by (auto simp: ms_inv_def)
  have k4: "k < 4" "k \<noteq> 0" using k by auto
  have len: "length (ms_freemap msp) = 4" using wf by (simp add: ms_wf_def)
  have "ms_frees s msp k \<inter> {off ..< off + sz} = {}" using nf k by auto
  then obtain fm where fm: "space_map_add zr (ms_freemap msp ! txg_slot s k) off sz = Some fm" "space_map_inv fm"
    "same_geometry (ms_map msp) fm" "space_map_set fm = ms_frees s msp k \<union> {off ..< off + sz}"
    using slot_add_free [OF wf k4(1) rg] by metis
  define msp' where "msp' = msp\<lparr>ms_freemap := (ms_freemap msp)[txg_slot s k := fm]\<rparr>"
  have f: "ms_frees s msp' = (ms_frees s msp)(k := ms_frees s msp k \<union> {off ..< off + sz})" "ms_allocs s msp' = ms_allocs s msp"
    unfolding msp'_def fm(4) [symmetric] by (rule frees_update [OF len k4(1) refl]) simp
  have u: "ms_universe msp' = ms_universe msp" by (simp add: msp'_def ms_universe_def)
  have "ms_wf msp'" using wf slot_maps(2) [OF wf fm(2,3)] by (simp add: msp'_def ms_wf_def)
  moreover have "ms_core msp' obj A (ms_allocs s msp') (ms_frees s msp')"
    using inv sets_free_op(2) [OF ok k a nf] k4(2) unfolding f ms_inv_def ms_core_def u
    by (simp add: msp'_def del: One_nat_def)
  ultimately have "ms_inv s obj A msp'"
    using inv sets_free_op(1) [OF ok k a nf] f by (simp add: ms_inv_def) (simp add: msp'_def)
  then show thesis using that [OF fm(1) _ fm(4)] sets_free_op(2) [OF ok k a nf] f u
    by (simp add: msp'_def [symmetric] ms_free_set_def)
qed

subsection \<open>Loading\<close>

lemma reads_prefix:
  assumes "object_reads_or_fails rd obj"
  shows "object_reads_or_fails rd (take n obj)"
proof -
  have "read_in obj off sz \<and> take (unat sz div 8) (drop (unat off div 8) (take n obj)) =
      take (unat sz div 8) (drop (unat off div 8) obj)" if r: "read_in (take n obj) off sz" for off sz
  proof -
    have l: "unat off + unat sz \<le> 8 * min (length obj) n" "8 dvd unat off" "8 dvd unat sz"
      using r by (auto simp: read_in_def)
    then have "unat sz div 8 + unat off div 8 \<le> n" by (auto elim!: dvdE)
    then have "min (unat sz div 8) (n - unat off div 8) = unat sz div 8" by simp
    then show ?thesis using l by (simp add: read_in_def drop_take min.commute)
  qed
  then show ?thesis using assms unfolding object_reads_or_fails_def by metis
qed

lemma ms_load_ok:
  assumes inv: "ms_inv s obj A msp" and rd: "object_reads_or_fails (dmu_read (smo_object (ms_smo msp))) obj"
  obtains error sm where
    "space_map_load zr ops_vec dmu_read (ms_map msp) (Some Metaslab_ff_ops) SM_FREE (ms_smo msp) = Some (error, sm)"
    "ms_inv s obj A (msp\<lparr>ms_map := sm\<rparr>)" "same_geometry (ms_map msp) sm" "error = 0 \<longleftrightarrow> sm_loaded sm"
proof (cases "sm_loaded (ms_map msp)")
  case True
  have "\<not> sm_loading (ms_map msp)" using inv by (simp add: ms_inv_def ms_wf_def)
  then have "space_map_load zr ops_vec dmu_read (ms_map msp) (Some Metaslab_ff_ops) SM_FREE (ms_smo msp) = Some (0, ms_map msp)"
    using True by (simp add: space_map_load_def space_map_load_wait_def)
  then show thesis using that [of 0 "ms_map msp"] True inv by simp
next
  case False
  then obtain n where u: "space_map_unloaded (ms_map msp)" "ms_allocs s msp 1 = {}" "ms_allocs s msp 2 = {}"
    "ms_allocs s msp 3 = {}" "smo_holds (ms_map msp) (ms_smo msp) (take n obj) (A \<union> ms_frees s msp 0)"
    using inv by (auto simp: ms_inv_def ms_core_def)
  obtain error sm where r: "space_map_load zr ops_vec dmu_read (ms_map msp) (Some Metaslab_ff_ops) SM_FREE (ms_smo msp) =
      Some (error, sm)" "space_map_inv sm" "sm_start sm = sm_start (ms_map msp)" "sm_size sm = sm_size (ms_map msp)"
    "sm_shift sm = sm_shift (ms_map msp)" "\<not> sm_loading sm"
    "if error = 0 then sm_loaded sm \<and> ff.picking ops_vec sm \<and>
       space_map_set sm = map_view SM_FREE (ms_map msp) (A \<union> ms_frees s msp 0) else space_map_unloaded sm"
    using ff.space_map_load_law [where vec = ops_vec and p = Metaslab_ff_ops and zr = zr and dmu_read = dmu_read and maptype = SM_FREE, OF disjI2 [OF refl] u(1,5) reads_prefix [OF rd] ops_vec.simps]
    by (elim exE conjE) (auto split: if_splits)
  have g: "same_geometry (ms_map msp) sm" using r(3-5) by (simp add: same_geometry_def)
  have U: "ms_universe (msp\<lparr>ms_map := sm\<rparr>) = ms_universe msp" using r(3,4) by (simp add: ms_universe_def)
  have "ms_geometry sm" using inv same_geometry_simps [OF g] by (simp add: ms_inv_def ms_wf_def ms_geometry_def)
  then have "ms_wf (msp\<lparr>ms_map := sm\<rparr>)"
    using inv r(2,6) same_geometry_trans [OF same_geometry_sym [OF g]] by (auto simp: ms_inv_def ms_wf_def)
  moreover have "ms_core (msp\<lparr>ms_map := sm\<rparr>) obj A (ms_allocs s msp) (ms_frees s msp)"
  proof (cases "error = 0")
    case True
    then show ?thesis using r(7) u(2-4) unfolding ms_core_def U
      by (simp add: sets_free_def map_view_def ms_universe_def SM_FREE_def SM_ALLOC_def Diff_Un Diff_Int2 set_diff_eq)
  next
    case False
    then show ?thesis using r(7) u(2-5) smo_holds_geometry [OF g] unfolding ms_core_def U
      by (auto simp: space_map_unloaded_def)
  qed
  ultimately have "ms_inv s obj A (msp\<lparr>ms_map := sm\<rparr>)"
    using inv smo_holds_geometry [OF g] by (simp add: ms_inv_def)
  then show thesis using that r(1,7) g by (auto simp: space_map_unloaded_def split: if_splits)
qed

end
