(* ===== verification/Metaslab_Sync.thy ===== *)
theory Metaslab_Sync
  imports Metaslab_Space
begin

text \<open>
  Syncing a metaslab: the object on disk, condensing it, writing the maps of a transaction group, and
  completing the transaction group.
\<close>

subsection \<open>Condensing\<close>

lemma map_segs_in:
  assumes "space_map_inv m" "same_geometry d m"
  shows "\<forall>s \<in> set (space_map_segs m). seg_in_map d s"
  using assms(1) same_geometry_simps(5) [OF assms(2)] by (simp add: space_map_inv_def)

lemma walk_add:
  assumes "space_map_inv d" "space_map_inv m" "same_geometry d m" "space_map_set d \<inter> space_map_set m = {}"
  obtains d' where "space_map_walk m (space_map_add zr) d = Some d'" "space_map_inv d'" "same_geometry d d'"
    "space_map_set d' = space_map_set d \<union> space_map_set m"
  using sm_add.walk_law [OF assms(1,2) map_segs_in [OF assms(2,3)] assms(4), of zr] space_map_same_geometry that
  unfolding sm_add.func_spec_def by blast

lemma walk_remove:
  assumes "space_map_inv d" "space_map_inv m" "same_geometry d m" "space_map_set m \<subseteq> space_map_set d"
  obtains d' where "space_map_walk m (space_map_remove zr) d = Some d'" "space_map_inv d'" "same_geometry d d'"
    "space_map_set d' = space_map_set d - space_map_set m"
  using sm_remove.walk_law [OF assms(1,2) map_segs_in [OF assms(2,3)] assms(4), of zr] space_map_same_geometry that
  unfolding sm_remove.func_spec_def by blast

lemma full_map:
  assumes "ms_geometry sm" "same_geometry sm m" "space_map_inv m"
  obtains d where "space_map_add zr (space_map_emptied m) (sm_start m) (sm_size m) = Some d" "space_map_inv d"
    "same_geometry sm d" "space_map_set d = {sm_start sm ..< sm_start sm + sm_size sm}"
proof -
  note e = space_map_emptied_ok [OF assms(3)] and g = same_geometry_simps [OF assms(2)]
  have r: "range_in_map (space_map_emptied m) (sm_start m) (sm_size m)"
    using assms(1) space_map_same_simps(10) [OF e(3)] g by (simp add: ms_geometry_def)
  have "space_map_set (space_map_emptied m) \<inter> {sm_start m ..< sm_start m + sm_size m} = {}" using e(2) by simp
  from space_map_add_ok [OF e(1) r this, of zr] obtain d where
    d: "space_map_add zr (space_map_emptied m) (sm_start m) (sm_size m) = Some d" "space_map_inv d"
    "space_map_set d = {sm_start m ..< sm_start m + sm_size m}" "space_map_same (space_map_emptied m) d"
    using e(2) by (metis space_map_same_update sup_bot_left)
  then show thesis
    using that same_geometry_trans [OF assms(2) same_geometry_trans [OF space_map_same_geometry [OF e(3)]
          space_map_same_geometry [OF d(4)]]] g by simp
qed

lemma condense_ok:
  assumes wf: "ms_wf msp" and fr: "dmu_free_range (smo_object (ms_smo_syncing msp)) = 0"
    and sub: "ms_frees s msp 0 \<subseteq> ms_universe msp - space_map_set (ms_map msp)"
      "ms_allocs s msp 2 \<subseteq> ms_universe msp - space_map_set (ms_map msp) - ms_frees s msp 0"
      "ms_allocs s msp 3 \<subseteq> ms_universe msp - space_map_set (ms_map msp) - ms_frees s msp 0 - ms_allocs s msp 2"
  obtains am fm where "metaslab_condense zr dmu_free_range msp (s + 1) =
      Some (msp\<lparr>ms_allocmap := (ms_allocmap msp)[txg_slot s 1 := am], ms_freemap := (ms_freemap msp)[txg_slot s 1 := fm],
              ms_smo_syncing := (ms_smo_syncing msp)\<lparr>smo_objsize := 0, smo_alloc := 0\<rparr>\<rparr>,
            [Dmu_free_range (smo_object (ms_smo_syncing msp))])"
    "space_map_inv am" "same_geometry (ms_map msp) am" "space_map_inv fm" "same_geometry (ms_map msp) fm"
    "space_map_set fm = {}"
    "space_map_set am = ms_universe msp - space_map_set (ms_map msp) - ms_frees s msp 0 - ms_allocs s msp 2 - ms_allocs s msp 3"
proof -
  have geo: "ms_geometry (ms_map msp)" "space_map_inv (ms_map msp)" using wf by (auto simp: ms_wf_def)
  note a1 = ms_slot(1,2) [OF wf, of s 1] and f1 = ms_slot(3,4) [OF wf, of s 1]
  note a2 = ms_slot(1,2) [OF wf, of s 2] and a3 = ms_slot(1,2) [OF wf, of s 3] and f0 = ms_slot(3,4) [OF wf, of s 0]
  have tr: "same_geometry d m" if "same_geometry (ms_map msp) d" "same_geometry (ms_map msp) m" for d m
    using that by (auto simp: same_geometry_def)
  obtain d where d: "space_map_add zr (space_map_emptied (ms_allocmap msp ! txg_slot s 1))
      (sm_start (ms_allocmap msp ! txg_slot s 1)) (sm_size (ms_allocmap msp ! txg_slot s 1)) = Some d"
    "space_map_inv d" "same_geometry (ms_map msp) d" "space_map_set d = ms_universe msp"
    using full_map [OF geo(1) a1(2,1), of zr] unfolding ms_universe_def by metis
  obtain d1 where d1: "space_map_walk (ms_map msp) (space_map_remove zr) d = Some d1" "space_map_inv d1"
    "same_geometry (ms_map msp) d1" "space_map_set d1 = ms_universe msp - space_map_set (ms_map msp)"
    using walk_remove [OF d(2) geo(2) same_geometry_sym [OF d(3)], of zr] d(3,4) space_map_set_bounds [OF geo(2)]
      same_geometry_trans unfolding ms_universe_def by metis
  obtain d2 where d2: "space_map_walk (ms_freemap msp ! txg_slot s 0) (space_map_remove zr) d1 = Some d2" "space_map_inv d2"
    "same_geometry (ms_map msp) d2" "space_map_set d2 = ms_universe msp - space_map_set (ms_map msp) - ms_frees s msp 0"
    using walk_remove [OF d1(2) f0(1) tr [OF d1(3) f0(2)], of zr] d1(3,4) sub(1) same_geometry_trans
    by (simp add: ms_frees_def) metis
  obtain d3 where d3: "space_map_walk (ms_allocmap msp ! txg_slot s 2) (space_map_remove zr) d2 = Some d3" "space_map_inv d3"
    "same_geometry (ms_map msp) d3"
    "space_map_set d3 = ms_universe msp - space_map_set (ms_map msp) - ms_frees s msp 0 - ms_allocs s msp 2"
    using walk_remove [OF d2(2) a2(1) tr [OF d2(3) a2(2)], of zr] d2(3,4) sub(2) same_geometry_trans
    by (simp add: ms_allocs_def) metis
  obtain d4 where d4: "space_map_walk (ms_allocmap msp ! txg_slot s 3) (space_map_remove zr) d3 = Some d4" "space_map_inv d4"
    "same_geometry (ms_map msp) d4"
    "space_map_set d4 = ms_universe msp - space_map_set (ms_map msp) - ms_frees s msp 0 - ms_allocs s msp 2 - ms_allocs s msp 3"
    using walk_remove [OF d3(2) a3(1) tr [OF d3(3) a3(2)], of zr] d3(3,4) sub(3) same_geometry_trans
    by (simp add: ms_allocs_def) metis
  note e = space_map_emptied_ok [OF f1(1)]
  have ss: "sm_start (space_map_emptied m) = sm_start m" "sm_size (space_map_emptied m) = sm_size m" for m
    by (simp_all add: space_map_emptied_def)
  have l: "[1 ..< TXG_CONCURRENT_STATES] = [1, 2]" by (simp add: TXG_CONCURRENT_STATES_def upt_rec)
  have i: "TXG_IDX (s + 1 + of_nat 1) = txg_slot s 2" "TXG_IDX (s + 1 + of_nat 2) = txg_slot s 3"
    using TXG_IDX_slot(3) [of s 1] TXG_IDX_slot(3) [of s 2] by (simp_all add: numeral_2_eq_2 numeral_3_eq_3)
  have "metaslab_condense zr dmu_free_range msp (s + 1) =
      Some (msp\<lparr>ms_allocmap := (ms_allocmap msp)[txg_slot s 1 := d4],
              ms_freemap := (ms_freemap msp)[txg_slot s 1 := space_map_emptied (ms_freemap msp ! txg_slot s 1)],
              ms_smo_syncing := (ms_smo_syncing msp)\<lparr>smo_objsize := 0, smo_alloc := 0\<rparr>\<rparr>,
            [Dmu_free_range (smo_object (ms_smo_syncing msp))])"
    unfolding metaslab_condense_def Let_def TXG_IDX_slot(1,2) space_map_vacate_none [OF a1(1)] space_map_vacate_none [OF f1(1)] l
    by (simp add: ss d(1) d1(1) d2(1) d3(1) d4(1) i [simplified] space_map_truncate_def fr del: One_nat_def)
  then show thesis
    using that d4(2-4) e(1,2) same_geometry_trans [OF f1(2) space_map_same_geometry [OF e(3)]] by blast
qed

subsection \<open>The object on disk\<close>

text \<open>The effect on the words of one object of what a metaslab asks of the DMU.\<close>

fun dmu_apply :: "u64 \<Rightarrow> ms_effect \<Rightarrow> u64 list \<Rightarrow> u64 list" where
  "dmu_apply object (Dmu_write p off ws) obj =
     (if p = object then take (unat off div 8) obj @ ws @ drop (unat off div 8 + length ws) obj else obj)"
| "dmu_apply object (Dmu_free_range p) obj = (if p = object then [] else obj)"
| "dmu_apply object _ obj = obj"

fun effect_words :: "ms_effect \<Rightarrow> nat" where
  "effect_words (Dmu_write p off ws) = length ws"
| "effect_words _ = 0"

abbreviation words_written :: "ms_effect list \<Rightarrow> nat" where
  "words_written eff \<equiv> sum_list (map effect_words eff)"

abbreviation obj_writes :: "u64 \<Rightarrow> (u64 \<times> u64 list) list \<Rightarrow> ms_effect list" where
  "obj_writes object ws \<equiv> map (\<lambda>(off, w). Dmu_write object off w) ws"

lemma obj_writes_words: "words_written (obj_writes object ws) = length (writes_words ws)"
  by (induction ws) (auto simp: writes_words_def)

lemma apply_writes:
  assumes "writes_at base ws" "unat base = 8 * length obj" "8 * length (obj @ writes_words ws) < 2 ^ 64"
  shows "fold (dmu_apply object) (obj_writes object ws) obj = obj @ writes_words ws"
  using assms
proof (induction ws arbitrary: base obj)
  case (Cons w ws)
  obtain off xs where w: "w = (off, xs)" by (cases w)
  have b: "off = base" "writes_at (base + of_nat (8 * length xs)) ws" using Cons.prems(1) by (auto simp: w)
  have "unat (of_nat (8 * length xs) :: u64) = 8 * length xs"
    using Cons.prems(3) by (intro unat_of_nat64) (simp add: w)
  then have "unat (base + of_nat (8 * length xs)) = 8 * length (obj @ xs)"
    using Cons.prems(2,3) by (subst unat_add64) (auto simp: w)
  then show ?case
    using Cons.IH [OF b(2), of "obj @ xs"] Cons.prems(2,3) b(1) by (simp add: w)
qed simp

lemma objsize_zero: "smo_holds sm (smo\<lparr>smo_objsize := 0, smo_alloc := 0\<rparr>) [] {}"
  by (simp add: smo_holds_def log_nil)

lemma smo_holds_object [simp]: "smo_holds sm (smo\<lparr>smo_object := o1\<rparr>) obj A = smo_holds sm smo obj A"
  by (simp add: smo_holds_def)

subsection \<open>Writing the maps of a transaction group\<close>

text \<open>The two calls of \<^verbatim>\<open>space_map_sync\<close> that end \<^verbatim>\<open>metaslab_sync\<close>.\<close>

lemma sync_two:
  assumes geo: "ms_geometry sm" and am: "space_map_inv am" "same_geometry sm am"
    and fm: "space_map_inv fm" "same_geometry sm fm" and o: "smo_holds sm smo obj A"
    and pre: "A \<inter> space_map_set am = {}" "space_map_set fm \<subseteq> A \<union> space_map_set am"
  obtains smo1 ws smo2 ws' where
    "space_map_sync am SM_ALLOC smo sync_pass txg = Some (space_map_emptied am, smo1, ws)"
    "space_map_sync fm SM_FREE smo1 sync_pass txg = Some (space_map_emptied fm, smo2, ws')"
    "smo_object smo2 = smo_object smo"
    "8 * (length obj + words_written (obj_writes object (ws @ ws'))) + 4096 < 2 ^ 64 \<longrightarrow>
      smo_holds sm smo2 (fold (dmu_apply object) (obj_writes object (ws @ ws')) obj) (A \<union> space_map_set am - space_map_set fm) \<and>
      fold (dmu_apply object) (obj_writes object (ws @ ws')) obj = obj @ writes_words (ws @ ws')"
proof -
  note ga = same_geometry_simps(1-3) [OF am(2)] and gf = same_geometry_simps(1-3) [OF fm(2)]
  have le: "log_eff (ucast SM_ALLOC) B X = B \<union> X" "log_eff (ucast SM_FREE) B X = B - X" for B X
    by (simp_all add: log_eff_def SM_FREE_def SM_ALLOC_def)
  have p1: "log_pre (ucast SM_ALLOC) A (space_map_set am)" using pre(1) by (simp add: log_pre_def)
  obtain smo1 ws where s1: "space_map_sync am SM_ALLOC smo sync_pass txg = Some (space_map_emptied am, smo1, ws)"
    "writes_at (smo_objsize smo) ws" "smo_object smo1 = smo_object smo"
    "8 * length (obj @ writes_words ws) + 4096 < 2 ^ 64 \<longrightarrow> smo_holds sm smo1 (obj @ writes_words ws) (A \<union> space_map_set am)"
    by (rule sync_holds [OF am(1) geometry_encodable [OF geo am(2,1)] disjI1 [OF refl] ga [symmetric] o p1,
          of sync_pass txg, unfolded le(1)])
  have p2: "log_pre (ucast SM_FREE) (A \<union> space_map_set am) (space_map_set fm)"
    using pre(2) by (simp add: log_pre_def SM_FREE_def SM_ALLOC_def)
  have oo: "unat (smo_objsize smo) = 8 * length obj" using o by (simp add: smo_holds_def)
  have exec: "\<exists>smo2 ws'. space_map_sync fm SM_FREE smo1 sync_pass txg = Some (space_map_emptied fm, smo2, ws') \<and>
    smo_object smo2 = smo_object smo1 \<and> writes_at (smo_objsize smo1) ws' \<and>
    (8 * length (obj @ writes_words ws) + 4096 < 2 ^ 64 \<longrightarrow> 8 * length (obj @ writes_words ws @ writes_words ws') + 4096 < 2 ^ 64 \<longrightarrow>
     smo_holds sm smo2 (obj @ writes_words ws @ writes_words ws') (A \<union> space_map_set am - space_map_set fm))"
  proof (cases "8 * length (obj @ writes_words ws) + 4096 < 2 ^ 64")
    case True
    show ?thesis
      by (rule sync_holds [OF fm(1) geometry_encodable [OF geo fm(2,1)] disjI2 [OF refl] gf [symmetric] mp [OF s1(4) True] p2,
            of sync_pass txg, unfolded le(2)]) auto
  next
    case False
    show ?thesis
      by (rule space_map_sync_ok [OF fm(1) geometry_encodable [OF geo fm(2,1)] disjI2 [OF refl] p2, of smo1 sync_pass txg])
        (use False in auto)
  qed
  then obtain smo2 ws' where s2: "space_map_sync fm SM_FREE smo1 sync_pass txg = Some (space_map_emptied fm, smo2, ws')"
    "smo_object smo2 = smo_object smo1" "writes_at (smo_objsize smo1) ws'"
    "8 * length (obj @ writes_words ws) + 4096 < 2 ^ 64 \<Longrightarrow> 8 * length (obj @ writes_words ws @ writes_words ws') + 4096 < 2 ^ 64 \<Longrightarrow>
     smo_holds sm smo2 (obj @ writes_words ws @ writes_words ws') (A \<union> space_map_set am - space_map_set fm)"
    by blast
  show thesis
  proof (rule that [OF s1(1) s2(1)])
    show "smo_object smo2 = smo_object smo" using s1(3) s2(2) by simp
    show "8 * (length obj + words_written (obj_writes object (ws @ ws'))) + 4096 < 2 ^ 64 \<longrightarrow>
      smo_holds sm smo2 (fold (dmu_apply object) (obj_writes object (ws @ ws')) obj) (A \<union> space_map_set am - space_map_set fm) \<and>
      fold (dmu_apply object) (obj_writes object (ws @ ws')) obj = obj @ writes_words (ws @ ws')"
    proof
      assume "8 * (length obj + words_written (obj_writes object (ws @ ws'))) + 4096 < 2 ^ 64"
      then have b: "8 * length (obj @ writes_words ws @ writes_words ws') + 4096 < 2 ^ 64"
        using obj_writes_words [of object ws] obj_writes_words [of object ws'] by simp
      then have b1: "8 * length (obj @ writes_words ws) + 4096 < 2 ^ 64" by simp
      have o1: "unat (smo_objsize smo1) = 8 * length (obj @ writes_words ws)"
        using s1(4) b1 by (simp add: smo_holds_def)
      have "fold (dmu_apply object) (obj_writes object ws') (obj @ writes_words ws) = (obj @ writes_words ws) @ writes_words ws'"
        using b by (intro apply_writes [OF s2(3) o1]) simp
      then have "fold (dmu_apply object) (obj_writes object (ws @ ws')) obj = obj @ writes_words (ws @ ws')"
        using apply_writes [OF s1(2) oo] b1 by simp
      then show "smo_holds sm smo2 (fold (dmu_apply object) (obj_writes object (ws @ ws')) obj) (A \<union> space_map_set am - space_map_set fm) \<and>
        fold (dmu_apply object) (obj_writes object (ws @ ws')) obj = obj @ writes_words (ws @ ws')"
        using s2(4) [OF b1 b] by simp
    qed
  qed
qed

subsection \<open>Syncing\<close>

lemma sync_object_simps:
  assumes "metaslab_sync_object new_object vd msp = (msp', eff)"
  shows "ms_map msp' = ms_map msp" "ms_allocmap msp' = ms_allocmap msp" "ms_freemap msp' = ms_freemap msp"
    "ms_smo msp' = ms_smo msp" "ms_weight msp' = ms_weight msp"
    "\<exists>object. ms_smo_syncing msp' = (ms_smo_syncing msp)\<lparr>smo_object := object\<rparr>"
    "smo_object (ms_smo_syncing msp') = (if smo_object (ms_smo_syncing msp) = 0 then new_object else smo_object (ms_smo_syncing msp))"
    "object \<noteq> vdev_ms_array vd \<Longrightarrow> fold (dmu_apply object) eff obj = obj"
  using assms by (auto simp: metaslab_sync_object_def Let_def split: if_splits intro: exI [of _ "smo_object (ms_smo_syncing msp)"])

text \<open>What the second half of \<^verbatim>\<open>metaslab_sync\<close> starts from: the map of the object and the two maps to be
  written, whether the object has been condensed or not.\<close>

definition sync_ready ::
  "u64 \<Rightarrow> u64 \<Rightarrow> metaslab \<Rightarrow> metaslab \<Rightarrow> ms_effect list \<Rightarrow> u64 list \<Rightarrow> u64 set \<Rightarrow> bool" where
  "sync_ready s object msp msp2 eff obj A \<longleftrightarrow>
     (let obj2 = fold (dmu_apply object) eff obj;
          am = ms_allocmap msp2 ! txg_slot s 1; fm = ms_freemap msp2 ! txg_slot s 1
      in ms_wf msp2 \<and> ms_map msp2 = ms_map msp \<and> ms_smo msp2 = ms_smo msp \<and> ms_weight msp2 = ms_weight msp \<and> words_written eff = 0 \<and>
         smo_object (ms_smo_syncing msp2) = smo_object (ms_smo_syncing msp) \<and>
         (\<forall>k < 4. k \<noteq> 1 \<longrightarrow> ms_allocs s msp2 k = ms_allocs s msp k \<and> ms_frees s msp2 k = ms_frees s msp k) \<and>
         (\<exists>B. smo_holds (ms_map msp) (ms_smo_syncing msp2) obj2 B \<and> B \<inter> space_map_set am = {} \<and>
            space_map_set fm \<subseteq> B \<union> space_map_set am \<and>
            B \<union> space_map_set am - space_map_set fm = A) \<and>
         (obj2 = obj \<or> obj2 = [] \<and> sm_loaded (ms_map msp)))"

lemma sync_condense_ready:
  assumes wf: "ms_wf msp" and fr: "\<forall>p. dmu_free_range p = (0 :: int)" and o: "smo_holds (ms_map msp) (ms_smo_syncing msp) obj A"
    and a0: "ms_allocs s msp 0 = {}" and pre: "A \<inter> ms_allocs s msp 1 = {}" "ms_frees s msp 1 \<subseteq> A \<union> ms_allocs s msp 1"
    and obj: "object = smo_object (ms_smo_syncing msp)"
    and core: "metaslab_should_condense sync_pass msp \<Longrightarrow>
      ms_frees s msp 0 \<subseteq> ms_universe msp - space_map_set (ms_map msp) \<and>
      ms_allocs s msp 2 \<subseteq> ms_universe msp - space_map_set (ms_map msp) - ms_frees s msp 0 \<and>
      ms_allocs s msp 3 \<subseteq> ms_universe msp - space_map_set (ms_map msp) - ms_frees s msp 0 - ms_allocs s msp 2 \<and>
      ms_universe msp - space_map_set (ms_map msp) - ms_frees s msp 0 - ms_allocs s msp 2 - ms_allocs s msp 3 =
        A \<union> ms_allocs s msp 1 - ms_frees s msp 1"
  shows "\<exists>msp2 eff. (if metaslab_should_condense sync_pass msp then metaslab_condense zr dmu_free_range msp (s + 1)
      else Some (msp, [])) = Some (msp2, eff) \<and> sync_ready s object msp msp2 eff obj (A \<union> ms_allocs s msp 1 - ms_frees s msp 1)"
proof (cases "metaslab_should_condense sync_pass msp")
  case False
  then show ?thesis
    using wf o pre by (intro exI [of _ msp] exI [of _ "[]"]) (auto simp: sync_ready_def Let_def ms_allocs_def ms_frees_def)
next
  case True
  note c = core [OF True]
  have len: "length (ms_allocmap msp) = 4" "length (ms_freemap msp) = 4" using wf by (auto simp: ms_wf_def)
  obtain am fm where d: "metaslab_condense zr dmu_free_range msp (s + 1) =
      Some (msp\<lparr>ms_allocmap := (ms_allocmap msp)[txg_slot s 1 := am], ms_freemap := (ms_freemap msp)[txg_slot s 1 := fm],
              ms_smo_syncing := (ms_smo_syncing msp)\<lparr>smo_objsize := 0, smo_alloc := 0\<rparr>\<rparr>,
            [Dmu_free_range (smo_object (ms_smo_syncing msp))])"
    "space_map_inv am" "same_geometry (ms_map msp) am" "space_map_inv fm" "same_geometry (ms_map msp) fm"
    "space_map_set fm = {}" "space_map_set am = A \<union> ms_allocs s msp 1 - ms_frees s msp 1"
    using condense_ok [OF wf, of dmu_free_range s zr] fr c by metis
  define msp2 where "msp2 = msp\<lparr>ms_allocmap := (ms_allocmap msp)[txg_slot s 1 := am],
    ms_freemap := (ms_freemap msp)[txg_slot s 1 := fm], ms_smo_syncing := (ms_smo_syncing msp)\<lparr>smo_objsize := 0, smo_alloc := 0\<rparr>\<rparr>"
  have wf1: "ms_wf (msp\<lparr>ms_allocmap := (ms_allocmap msp)[txg_slot s 1 := am]\<rparr>)"
    using wf slot_maps(1) [OF wf d(2,3)] by (simp add: ms_wf_def)
  have "ms_wf msp2"
    using wf1 slot_maps(2) [OF wf1, of fm] d(4,5) by (simp add: ms_wf_def msp2_def)
  moreover have "ms_allocs s msp2 k = ms_allocs s msp k \<and> ms_frees s msp2 k = ms_frees s msp k" if "k < 4" "k \<noteq> 1" for k
    using that slot_update [OF len(1) that(1), of 1 s am] slot_update [OF len(2) that(1), of 1 s fm]
    by (simp add: ms_allocs_def ms_frees_def msp2_def)
  moreover have "ms_allocmap msp2 ! txg_slot s 1 = am" "ms_freemap msp2 ! txg_slot s 1 = fm"
    using len slot_less [of s 1] by (simp_all add: msp2_def)
  moreover have "sm_loaded (ms_map msp)" using True by (simp add: metaslab_should_condense_def)
  ultimately have "sync_ready s object msp msp2 [Dmu_free_range (smo_object (ms_smo_syncing msp))] obj
      (A \<union> ms_allocs s msp 1 - ms_frees s msp 1)"
    using objsize_zero [of "ms_map msp" "ms_smo_syncing msp"] d(6,7) obj
    unfolding sync_ready_def Let_def by (auto simp: msp2_def intro!: exI [of _ "{}"])
  then show ?thesis using True d(1) by (auto simp: msp2_def)
qed

lemma condense_sets:
  fixes A U a1 a2 a3 f0 f1 :: "u64 set"
  assumes "A \<inter> f0 = {}" "a1 \<inter> (A \<union> f0) = {}" "a2 \<inter> (A \<union> f0) = {}" "a3 \<inter> (A \<union> f0) = {}" "a1 \<inter> a2 = {}"
    "a1 \<inter> a3 = {}" "a2 \<inter> a3 = {}" "f1 \<subseteq> A \<union> a1" "A \<subseteq> U" "a1 \<subseteq> U" "a2 \<subseteq> U" "a3 \<subseteq> U" "f0 \<subseteq> U"
  shows "f0 \<inter> f1 = {}" "f0 \<union> f1 \<subseteq> U - (U - A - f0 - a1 - a2 - a3)"
    "a2 \<subseteq> U - (U - A - f0 - a1 - a2 - a3) - (f0 \<union> f1)"
    "a3 \<subseteq> U - (U - A - f0 - a1 - a2 - a3) - (f0 \<union> f1) - a2"
    "U - (U - A - f0 - a1 - a2 - a3) - (f0 \<union> f1) - a2 - a3 = A \<union> a1 - f1"
proof -
  show "f0 \<inter> f1 = {}" using assms(1,2,8) by blast
  show "f0 \<union> f1 \<subseteq> U - (U - A - f0 - a1 - a2 - a3)" using assms(8-10,13) by blast
  show "a2 \<subseteq> U - (U - A - f0 - a1 - a2 - a3) - (f0 \<union> f1)" using assms(3,5,8,11) by blast
  show "a3 \<subseteq> U - (U - A - f0 - a1 - a2 - a3) - (f0 \<union> f1) - a2" using assms(4,6,7,8,12) by blast
  show "U - (U - A - f0 - a1 - a2 - a3) - (f0 \<union> f1) - a2 - a3 = A \<union> a1 - f1"
    using assms(1-7,9,10) by blast
qed

lemma sync_finish:
  assumes r: "sync_ready s object msp msp2 eff obj A" and ob: "object = smo_object (ms_smo_syncing msp)"
  obtains am smo1 ws fm smo2 ws' where
    "space_map_sync (ms_allocmap msp2 ! txg_slot s 1) SM_ALLOC (ms_smo_syncing msp2) sync_pass txg = Some (am, smo1, ws)"
    "space_map_sync (ms_freemap msp2 ! txg_slot s 1) SM_FREE smo1 sync_pass txg = Some (fm, smo2, ws')"
    "smo_object smo2 = object"
    "\<forall>msp'. msp' = msp2\<lparr>ms_allocmap := (ms_allocmap msp2)[txg_slot s 1 := am],
        ms_freemap := (ms_freemap msp2)[txg_slot s 1 := fm], ms_smo_syncing := smo2\<rparr> \<longrightarrow>
      ms_wf msp' \<and> ms_allocs s msp' = (ms_allocs s msp)(1 := {}) \<and> ms_frees s msp' = (ms_frees s msp)(1 := {})"
    "\<forall>obj'. 8 * (length obj + words_written (obj_writes object (ws @ ws'))) + 4096 < 2 ^ 64 \<longrightarrow>
      obj' = fold (dmu_apply object) (eff @ obj_writes object (ws @ ws')) obj \<longrightarrow>
      smo_holds (ms_map msp) smo2 obj' A \<and> (sm_loaded (ms_map msp) \<or> (\<exists>ws. obj' = obj @ ws))"
proof -
  define obj2 where "obj2 = fold (dmu_apply object) eff obj"
  have wf: "ms_wf msp2" and same: "ms_map msp2 = ms_map msp" "smo_object (ms_smo_syncing msp2) = object"
    and others: "\<And>k. k < 4 \<Longrightarrow> k \<noteq> 1 \<Longrightarrow> ms_allocs s msp2 k = ms_allocs s msp k \<and> ms_frees s msp2 k = ms_frees s msp k"
    and o2: "obj2 = obj \<or> obj2 = [] \<and> sm_loaded (ms_map msp)"
    using r ob by (simp_all add: sync_ready_def Let_def obj2_def)
  obtain B where B: "smo_holds (ms_map msp) (ms_smo_syncing msp2) obj2 B"
    "B \<inter> space_map_set (ms_allocmap msp2 ! txg_slot s 1) = {}"
    "space_map_set (ms_freemap msp2 ! txg_slot s 1) \<subseteq> B \<union> space_map_set (ms_allocmap msp2 ! txg_slot s 1)"
    "B \<union> space_map_set (ms_allocmap msp2 ! txg_slot s 1) - space_map_set (ms_freemap msp2 ! txg_slot s 1) = A"
    using r by (auto simp: sync_ready_def Let_def obj2_def)
  have geo: "ms_geometry (ms_map msp)" and len: "length (ms_allocmap msp2) = 4" "length (ms_freemap msp2) = 4"
    using wf same by (auto simp: ms_wf_def)
  note am = ms_slot(1,2) [OF wf, of s 1] and fm = ms_slot(3,4) [OF wf, of s 1]
  note ea = space_map_emptied_ok [OF am(1)] and ef = space_map_emptied_ok [OF fm(1)]
  obtain smo1 ws smo2 ws' where t:
    "space_map_sync (ms_allocmap msp2 ! txg_slot s 1) SM_ALLOC (ms_smo_syncing msp2) sync_pass txg =
       Some (space_map_emptied (ms_allocmap msp2 ! txg_slot s 1), smo1, ws)"
    "space_map_sync (ms_freemap msp2 ! txg_slot s 1) SM_FREE smo1 sync_pass txg =
       Some (space_map_emptied (ms_freemap msp2 ! txg_slot s 1), smo2, ws')"
    "smo_object smo2 = smo_object (ms_smo_syncing msp2)"
    "8 * (length obj2 + words_written (obj_writes object (ws @ ws'))) + 4096 < 2 ^ 64 \<longrightarrow>
      smo_holds (ms_map msp) smo2 (fold (dmu_apply object) (obj_writes object (ws @ ws')) obj2) A \<and>
      fold (dmu_apply object) (obj_writes object (ws @ ws')) obj2 = obj2 @ writes_words (ws @ ws')"
    by (rule sync_two [OF geo am(1) am(2) [unfolded same] fm(1) fm(2) [unfolded same] B(1-3), unfolded B(4), of sync_pass txg object])
  show thesis
  proof ((rule that [OF t(1,2)]; (intro allI impI)?), goal_cases)
    case 1
    show ?case using t(3) same(2) by simp
  next
    case (2 msp')
    have ga: "same_geometry (ms_map msp2) (space_map_emptied (ms_allocmap msp2 ! txg_slot s 1))"
      by (rule same_geometry_trans [OF am(2) space_map_same_geometry [OF ea(3)]])
    have gf: "same_geometry (ms_map msp2) (space_map_emptied (ms_freemap msp2 ! txg_slot s 1))"
      by (rule same_geometry_trans [OF fm(2) space_map_same_geometry [OF ef(3)]])
    have wf1: "ms_wf (msp2\<lparr>ms_allocmap := (ms_allocmap msp2)[txg_slot s 1 := space_map_emptied (ms_allocmap msp2 ! txg_slot s 1)]\<rparr>)"
      using wf slot_maps(1) [OF wf ea(1) ga] by (simp add: ms_wf_def)
    have "ms_wf msp'" unfolding 2 using wf1 slot_maps(2) [OF wf1 ef(1)] gf by (simp add: ms_wf_def)
    moreover have "ms_allocs s msp' k = ((ms_allocs s msp)(1 := {})) k \<and> ms_frees s msp' k = ((ms_frees s msp)(1 := {})) k" for k
    proof (cases "k < 4")
      case True
      then show ?thesis
        using others [OF True] slot_update [OF len(1) True, of 1 s] slot_update [OF len(2) True, of 1 s] ea(2) ef(2)
        by (auto simp: ms_allocs_def ms_frees_def 2)
    qed (simp add: ms_allocs_def ms_frees_def)
    ultimately show ?case by (simp add: fun_eq_iff)
  next
    case (3 obj')
    have "length obj2 \<le> length obj" using o2 by auto
    then have "8 * (length obj2 + words_written (obj_writes object (ws @ ws'))) + 4096 < 2 ^ 64" 
      by (intro le_less_trans [OF _ 3(1)]) simp
    from mp [OF t(4) this] show ?case using 3(2) o2 by (auto simp: obj2_def)
  qed
qed

lemma ms_sync_ok:
  assumes inv: "ms_inv s obj A msp" and fr: "\<forall>p. dmu_free_range p = (0 :: int)" and bh: "\<forall>p. dmu_bonus_hold p = (0 :: int)"
    and object: "object = (if smo_object (ms_smo_syncing msp) = 0 then new_object else smo_object (ms_smo_syncing msp))"
      "object \<noteq> vdev_ms_array vd"
  obtains msp' eff where
    "metaslab_sync zr new_object dmu_free_range dmu_bonus_hold sync_pass vd msp (s + 1) = Some (msp', eff)"
    "8 * (length obj + words_written eff) + 4096 < 2 ^ 64 \<Longrightarrow>
      ms_inv s (fold (dmu_apply object) eff obj) (A \<union> ms_allocs s msp 1 - ms_frees s msp 1) msp'"
    "ms_allocs s msp' = (ms_allocs s msp)(1 := {})"
    "ms_frees s msp' = (ms_frees s msp)(0 := ms_frees s msp 0 \<union> ms_frees s msp 1, 1 := {})"
    "ms_map msp' = ms_map msp" "ms_weight msp' = ms_weight msp" "ms_smo msp' = ms_smo msp"
proof -
  have wf: "ms_wf msp" and ok: "sets_ok A (ms_allocs s msp) (ms_frees s msp)"
    and o: "smo_holds (ms_map msp) (ms_smo_syncing msp) obj A"
    and core: "ms_core msp obj A (ms_allocs s msp) (ms_frees s msp)"
    using inv by (auto simp: ms_inv_def)
  define a f where "a = ms_allocs s msp" and "f = ms_frees s msp"
  have len: "length (ms_allocmap msp) = 4" "length (ms_freemap msp) = 4" using wf by (auto simp: ms_wf_def)
  have geo: "ms_geometry (ms_map msp)" using wf by (simp add: ms_wf_def)
  have AU: "A \<subseteq> ms_universe msp"
    using log_bounds [of "ms_map msp" obj "{}" A] o by (simp add: smo_holds_def ms_universe_def)
  obtain msp0 eff0 where m0: "metaslab_sync_object new_object vd msp = (msp0, eff0)" by (cases "metaslab_sync_object new_object vd msp")
  note s0 = sync_object_simps [OF m0]
  note F0 = ms_slot(3,4) [OF wf, of s 0] and F1 = ms_slot(3,4) [OF wf, of s 1]
  have ok': "A \<inter> f 0 = {}" "a 1 \<inter> (A \<union> f 0) = {}" "a 2 \<inter> (A \<union> f 0) = {}" "a 3 \<inter> (A \<union> f 0) = {}" "a 1 \<inter> a 2 = {}"
    "a 1 \<inter> a 3 = {}" "a 2 \<inter> a 3 = {}" "f 1 \<subseteq> A \<union> a 1"
    using ok unfolding sets_ok_def a_def f_def by simp_all
  note cs = condense_sets [OF ok' AU ms_slot_bounds(1) [OF wf, of s 1, folded a_def] ms_slot_bounds(1) [OF wf, of s 2, folded a_def]
    ms_slot_bounds(1) [OF wf, of s 3, folded a_def] ms_slot_bounds(2) [OF wf, of s 0, folded f_def]]
  have "space_map_set (ms_freemap msp ! txg_slot s 0) \<inter> space_map_set (ms_freemap msp ! txg_slot s 1) = {}"
    using cs(1) by (simp add: f_def ms_frees_def)
  then obtain fm where fm: "space_map_walk (ms_freemap msp ! txg_slot s 1) (space_map_add zr) (ms_freemap msp ! txg_slot s 0) = Some fm"
    "space_map_inv fm" "same_geometry (ms_freemap msp ! txg_slot s 0) fm" "space_map_set fm = f 0 \<union> f 1"
    using walk_add [OF F0(1) F1(1), of zr] F0(2) F1(2) by (auto simp: f_def ms_frees_def same_geometry_def)
  have gfm: "same_geometry (ms_map msp) fm" by (rule same_geometry_trans [OF F0(2) fm(3)])
  define msp1 where "msp1 = msp0\<lparr>ms_freemap := (ms_freemap msp)[txg_slot s 0 := fm]\<rparr>"
  have f1: "ms_frees s msp1 = f(0 := f 0 \<union> f 1)"
    unfolding msp1_def f_def using frees_update [OF len(2) _ refl, where k = 0 and s = s and msp' = msp0 and m = fm] fm(4) by (simp add: f_def)
  have a1: "ms_allocs s msp1 = a" using s0(2) by (simp add: msp1_def a_def ms_allocs_def fun_eq_iff)
  have wf1: "ms_wf msp1"
    using wf slot_maps(2) [OF wf fm(2) gfm, of "txg_slot s 0"] s0(1,2) by (simp add: ms_wf_def msp1_def)
  have o1: "smo_holds (ms_map msp1) (ms_smo_syncing msp1) obj A" using o s0(1,6) by (auto simp: msp1_def)
  have map1: "ms_map msp1 = ms_map msp" "ms_smo msp1 = ms_smo msp" "ms_weight msp1 = ms_weight msp" "ms_universe msp1 = ms_universe msp"
    using s0(1,4,5) by (simp_all add: msp1_def ms_universe_def)
  have ob: "object = smo_object (ms_smo_syncing msp1)" using s0(7) object(1) by (simp add: msp1_def)
  have f1': "ms_frees s msp1 0 = f 0 \<union> f 1" "ms_frees s msp1 1 = f 1" using f1 by simp_all
  have "\<exists>msp2 eff. (if metaslab_should_condense sync_pass msp1 then metaslab_condense zr dmu_free_range msp1 (s + 1)
      else Some (msp1, [])) = Some (msp2, eff) \<and> sync_ready s object msp1 msp2 eff obj (A \<union> a 1 - f 1)"
  proof (rule sync_condense_ready [OF wf1 fr o1 _ _ _ ob, where s = s, unfolded a1 f1' map1])
    show "a 0 = {}" using ok by (simp add: sets_ok_def a_def)
    show "A \<inter> a 1 = {}" "f 1 \<subseteq> A \<union> a 1" using ok'(2,8) by blast+
    show "f 0 \<union> f 1 \<subseteq> ms_universe msp - space_map_set (ms_map msp) \<and>
      a 2 \<subseteq> ms_universe msp - space_map_set (ms_map msp) - (f 0 \<union> f 1) \<and>
      a 3 \<subseteq> ms_universe msp - space_map_set (ms_map msp) - (f 0 \<union> f 1) - a 2 \<and>
      ms_universe msp - space_map_set (ms_map msp) - (f 0 \<union> f 1) - a 2 - a 3 = A \<union> a 1 - f 1"
      if "metaslab_should_condense sync_pass msp1"
    proof -
      have "sm_loaded (ms_map msp)" using that map1(1) by (simp add: metaslab_should_condense_def)
      then have "space_map_set (ms_map msp) = ms_universe msp - A - f 0 - a 1 - a 2 - a 3"
        using core by (simp add: ms_core_def sets_free_def a_def f_def)
      then show ?thesis using cs(2-5) by (simp only: conj_assoc)
    qed
  qed
  then obtain msp2 eff1 where m2: "(if metaslab_should_condense sync_pass msp1 then metaslab_condense zr dmu_free_range msp1 (s + 1)
      else Some (msp1, [])) = Some (msp2, eff1)" "sync_ready s object msp1 msp2 eff1 obj (A \<union> a 1 - f 1)" by blast
  obtain am smo1 ws fm2 smo2 ws' where t:
    "space_map_sync (ms_allocmap msp2 ! txg_slot s 1) SM_ALLOC (ms_smo_syncing msp2) sync_pass (s + 1) = Some (am, smo1, ws)"
    "space_map_sync (ms_freemap msp2 ! txg_slot s 1) SM_FREE smo1 sync_pass (s + 1) = Some (fm2, smo2, ws')"
    "smo_object smo2 = object"
    "\<forall>msp'. msp' = msp2\<lparr>ms_allocmap := (ms_allocmap msp2)[txg_slot s 1 := am],
        ms_freemap := (ms_freemap msp2)[txg_slot s 1 := fm2], ms_smo_syncing := smo2\<rparr> \<longrightarrow>
      ms_wf msp' \<and> ms_allocs s msp' = (ms_allocs s msp1)(1 := {}) \<and> ms_frees s msp' = (ms_frees s msp1)(1 := {})"
    "\<forall>obj'. 8 * (length obj + words_written (obj_writes object (ws @ ws'))) + 4096 < 2 ^ 64 \<longrightarrow>
      obj' = fold (dmu_apply object) (eff1 @ obj_writes object (ws @ ws')) obj \<longrightarrow>
      smo_holds (ms_map msp1) smo2 obj' (A \<union> a 1 - f 1) \<and> (sm_loaded (ms_map msp1) \<or> (\<exists>ws. obj' = obj @ ws))"
    by (rule sync_finish [OF m2(2) ob, of sync_pass "s + 1"])
  define msp' where "msp' = msp2\<lparr>ms_allocmap := (ms_allocmap msp2)[txg_slot s 1 := am],
    ms_freemap := (ms_freemap msp2)[txg_slot s 1 := fm2], ms_smo_syncing := smo2\<rparr>"
  define eff where "eff = eff0 @ eff1 @ obj_writes object (ws @ ws') @ [Dmu_bonus object smo2]"
  have m2s: "ms_map msp2 = ms_map msp" "ms_smo msp2 = ms_smo msp"
    using m2(2) map1 by (simp_all add: sync_ready_def Let_def)
  note wf' = t(4) [rule_format, OF msp'_def, unfolded a1 f1]
  have run: "metaslab_sync zr new_object dmu_free_range dmu_bonus_hold sync_pass vd msp (s + 1) = Some (msp', eff)"
    using m2(1) unfolding metaslab_sync_def Let_def TXG_IDX_slot(1,2) m0
    by (cases "metaslab_should_condense sync_pass msp1")
      (simp_all add: s0(3) fm(1) msp1_def [symmetric] t(1,2) bh t(3) msp'_def eff_def del: One_nat_def)
  note ss = sets_sync [OF ok [folded a_def f_def]]
  have inv': "ms_inv s (fold (dmu_apply object) eff obj) (A \<union> a 1 - f 1) msp'"
    if "8 * (length obj + words_written eff) + 4096 < 2 ^ 64"
  proof -
    define obj' where "obj' = fold (dmu_apply object) (eff1 @ obj_writes object (ws @ ws')) obj"
    have "8 * (length obj + words_written (obj_writes object (ws @ ws'))) + 4096 < 2 ^ 64"
      by (rule le_less_trans [OF _ that]) (simp add: eff_def)
    from t(5) [rule_format, OF this obj'_def] have h: "smo_holds (ms_map msp) smo2 obj' (A \<union> a 1 - f 1)"
      "sm_loaded (ms_map msp) \<or> (\<exists>ws. obj' = obj @ ws)" by (simp_all add: map1)
    have e: "fold (dmu_apply object) eff obj = obj'" using s0(8) [OF object(2), of obj] by (simp add: eff_def obj'_def)
    have "ms_core msp' obj' (A \<union> a 1 - f 1) (a(1 := {})) (f(0 := f 0 \<union> f 1, 1 := {}))"
    proof (cases "sm_loaded (ms_map msp)")
      case True
      then show ?thesis
        using core ss(2) [OF AU ms_slot_bounds(1) [OF wf, of s 1, folded a_def]] m2s
        unfolding ms_core_def a_def [symmetric] f_def [symmetric] by (simp add: msp'_def ms_universe_def)
    next
      case False
      then obtain n where u: "space_map_unloaded (ms_map msp)" "a 1 = {}" "a 2 = {}" "a 3 = {}"
        "smo_holds (ms_map msp) (ms_smo msp) (take n obj) (A \<union> f 0)"
        using core by (auto simp: ms_core_def a_def f_def)
      obtain xs where "obj' = obj @ xs" using h(2) False by auto
      then have "take (min n (length obj)) obj' = take n obj" by (simp add: min_def)
      moreover have "A \<union> a 1 - f 1 \<union> (f 0 \<union> f 1) = A \<union> f 0" using ss(3) u(2) by simp
      ultimately have "smo_holds (ms_map msp) (ms_smo msp) (take (min n (length obj)) obj') (A \<union> a 1 - f 1 \<union> (f 0 \<union> f 1))"
        using u(5) by simp
      then show ?thesis using False u(1,3,4) m2s unfolding ms_core_def by (auto simp: msp'_def)
    qed
    then show ?thesis
      using wf' ss(1) h(1) m2s unfolding ms_inv_def e by (simp add: msp'_def)
  qed
  show thesis
    by (rule that [OF run]) (use inv' wf' m2s m2(2) map1(3) in \<open>simp_all add: a_def f_def msp'_def sync_ready_def Let_def del: One_nat_def\<close>)
qed

end
