(* ===== verification/Metaslab_Txg.thy ===== *)
theory Metaslab_Txg
  imports Metaslab_Sync
begin

text \<open>
The end of a transaction group and the opening of a metaslab: \<^verbatim>\<open>metaslab_sync_done\<close> moves the
metaslab from one transaction group to the next, \<^verbatim>\<open>metaslab_init\<close> establishes the invariant. With
\<^verbatim>\<open>metaslab_sync\<close> they refine the abstract life of a metaslab: allocated space on disk, space that may be
handed out, and frees that wait for two more groups.
\<close>

subsection \<open>Completing a transaction group\<close>

lemma space_map_add_ops: "space_map_add zr d a sz = Some d' \<Longrightarrow> sm_ops d' = sm_ops d"
  by (auto simp: space_map_add_def Let_def zfs_panic_recover_def split: if_splits sum.splits option.splits)

lemma vacate_free_eq:
  assumes "sm_ops d = Some Metaslab_ff_ops"
  shows "space_map_vacate sm (Some (space_map_free zr ops_vec)) d = space_map_vacate sm (Some (space_map_add zr)) d"
proof -
  have free: "space_map_free zr ops_vec d a sz = space_map_add zr d a sz" if "sm_ops d = Some Metaslab_ff_ops" for d a sz
    using that space_map_add_ops [of zr d a sz]
    by (cases "space_map_add zr d a sz") (auto simp: space_map_free_def metaslab_ff_ops_def metaslab_ff_free_def)
  have "foldM (\<lambda>d ss. space_map_free zr ops_vec d (ss_start ss) (ss_end ss - ss_start ss)) d zs =
      foldM (\<lambda>d ss. space_map_add zr d (ss_start ss) (ss_end ss - ss_start ss)) d zs" for zs :: "space_seg list"
    using assms
  proof (induction zs arbitrary: d)
    case (Cons x zs)
    then show ?case using free space_map_add_ops [of zr d "ss_start x" "ss_end x - ss_start x"]
      by (cases "space_map_add zr d (ss_start x) (ss_end x - ss_start x)") auto
  qed simp
  then show ?thesis unfolding space_map_vacate_def option.simps(5)
    by (cases "avl_drain (avl_numnodes (sm_root sm) + 1) (sm_root sm) CkNull") (auto simp del: avl_drain.simps)
qed

lemma vacate_freed:
  assumes p: "ff.picking ops_vec d" and m: "space_map_inv m" "same_geometry d m" "space_map_set d \<inter> space_map_set m = {}"
  obtains d' where "space_map_vacate m (Some (space_map_free zr ops_vec)) d = Some (space_map_emptied m, d')"
    "ff.picking ops_vec d'" "space_map_same d d'" "space_map_set d' = space_map_set d \<union> space_map_set m"
proof -
  have d: "space_map_inv d" "sm_ops d = Some Metaslab_ff_ops"
    using p by (auto simp: ff.picking_def) (metis (full_types) space_map_opsp.exhaust)
  show thesis
    using sm_add.vacate_law [OF d(1) m(1) map_segs_in [OF m(1,2)] m(3), of zr] that ff.picking_same [OF p]
    unfolding sm_add.func_spec_def vacate_free_eq [OF d(2)] by blast
qed

text \<open>The slots seen from the next transaction group.\<close>

lemma slots_next:
  "k < 3 \<Longrightarrow> ms_allocs (s + 1) msp k = ms_allocs s msp (Suc k)" "k < 3 \<Longrightarrow> ms_frees (s + 1) msp k = ms_frees s msp (Suc k)"
  "ms_allocs (s + 1) msp 3 = ms_allocs s msp 0" "ms_frees (s + 1) msp 3 = ms_frees s msp 0"
  using slot_shift(1) [of s 3] slot_shift(2) [of s] by (simp_all add: ms_allocs_def ms_frees_def slot_shift(1))

lemma unload_ok:
  assumes "ff.picking ops_vec sm" "sm_loaded sm" "\<not> sm_loading sm" "range_in_map sm (sm_start sm) (sm_size sm)"
  obtains sm' where "space_map_unload ops_vec sm = Some sm'" "space_map_unloaded sm'" "same_geometry sm sm'"
proof -
  obtain q where q: "space_map_unload ops_vec sm = Some (space_map_emptied (sm\<lparr>sm_ppd := q, sm_loaded := False, sm_ops := None\<rparr>))"
    using ff.space_map_unload_law [OF assms(1,2)] by blast
  define d where "d = sm\<lparr>sm_ppd := q, sm_loaded := False, sm_ops := None\<rparr>"
  have "space_map_inv d" using assms(1) by (simp add: d_def ff.picking_def)
  note e = space_map_emptied_ok [OF this]
  have g: "same_geometry sm (space_map_emptied d)"
    using space_map_same_geometry [OF e(3)] by (simp add: d_def same_geometry_def)
  have "space_map_unloaded (space_map_emptied d)"
    using e(1,2) space_map_same_simps(4,5) [OF e(3)] assms(3,4) same_geometry_simps(1,2,6) [OF g]
    by (simp add: space_map_unloaded_def d_def)
  then show thesis using that q g by (simp add: d_def)
qed

lemma ms_inv_next:
  assumes ok: "sets_ok A (ms_allocs s msp) (ms_frees s msp)" "ms_allocs s msp 1 = {}" "ms_frees s msp 1 = {}"
    and wf: "ms_wf msp" and o: "smo_holds (ms_map msp) (ms_smo_syncing msp) obj A"
    and sm: "space_map_inv sm" "same_geometry (ms_map msp) sm" "\<not> sm_loading sm"
    and core: "if sm_loaded sm
      then ff.picking ops_vec sm \<and>
        space_map_set sm = sets_free (ms_universe msp) A (ms_allocs s msp) (ms_frees s msp) \<union> ms_frees s msp 0
      else space_map_unloaded sm \<and> ms_allocs s msp 2 = {} \<and> ms_allocs s msp 3 = {}"
    and msp': "msp' = msp\<lparr>ms_freemap := (ms_freemap msp)[txg_slot s 0 := space_map_emptied (ms_freemap msp ! txg_slot s 0)],
      ms_map := sm, ms_smo := ms_smo_syncing msp\<rparr>"
  shows "ms_inv (s + 1) obj A msp'" "ms_free_set (s + 1) A msp' = ms_free_set s A msp \<union> ms_frees s msp 0"
proof -
  have len: "length (ms_allocmap msp) = 4" "length (ms_freemap msp) = 4" using wf by (auto simp: ms_wf_def)
  note f0 = ms_slot(3,4) [OF wf, of s 0]
  note e = space_map_emptied_ok [OF f0(1)]
  have ge: "same_geometry (ms_map msp) (space_map_emptied (ms_freemap msp ! txg_slot s 0))"
    by (rule same_geometry_trans [OF f0(2) space_map_same_geometry [OF e(3)]])
  have U: "ms_universe msp' = ms_universe msp" using same_geometry_simps [OF sm(2)] by (simp add: msp' ms_universe_def)
  have al: "ms_allocs s msp' = ms_allocs s msp" "ms_frees s msp' = (ms_frees s msp)(0 := {})"
    using frees_update [OF len(2) _ refl, where k = 0 and s = s and msp' = msp and m = "space_map_emptied (ms_freemap msp ! txg_slot s 0)"]
      e(2) by (simp_all add: msp' fun_eq_iff ms_allocs_def ms_frees_def)
  have st: "ms_allocs (s + 1) msp' k = ms_allocs s msp (Suc k)" "ms_frees (s + 1) msp' k = ms_frees s msp (Suc k)" if "k < 3" for k
    using slots_next(1,2) [OF that, of s msp'] by (simp_all add: al)
  have s3: "ms_allocs (s + 1) msp' 3 = ms_allocs s msp 0" "ms_frees (s + 1) msp' 3 = {}"
    using slots_next(3,4) [of s msp'] by (simp_all add: al)
  have sd: "sets_ok A (ms_allocs (s + 1) msp') (ms_frees (s + 1) msp')" by (rule sets_done(1) [OF ok st s3])
  have AU: "A \<subseteq> ms_universe msp"
    using log_bounds [of "ms_map msp" obj "{}" A] o by (simp add: smo_holds_def ms_universe_def)
  have fr: "sets_free (ms_universe msp) A (ms_allocs (s + 1) msp') (ms_frees (s + 1) msp') =
      sets_free (ms_universe msp) A (ms_allocs s msp) (ms_frees s msp) \<union> ms_frees s msp 0"
    by (rule sets_done(2) [OF ok st s3 AU ms_slot_bounds(2) [OF wf]])
  then show "ms_free_set (s + 1) A msp' = ms_free_set s A msp \<union> ms_frees s msp 0" by (simp add: ms_free_set_def U)
  have "ms_geometry sm" using wf same_geometry_simps [OF sm(2)] by (simp add: ms_wf_def ms_geometry_def)
  then have wf': "ms_wf msp'"
    using wf slot_maps(2) [OF wf e(1) ge, of "txg_slot s 0"] sm(1,3) same_geometry_trans [OF same_geometry_sym [OF sm(2)]]
    by (simp add: ms_wf_def msp')
  have o': "smo_holds sm (ms_smo_syncing msp) obj A" using o smo_holds_geometry [OF sm(2)] by simp
  have "ms_core msp' obj A (ms_allocs (s + 1) msp') (ms_frees (s + 1) msp')"
  proof (cases "sm_loaded sm")
    case True
    then show ?thesis using core fr U by (simp add: ms_core_def) (simp add: msp')
  next
    case False
    have "ms_allocs (s + 1) msp' 1 = {}" "ms_allocs (s + 1) msp' 2 = {}" "ms_allocs (s + 1) msp' 3 = {}" "ms_frees (s + 1) msp' 0 = {}"
      using st(1) [of 1] st(1) [of 2] st(2) [of 0] s3(1) core False ok by (simp_all add: numeral_2_eq_2 numeral_3_eq_3 sets_ok_def)
    then show ?thesis using False core o' by (simp add: ms_core_def) (auto simp: msp' intro!: exI [of _ "length obj"])
  qed
  then show "ms_inv (s + 1) obj A msp'" using wf' sd o' by (simp add: ms_inv_def) (simp add: msp')
qed

lemma evictable_slots:
  assumes wf: "ms_wf msp" and e: "metaslab_evictable msp (s + 1)"
  shows "ms_allocs s msp 2 = {}" "ms_allocs s msp 3 = {}"
proof -
  have l: "set [1 ..< TXG_CONCURRENT_STATES] = {1, 2}" by (auto simp: TXG_CONCURRENT_STATES_def)
  have i: "TXG_IDX (s + 1 + of_nat 1) = txg_slot s 2" "TXG_IDX (s + 1 + of_nat 2) = txg_slot s 3"
    using TXG_IDX_slot(3) [of s 1] TXG_IDX_slot(3) [of s 2] by (simp_all add: numeral_2_eq_2 numeral_3_eq_3)
  have "sm_space (ms_allocmap msp ! txg_slot s 2) = 0" "sm_space (ms_allocmap msp ! txg_slot s 3) = 0"
    using e i unfolding metaslab_evictable_def l by auto
  then show "ms_allocs s msp 2 = {}" "ms_allocs s msp 3 = {}"
    using space_map_no_space(1) ms_slot(1) [OF wf] by (auto simp: ms_allocs_def)
qed

lemma ms_done_maps:
  assumes inv: "ms_inv s obj A msp" "ms_allocs s msp 1 = {}" "ms_frees s msp 1 = {}"
  obtains sm1 sm2 where
    "space_map_vacate (ms_freemap msp ! txg_slot s 0) (if sm_loaded (ms_map msp) then Some (space_map_free zr ops_vec) else None)
       (ms_map msp) = Some (space_map_emptied (ms_freemap msp ! txg_slot s 0), sm1)"
    "(if sm_loaded sm1 \<and> ms_weight msp AND METASLAB_ACTIVE_MASK = 0 \<and> metaslab_evictable msp (s + 1)
      then space_map_unload ops_vec sm1 else Some sm1) = Some sm2"
    "same_geometry (ms_map msp) sm2"
    "\<And>msp'. msp' = msp\<lparr>ms_freemap := (ms_freemap msp)[txg_slot s 0 := space_map_emptied (ms_freemap msp ! txg_slot s 0)],
        ms_map := sm2, ms_smo := ms_smo_syncing msp\<rparr> \<Longrightarrow>
      ms_inv (s + 1) obj A msp' \<and> ms_free_set (s + 1) A msp' = ms_free_set s A msp \<union> ms_frees s msp 0"
proof -
  have wf: "ms_wf msp" and ok: "sets_ok A (ms_allocs s msp) (ms_frees s msp)"
    and o: "smo_holds (ms_map msp) (ms_smo_syncing msp) obj A"
    and core: "ms_core msp obj A (ms_allocs s msp) (ms_frees s msp)"
    using inv(1) by (auto simp: ms_inv_def)
  have nl: "\<not> sm_loading (ms_map msp)" and geo: "range_in_map (ms_map msp) (sm_start (ms_map msp)) (sm_size (ms_map msp))"
    using wf by (auto simp: ms_wf_def ms_geometry_def)
  note f0 = ms_slot(3,4) [OF wf, of s 0]
  note step = ms_inv_next [OF ok inv(2,3) wf o]
  show thesis
  proof (cases "sm_loaded (ms_map msp)")
    case False
    then have u: "space_map_unloaded (ms_map msp)" "ms_allocs s msp 2 = {}" "ms_allocs s msp 3 = {}"
      using core by (auto simp: ms_core_def)
    have "space_map_inv (ms_map msp)" using wf by (simp add: ms_wf_def)
    note n = step [OF this same_geometry_refl nl]
    show thesis
      by (rule that [of "ms_map msp" "ms_map msp"])
        (use False u n space_map_vacate_none [OF f0(1)] in \<open>simp_all del: One_nat_def\<close>)
  next
    case True
    note l = ms_inv_loaded [OF inv(1) True]
    have "space_map_set (ms_map msp) \<inter> space_map_set (ms_freemap msp ! txg_slot s 0) = {}"
      unfolding l(2) by (auto simp: ms_free_set_def sets_free_def ms_frees_def)
    then obtain d where d: "space_map_vacate (ms_freemap msp ! txg_slot s 0) (Some (space_map_free zr ops_vec)) (ms_map msp) =
        Some (space_map_emptied (ms_freemap msp ! txg_slot s 0), d)" "ff.picking ops_vec d" "space_map_same (ms_map msp) d"
      "space_map_set d = space_map_set (ms_map msp) \<union> ms_frees s msp 0"
      using vacate_freed [OF l(1) f0, of zr] by (auto simp: ms_frees_def)
    have gd: "same_geometry (ms_map msp) d" by (rule space_map_same_geometry [OF d(3)])
    have di: "space_map_inv d" "sm_loaded d" "\<not> sm_loading d" "range_in_map d (sm_start d) (sm_size d)"
      using d(2) space_map_same_simps [OF d(3)] True nl geo by (auto simp: ff.picking_def)
    show thesis
    proof (cases "ms_weight msp AND METASLAB_ACTIVE_MASK = 0 \<and> metaslab_evictable msp (s + 1)")
      case False
      note n = step [OF di(1) gd di(3)]
      show thesis
        by (rule that [of d d]) (use True False d l(2) gd di n in \<open>auto simp: ms_free_set_def\<close>)
    next
      case ev: True
      obtain d' where d': "space_map_unload ops_vec d = Some d'" "space_map_unloaded d'" "same_geometry d d'"
        using unload_ok [OF d(2) di(2-4)] .
      have g': "same_geometry (ms_map msp) d'" by (rule same_geometry_trans [OF gd d'(3)])
      have "space_map_inv d'" "\<not> sm_loading d'" using d'(2) by (auto simp: space_map_unloaded_def)
      note n = step [OF this(1) g' this(2)]
      have "\<not> sm_loaded d'" using d'(2) by (simp add: space_map_unloaded_def)
      show thesis
        by (rule that [of d d']) (use True ev d d' g' di n \<open>\<not> sm_loaded d'\<close> evictable_slots [OF wf] in auto)
    qed
  qed
qed

lemma metaslab_weight_idem:
  "metaslab_weight vd (msp\<lparr>ms_weight := metaslab_weight vd msp\<rparr>) = metaslab_weight vd msp"
proof -
  have "x OR ((x OR (y AND z)) AND z) = x OR (y AND z)" for x y z :: u64 by (rule bit_eqI) (auto simp: bit_simps)
  then show ?thesis by (simp add: metaslab_weight_def Let_def)
qed

lemma ms_done_ok:
  assumes inv: "ms_inv s obj A msp" "ms_allocs s msp 1 = {}" "ms_frees s msp 1 = {}"
    and g: "group_ok mg mss" "i < length mss" "mss ! i = msp"
  obtains mg' msp' where "metaslab_sync_done zr vd mg msp (s + 1) =
      Some (mg', msp', [Vdev_space_update 0 (smo_alloc (ms_smo_syncing msp) - smo_alloc (ms_smo msp))])"
    "ms_inv (s + 1) obj A msp'" "ms_free_set (s + 1) A msp' = ms_free_set s A msp \<union> ms_frees s msp 0"
    "group_ok mg' (mss[i := msp'])" "ms_smo msp' = ms_smo_syncing msp" "ms_weight msp' = metaslab_weight vd msp'"
proof -
  have wf: "ms_wf msp" using inv(1) by (simp add: ms_inv_def)
  have nf: "sm_size (ms_freemap msp ! txg_slot s 0) \<noteq> 0" "\<not> sm_loading (ms_map msp)"
    using same_geometry_simps(2) [OF ms_slot(4) [OF wf, of s 0]] wf
    by (auto simp: ms_wf_def ms_geometry_def range_in_map_def)
  obtain sm1 sm2 where m: 
    "space_map_vacate (ms_freemap msp ! txg_slot s 0) (if sm_loaded (ms_map msp) then Some (space_map_free zr ops_vec) else None)
       (ms_map msp) = Some (space_map_emptied (ms_freemap msp ! txg_slot s 0), sm1)"
    "(if sm_loaded sm1 \<and> ms_weight msp AND METASLAB_ACTIVE_MASK = 0 \<and> metaslab_evictable msp (s + 1)
      then space_map_unload ops_vec sm1 else Some sm1) = Some sm2"
    "same_geometry (ms_map msp) sm2"
    "\<And>msp'. msp' = msp\<lparr>ms_freemap := (ms_freemap msp)[txg_slot s 0 := space_map_emptied (ms_freemap msp ! txg_slot s 0)],
        ms_map := sm2, ms_smo := ms_smo_syncing msp\<rparr> \<Longrightarrow>
      ms_inv (s + 1) obj A msp' \<and> ms_free_set (s + 1) A msp' = ms_free_set s A msp \<union> ms_frees s msp 0"
    using ms_done_maps [OF inv, of zr] by metis
  define msp1 where "msp1 = msp\<lparr>ms_freemap := (ms_freemap msp)[txg_slot s 0 := space_map_emptied (ms_freemap msp ! txg_slot s 0)],
    ms_map := sm2, ms_smo := ms_smo_syncing msp\<rparr>"
  note m1 = m(4) [OF msp1_def]
  have ev: "metaslab_evictable (msp\<lparr>ms_freemap := fm, ms_map := sm, ms_smo := o1\<rparr>) t = metaslab_evictable msp t" for fm sm o1 t
    by (simp add: metaslab_evictable_def)
  have "ms_ref msp1 = ms_ref (mss ! i)" using g(3) same_geometry_simps(1) [OF m(3)] by (simp add: ms_ref_def msp1_def)
  then obtain t where t: "metaslab_group_sort mg msp1 (metaslab_weight vd msp1) =
      Some (mg\<lparr>mg_metaslab_tree := t\<rparr>, msp1\<lparr>ms_weight := metaslab_weight vd msp1\<rparr>)"
    "group_ok (mg\<lparr>mg_metaslab_tree := t\<rparr>) (mss[i := msp1\<lparr>ms_weight := metaslab_weight vd msp1\<rparr>])"
    using group_sort_ok [OF g(1,2)] by metis
  have c: "msp\<lparr>ms_freemap := x, ms_smo := o1, ms_map := y\<rparr> = msp\<lparr>ms_freemap := x, ms_map := y, ms_smo := o1\<rparr>" for x y o1
    by simp
  have "metaslab_sync_done zr vd mg msp (s + 1) =
      Some (mg\<lparr>mg_metaslab_tree := t\<rparr>, msp1\<lparr>ms_weight := metaslab_weight vd msp1\<rparr>,
        [Vdev_space_update 0 (smo_alloc (ms_smo_syncing msp) - smo_alloc (ms_smo msp))])"
    using m(2) t(1) unfolding metaslab_sync_done_def Let_def TXG_IDX_slot(2)
    by (simp add: nf space_map_load_wait_def m(1) ev msp1_def c del: One_nat_def)
  then show thesis
    by (rule that) (use m1 t(2) metaslab_weight_idem [of vd msp1] in \<open>simp_all add: ms_free_set_def ms_universe_def msp1_def\<close>)
qed

subsection \<open>A metaslab coming into being\<close>

lemma nth_replicate_slot: "replicate 4 x ! txg_slot s k = x"
  using slot_less [of s k] by simp

lemma ms_fresh_inv:
  assumes geo: "ms_geometry (space_map_create start sz shift)" and o: "smo_holds (space_map_create start sz shift) smo obj A"
    and msp: "ms_map msp = space_map_create start sz shift" "ms_smo msp = smo" "ms_smo_syncing msp = smo"
      "ms_allocmap msp = replicate 4 (space_map_create start sz shift)" "ms_freemap msp = replicate 4 (space_map_create start sz shift)"
  shows "ms_inv s obj A msp"
proof -
  have "start \<le> start + sz" using geo by (auto simp: ms_geometry_def range_in_map_def)
  note c = space_map_create_inv [OF this, of shift]
  have wf: "ms_wf msp" using geo c(1) by (auto simp: ms_wf_def msp)
  have e: "ms_allocs s msp = (\<lambda>_. {})" "ms_frees s msp = (\<lambda>_. {})"
    by (auto simp: ms_allocs_def ms_frees_def msp nth_replicate_slot c(2) fun_eq_iff)
  have "space_map_unloaded (ms_map msp)" using geo c by (simp add: space_map_unloaded_def msp ms_geometry_def)
  then have "ms_core msp obj A (\<lambda>_. {}) (\<lambda>_. {})"
    using o by (auto simp: ms_core_def space_map_unloaded_def msp intro!: exI [of _ "length obj"])
  then show ?thesis using wf o by (simp add: ms_inv_def e sets_ok_def msp)
qed

lemma ms_init_ok:
  assumes g: "group_ok mg mss" and n: "start \<notin> (\<lambda>m. sm_start (ms_map m)) ` set mss"
    and geo: "ms_geometry (space_map_create start sz (vdev_ashift vd))"
    and o: "smo_holds (space_map_create start sz (vdev_ashift vd)) smo obj A" and txg: "txg \<le> TXG_INITIAL"
  obtains mg' msp eff where "metaslab_init zr vd mg smo start sz txg = Some (mg', msp, eff)" "\<And>s. ms_inv s obj A msp"
    "group_ok mg' (mss @ [msp])" "ms_map msp = space_map_create start sz (vdev_ashift vd)"
    "ms_weight msp = metaslab_weight vd (msp\<lparr>ms_weight := 0\<rparr>)"
proof -
  define new where "new = space_map_create start sz (vdev_ashift vd)"
  define msp0 where "msp0 = \<lparr>ms_smo = \<lparr>smo_object = 0, smo_objsize = 0, smo_alloc = 0\<rparr>, ms_smo_syncing = smo,
                  ms_allocmap = replicate TXG_SIZE (space_map_create 0 0 0), ms_freemap = replicate TXG_SIZE (space_map_create 0 0 0),
                  ms_map = new, ms_weight = 0\<rparr>"
  have "start \<le> start + sz" using geo by (auto simp: ms_geometry_def range_in_map_def)
  note c = space_map_create_inv [OF this, of "vdev_ashift vd", folded new_def]
  have ns: "sm_start new = start" "sm_size new = sz" "sm_shift new = vdev_ashift vd" "\<not> sm_loaded new" "\<not> sm_loading new" "sm_space new = 0"
    by (simp_all add: new_def)
  have em: "space_map_emptied new = new" by (rule space_map_no_space(2) [OF c(1) ns(6)])
  obtain t where t: "metaslab_group_add mg msp0 = Some (mg\<lparr>mg_metaslab_tree := t\<rparr>, msp0)"
    "group_ok (mg\<lparr>mg_metaslab_tree := t\<rparr>) (mss @ [msp0])"
    using group_add_ok [OF g, of msp0] n ns(1) by (auto simp: msp0_def)
  define msp1 where "msp1 = msp0\<lparr>ms_allocmap := replicate 4 new, ms_freemap := replicate 4 new, ms_smo := smo\<rparr>"
  have "ms_ref msp1 = ms_ref ((mss @ [msp0]) ! length mss)" by (simp add: ms_ref_def msp1_def)
  then obtain t' where t': "metaslab_group_sort (mg\<lparr>mg_metaslab_tree := t\<rparr>) msp1 (metaslab_weight vd msp1) =
      Some (mg\<lparr>mg_metaslab_tree := t'\<rparr>, msp1\<lparr>ms_weight := metaslab_weight vd msp1\<rparr>)"
    "group_ok (mg\<lparr>mg_metaslab_tree := t'\<rparr>) (mss @ [msp1\<lparr>ms_weight := metaslab_weight vd msp1\<rparr>])"
    using group_sort_ok [OF t(2), of "length mss" msp1] by (simp add: list_update_append1) metis
  have i: "TXG_IDX (TXG_CLEAN 0) = 3" by (simp add: TXG_IDX_def TXG_CLEAN_def TXG_MASK_def TXG_SIZE_def)
  have "metaslab_sync_done zr vd (mg\<lparr>mg_metaslab_tree := t\<rparr>) msp0 0 =
    Some (mg\<lparr>mg_metaslab_tree := t'\<rparr>, msp1\<lparr>ms_weight := metaslab_weight vd msp1\<rparr>,
      [Vdev_space_update sz 0, Vdev_space_update 0 (smo_alloc smo - 0)])"
    using t'(1) space_map_vacate_none [OF c(1), of new] em unfolding metaslab_sync_done_def Let_def i
    by (simp add: msp0_def msp1_def ns space_map_load_wait_def TXG_SIZE_def nth_Cons' new_def [symmetric] numeral_eq_Suc)
  then have "metaslab_init zr vd mg smo start sz txg =
      Some (mg\<lparr>mg_metaslab_tree := t'\<rparr>, msp1\<lparr>ms_weight := metaslab_weight vd msp1\<rparr>,
        [Vdev_space_update sz 0, Vdev_space_update 0 (smo_alloc smo - 0)] @
        (if txg \<noteq> 0 then [Vdev_dirty txg, Vdev_dirty_metaslab start (TXG_CLEAN txg)] else []))"
    using t(1) txg unfolding metaslab_init_def Let_def by (simp add: msp0_def [symmetric] new_def [symmetric])
  then show thesis
  proof (rule that)
    show "ms_inv s obj A (msp1\<lparr>ms_weight := metaslab_weight vd msp1\<rparr>)" for s
      by (simp, rule ms_fresh_inv [OF geo o]) (simp_all add: msp1_def msp0_def new_def)
    show "ms_weight (msp1\<lparr>ms_weight := metaslab_weight vd msp1\<rparr>) =
        metaslab_weight vd (msp1\<lparr>ms_weight := metaslab_weight vd msp1\<rparr>\<lparr>ms_weight := 0\<rparr>)"
      by (simp add: msp1_def msp0_def)
  qed (use t'(2) in \<open>simp_all add: msp1_def msp0_def new_def\<close>)
qed

subsection \<open>Properties\<close>

lemma ms_inv_bounds:
  assumes "ms_inv s obj A msp"
  shows "A \<subseteq> ms_universe msp"
  using log_bounds [of "ms_map msp" obj "{}" A] assms by (simp add: ms_inv_def smo_holds_def ms_universe_def)

lemma ms_sample_inv: "ms_inv s [space_map_entry SM_ALLOC 8 16] {0x1000 ..< 0x3000} ms_sample"
proof (rule ms_fresh_inv [OF _ smo_one_holds])
  show "ms_geometry (space_map_create 0 0x100000 9)"
    by (simp add: ms_geometry_def range_in_create)
qed (simp_all add: ms_sample_def)

definition mg_sample :: metaslab_group where
  "mg_sample = the (map_option fst (metaslab_group_add (metaslab_group_new 0 0) ms_sample))"

lemma ms_sample_group: "group_ok mg_sample [ms_sample]"
proof -
  have "group_ok (metaslab_group_new 0 0) []"
    by (simp add: group_ok_def metaslab_group_new_def avl_ok_def avl_sorted_def ms_cmp.avl_comparator_axioms)
  then obtain t where "metaslab_group_add (metaslab_group_new 0 0) ms_sample =
      Some ((metaslab_group_new 0 0)\<lparr>mg_metaslab_tree := t\<rparr>, ms_sample\<lparr>ms_weight := 0\<rparr>)"
    "group_ok ((metaslab_group_new 0 0)\<lparr>mg_metaslab_tree := t\<rparr>) [ms_sample\<lparr>ms_weight := 0\<rparr>]"
    using group_add_ok [of _ "[]" ms_sample] by auto
  then show ?thesis by (simp add: mg_sample_def) (simp add: ms_sample_def)
qed

text \<open>The sample with its only block freed in the next transaction group.\<close>

definition ms_freeing :: metaslab where
  "ms_freeing = ms_sample\<lparr>ms_freemap := (ms_freemap ms_sample)[1 := sm_sample]\<rparr>"

lemma ms_freeing_inv:
  "ms_inv 0 [space_map_entry SM_ALLOC 8 16] {0x1000 ..< 0x3000} ms_freeing" "ms_frees 0 ms_freeing 1 = {0x1000 ..< 0x3000}"
  "ms_allocs 0 ms_freeing k = {}" "ms_frees 0 ms_freeing 0 = {}" "ms_free_set 0 {0x1000 ..< 0x3000} ms_freeing = {0 ..< 0x100000} - {0x1000 ..< 0x3000}"
proof -
  have e: "ms_frees 0 ms_sample k = {}" "ms_allocs 0 ms_sample k = {}" for k
    using space_map_create_inv(2) [of 0 "0x100000" 9]
    by (auto simp: ms_frees_def ms_allocs_def ms_sample_def nth_replicate_slot)
  have fr: "ms_freeing = ms_sample\<lparr>ms_freemap := (ms_freemap ms_sample)[txg_slot 0 1 := sm_sample]\<rparr>"
    by (simp add: ms_freeing_def txg_slot_mod)
  have rg: "range_in_map (ms_map ms_sample) 0x1000 0x2000" by (simp add: ms_sample_def range_in_create)
  have add: "space_map_add False (ms_freemap ms_sample ! txg_slot 0 1) 0x1000 0x2000 = Some sm_sample"
    using sm_sample_eq by (simp add: ms_sample_def nth_replicate_slot del: One_nat_def)
  obtain fm where "space_map_add False (ms_freemap ms_sample ! txg_slot 0 1) 0x1000 0x2000 = Some fm"
    "ms_inv 0 [space_map_entry SM_ALLOC 8 16] {0x1000 ..< 0x3000} (ms_sample\<lparr>ms_freemap := (ms_freemap ms_sample)[txg_slot 0 1 := fm]\<rparr>)"
    by (rule ms_free_later_ok [OF ms_sample_inv _ rg, of 1 0 False]) (simp_all add: e del: One_nat_def)
  then show i: "ms_inv 0 [space_map_entry SM_ALLOC 8 16] {0x1000 ..< 0x3000} ms_freeing"
    using add unfolding fr by (simp del: One_nat_def)
  have f: "ms_frees 0 ms_freeing = (\<lambda>k. if k = 1 then {0x1000 ..< 0x3000} else {})"
  proof -
    have "ms_frees 0 ms_freeing = (ms_frees 0 ms_sample)(1 := space_map_set sm_sample)"
      unfolding fr by (rule frees_update) (simp_all add: ms_sample_def)
    then show ?thesis using e sm_sample_ok by (simp add: fun_eq_iff del: One_nat_def)
  qed
  then show "ms_frees 0 ms_freeing 1 = {0x1000 ..< 0x3000}" "ms_frees 0 ms_freeing 0 = {}" by simp_all
  have a: "ms_allocs 0 ms_freeing = (\<lambda>k. {})" using e by (simp add: ms_freeing_def fun_eq_iff)
  then show "ms_allocs 0 ms_freeing k = {}" by simp
  show "ms_free_set 0 {0x1000 ..< 0x3000} ms_freeing = {0 ..< 0x100000} - {0x1000 ..< 0x3000}"
    by (simp add: ms_free_set_def sets_free_def a f ms_universe_def) (simp add: ms_freeing_def ms_sample_def)
qed

text \<open>C23: writing a transaction group. From any state that satisfies the invariant, \<^verbatim>\<open>metaslab_sync\<close> of
  transaction group \<open>s + 1\<close> succeeds, whether or not it condenses the space map object. The object on
  disk, after the writes and truncations the call asks of the DMU, describes exactly the old allocated
  space plus what the group allocated minus what it freed; the group has nothing left to write; and the
  space that may be handed out has not changed, so nothing freed in this group is reused yet. The object
  is assumed to stay addressable with 64 bits.\<close>

theorem metaslab_sync_correct:
  assumes "ms_inv s obj A msp" "\<forall>p. dmu_free_range p = (0 :: int)" "\<forall>p. dmu_bonus_hold p = (0 :: int)"
    and "object = (if smo_object (ms_smo_syncing msp) = 0 then new_object else smo_object (ms_smo_syncing msp))"
    and "object \<noteq> vdev_ms_array vd"
  shows "\<exists>msp' eff. metaslab_sync zfs_recover new_object dmu_free_range dmu_bonus_hold sync_pass vd msp (s + 1) = Some (msp', eff) \<and>
    ms_allocs s msp' 1 = {} \<and> ms_frees s msp' 1 = {} \<and>
    (8 * (length obj + words_written eff) + 4096 < 2 ^ 64 \<longrightarrow>
      ms_inv s (fold (dmu_apply object) eff obj) (A \<union> ms_allocs s msp 1 - ms_frees s msp 1) msp' \<and>
      ms_free_set s (A \<union> ms_allocs s msp 1 - ms_frees s msp 1) msp' = ms_free_set s A msp)"
proof (rule ms_sync_ok [OF assms, of zfs_recover sync_pass], goal_cases)
  case (1 msp' eff)
  have ok: "sets_ok A (ms_allocs s msp) (ms_frees s msp)" "ms_wf msp" using assms(1) by (simp_all add: ms_inv_def)
  have "ms_free_set s (A \<union> ms_allocs s msp 1 - ms_frees s msp 1) msp' = ms_free_set s A msp"
    using sets_sync(2) [OF ok(1) ms_inv_bounds [OF assms(1)] ms_slot_bounds(1) [OF ok(2)]] 1(3-5)
    by (simp add: ms_free_set_def ms_universe_def)
  then show ?case using 1(1-4) by (intro exI [of _ msp'] exI [of _ eff]) simp
qed

theorem metaslab_sync_correct_witness:
  "\<exists>msp' eff. metaslab_sync False 0 (\<lambda>_. 0) (\<lambda>_. 0) 1 vd_sample ms_freeing 1 = Some (msp', eff) \<and>
    ms_inv 0 (fold (dmu_apply 42) eff [space_map_entry SM_ALLOC 8 16]) {} msp' \<and>
    ms_free_set 0 {} msp' = {0 ..< 0x100000} - {0x1000 ..< 0x3000}"
proof -
  have o: "42 = (if smo_object (ms_smo_syncing ms_freeing) = 0 then 0 else smo_object (ms_smo_syncing ms_freeing))"
    "42 \<noteq> vdev_ms_array vd_sample" by (simp_all add: ms_freeing_def ms_sample_def vd_sample_def)
  have w: "map_option (\<lambda>(_, eff). words_written eff) (metaslab_sync False 0 (\<lambda>_. 0) (\<lambda>_. 0) 1 vd_sample ms_freeing 1) = Some 2"
    by code_simp
  show ?thesis
    using metaslab_sync_correct [where zfs_recover = False and sync_pass = 1 and dmu_free_range = "\<lambda>_. 0" and dmu_bonus_hold = "\<lambda>_. 0",
        OF ms_freeing_inv(1) _ _ o] w ms_freeing_inv(2,3,5)
    by auto
qed

text \<open>C24: completing a transaction group. Once a group has nothing left to write, \<^verbatim>\<open>metaslab_sync_done\<close>
  succeeds and the invariant holds for the next group: what the group freed joins the space that may be
  handed out, nothing else changes, the in-core map is evicted only if it can be rebuilt from the object,
  and the metaslab stays in its group with its new weight.\<close>

theorem metaslab_sync_done_correct:
  assumes "ms_inv s obj A msp" "ms_allocs s msp 1 = {}" "ms_frees s msp 1 = {}"
    and "group_ok mg mss" "i < length mss" "mss ! i = msp"
  shows "\<exists>mg' msp' eff. metaslab_sync_done zfs_recover vd mg msp (s + 1) = Some (mg', msp', eff) \<and>
    ms_inv (s + 1) obj A msp' \<and> ms_free_set (s + 1) A msp' = ms_free_set s A msp \<union> ms_frees s msp 0 \<and>
    group_ok mg' (mss[i := msp']) \<and> ms_smo msp' = ms_smo_syncing msp"
  by (rule ms_done_ok [OF assms, of zfs_recover vd]) blast

theorem metaslab_sync_done_correct_witness:
  "\<exists>s A msp mg mg' msp' eff. ms_free_set s A msp = {0 ..< 0x100000} - {0x1000 ..< 0x3000} \<and>
    metaslab_sync_done False vd_sample mg msp (s + 1) = Some (mg', msp', eff) \<and> ms_free_set (s + 1) A msp' = {0 ..< 0x100000}"
proof -
  have o: "42 = (if smo_object (ms_smo_syncing ms_freeing) = 0 then 0 else smo_object (ms_smo_syncing ms_freeing))"
    "42 \<noteq> vdev_ms_array vd_sample" by (simp_all add: ms_freeing_def ms_sample_def vd_sample_def)
  have w: "map_option (\<lambda>(_, eff). words_written eff) (metaslab_sync False 0 (\<lambda>_. 0) (\<lambda>_. 0) 1 vd_sample ms_freeing (0 + 1)) = Some 2"
    by code_simp
  obtain msp eff where m: "metaslab_sync False 0 (\<lambda>_. 0) (\<lambda>_. 0) 1 vd_sample ms_freeing (0 + 1) = Some (msp, eff)"
    "8 * (length [space_map_entry SM_ALLOC 8 16] + words_written eff) + 4096 < 2 ^ 64 \<Longrightarrow>
      ms_inv 0 (fold (dmu_apply 42) eff [space_map_entry SM_ALLOC 8 16])
        ({0x1000 ..< 0x3000} \<union> ms_allocs 0 ms_freeing 1 - ms_frees 0 ms_freeing 1) msp"
    "ms_allocs 0 msp = (ms_allocs 0 ms_freeing)(1 := {})"
    "ms_frees 0 msp = (ms_frees 0 ms_freeing)(0 := ms_frees 0 ms_freeing 0 \<union> ms_frees 0 ms_freeing 1, 1 := {})"
    "ms_map msp = ms_map ms_freeing" "ms_weight msp = ms_weight ms_freeing"
    by (rule ms_sync_ok [OF ms_freeing_inv(1) _ _ o, of "\<lambda>_. 0" "\<lambda>_. 0" False 1]) auto
  have inv: "ms_inv 0 (fold (dmu_apply 42) eff [space_map_entry SM_ALLOC 8 16]) {} msp"
    using m(1,2) w ms_freeing_inv(2,3) by simp
  have f: "ms_free_set 0 {} msp = {0 ..< 0x100000} - {0x1000 ..< 0x3000}" "ms_frees 0 msp 0 = {0x1000 ..< 0x3000}"
    using m(3-5) ms_freeing_inv(5) 
    by (simp_all add: ms_free_set_def sets_free_def ms_universe_def ms_freeing_inv(2-4) del: One_nat_def)
  have "group_ok mg_sample [msp]"
    using ms_sample_group m(5,6) by (simp add: group_ok_def ms_ref_def ms_freeing_def)
  then obtain mg' msp' eff' where d: "metaslab_sync_done False vd_sample mg_sample msp (0 + 1) = Some (mg', msp', eff')"
    "ms_free_set (0 + 1) {} msp' = ms_free_set 0 {} msp \<union> ms_frees 0 msp 0"
    using metaslab_sync_done_correct [where zfs_recover = False and vd = vd_sample, OF inv, of "mg_sample" "[msp]" 0]
      m(3,4) ms_freeing_inv(3) by auto
  have "x < 0x100000" if "x < 0x3000" for x :: u64 using that by (rule less_trans) simp
  then have "{0 ..< 0x100000} - {0x1000 ..< 0x3000} \<union> {0x1000 ..< 0x3000} = {0 ..< 0x100000 :: u64}"
    by auto
  then show ?thesis using d f by metis
qed

text \<open>C25: a metaslab opened from its space map object, or created with the pool, satisfies the invariant
  for whatever transaction group comes next, and is a member of its group.\<close>

theorem metaslab_init_correct:
  assumes "group_ok mg mss" "start \<notin> (\<lambda>m. sm_start (ms_map m)) ` set mss"
    and "ms_geometry (space_map_create start sz (vdev_ashift vd))"
    and "smo_holds (space_map_create start sz (vdev_ashift vd)) smo obj A" "txg \<le> TXG_INITIAL"
  shows "\<exists>mg' msp eff. metaslab_init zfs_recover vd mg smo start sz txg = Some (mg', msp, eff) \<and>
    (\<forall>s. ms_inv s obj A msp) \<and> group_ok mg' (mss @ [msp])"
  by (rule ms_init_ok [OF assms, of zfs_recover]) blast

theorem metaslab_init_correct_witness:
  "\<exists>mg msp eff. metaslab_init False vd_sample (metaslab_group_new 0 0) \<lparr>smo_object = 42, smo_objsize = 8, smo_alloc = 0x2000\<rparr> 0 0x100000 0 =
      Some (mg, msp, eff) \<and> ms_inv 7 [space_map_entry SM_ALLOC 8 16] {0x1000 ..< 0x3000} msp"
proof -
  have g: "group_ok (metaslab_group_new 0 0) []"
    by (simp add: group_ok_def metaslab_group_new_def avl_ok_def avl_sorted_def ms_cmp.avl_comparator_axioms)
  have a: "vdev_ashift vd_sample = 9" by (simp add: vd_sample_def)
  have geo: "ms_geometry (space_map_create 0 0x100000 (vdev_ashift vd_sample))"
    unfolding a by (simp add: ms_geometry_def range_in_create)
  show ?thesis
    using metaslab_init_correct [where zfs_recover = False and txg = 0, OF g _ geo smo_one_holds [folded a]] by auto
qed

end
