(* ===== verification/Zfs_Namecheck.thy ===== *)
theory Zfs_Namecheck
  imports Zfs_Prelude "HOL-Library.Char_ord"
begin

text \<open>
The name checks of \<^verbatim>\<open>common/zfs/zfs_namecheck.c\<close>. A C string is a list of characters; reading at or past its
end gives the terminator. The loops that move a pointer to the terminator are index recursions with a
measure. The theorems compare each check with the grammar its comment documents.
\<close>

section \<open>Strings and errors\<close>

definition NUL :: char where
  "NUL = CHR 0x00"

definition c_at :: "string \<Rightarrow> nat \<Rightarrow> char" where
  "c_at p i = (if i < length p then p ! i else NUL)"

fun strlen_from :: "string \<Rightarrow> nat \<Rightarrow> nat" where
  "strlen_from [] n = n" |
  "strlen_from (c # cs) n = (if c = NUL then n else strlen_from cs (Suc n))"

definition strlen :: "string \<Rightarrow> nat" where
  "strlen p = strlen_from p 0"

datatype namecheck_err = NAME_ERR_LEADING_SLASH | NAME_ERR_EMPTY_COMPONENT | NAME_ERR_TRAILING_SLASH
  | NAME_ERR_INVALCHAR | NAME_ERR_MULTIPLE_AT | NAME_ERR_NOLETTER | NAME_ERR_RESERVED
  | NAME_ERR_DISKLIKE | NAME_ERR_TOOLONG | NAME_ERR_NO_AT

text \<open>A result is \<^term>\<open>Inr ()\<close> for the return value 0, and \<open>Inl (why, what)\<close> for \<open>-1\<close>, where
  \<open>what\<close> is present on the branches that store through the pointer of that name.\<close>

type_synonym namecheck_result = "namecheck_err \<times> char option + unit"

abbreviation name_ok :: namecheck_result where
  "name_ok \<equiv> Inr ()"

definition ZFS_PERMSET_MAXLEN :: nat where
  "ZFS_PERMSET_MAXLEN = 64"

definition MAXNAMELEN :: nat where
  "MAXNAMELEN = 256"

section \<open>The checks\<close>

definition valid_char :: "char \<Rightarrow> bool" where
  "valid_char c =
    ((c \<ge> CHR ''a'' \<and> c \<le> CHR ''z'') \<or>
     (c \<ge> CHR ''A'' \<and> c \<le> CHR ''Z'') \<or>
     (c \<ge> CHR ''0'' \<and> c \<le> CHR ''9'') \<or>
     c = CHR ''-'' \<or> c = CHR ''_'' \<or> c = CHR ''.'' \<or> c = CHR '':'' \<or> c = CHR '' '')"

lemma c_at_nul: "c_at p i \<noteq> NUL \<Longrightarrow> i < length p"
  by (auto simp: c_at_def split: if_splits)

text \<open>The loop that both \<^verbatim>\<open>snapshot_namecheck\<close> and \<^verbatim>\<open>pool_namecheck\<close> run over the characters.\<close>

function check_chars :: "string \<Rightarrow> nat \<Rightarrow> namecheck_result" where
  "check_chars path loc =
    (if c_at path loc = NUL then name_ok
     else if \<not> valid_char (c_at path loc) then Inl (NAME_ERR_INVALCHAR, Some (c_at path loc))
     else check_chars path (loc + 1))"
  by pat_completeness auto
termination
  by (relation "measure (\<lambda>(path, loc). length path - loc)") (auto dest: c_at_nul)

definition snapshot_namecheck :: "string \<Rightarrow> namecheck_result" where
  "snapshot_namecheck path =
    (if strlen path \<ge> MAXNAMELEN then Inl (NAME_ERR_TOOLONG, None)
     else if c_at path 0 = NUL then Inl (NAME_ERR_EMPTY_COMPONENT, None)
     else check_chars path 0)"

definition permset_namecheck :: "string \<Rightarrow> namecheck_result" where
  "permset_namecheck path =
    (if strlen path \<ge> ZFS_PERMSET_MAXLEN then Inl (NAME_ERR_TOOLONG, None)
     else if c_at path 0 \<noteq> CHR ''@'' then Inl (NAME_ERR_NO_AT, Some (c_at path 0))
     else snapshot_namecheck (drop 1 path))"

function find_end :: "char list \<Rightarrow> string \<Rightarrow> nat \<Rightarrow> nat" where
  "find_end stop path e =
    (if c_at path e \<notin> set stop \<and> c_at path e \<noteq> NUL then find_end stop path (e + 1) else e)"
  by pat_completeness auto
termination
  by (relation "measure (\<lambda>(stop, path, e). length path - e)") (auto dest: c_at_nul)

declare check_chars.simps [simp del] find_end.simps [simp del]

lemma find_end_ge: "e \<le> find_end stop path e"
proof (induction stop path e rule: find_end.induct)
  case (1 stop path e)
  then show ?case by (subst find_end.simps) auto
qed

text \<open>The contents of one component, from \<open>loc\<close> up to \<open>end\<close>.\<close>

function check_component :: "string \<Rightarrow> nat \<Rightarrow> nat \<Rightarrow> namecheck_result" where
  "check_component path loc e =
    (if loc \<ge> e then name_ok
     else if \<not> valid_char (c_at path loc) \<and> c_at path loc \<noteq> CHR ''%''
     then Inl (NAME_ERR_INVALCHAR, Some (c_at path loc))
     else check_component path (loc + 1) e)"
  by pat_completeness auto
termination
  by (relation "measure (\<lambda>(path, loc, e). e - loc)") auto

declare check_component.simps [simp del]

function dataset_components :: "string \<Rightarrow> nat \<Rightarrow> bool \<Rightarrow> namecheck_result" where
  "dataset_components path loc found_snapshot =
    (let e = find_end [CHR ''/'', CHR ''@''] path loc
     in if c_at path e = NUL \<and> c_at path (e - 1) = CHR ''/'' then Inl (NAME_ERR_TRAILING_SLASH, None)
        else if loc = e then
          (if c_at path e = CHR ''@'' \<and> found_snapshot then Inl (NAME_ERR_MULTIPLE_AT, None)
           else Inl (NAME_ERR_EMPTY_COMPONENT, None))
        else case check_component path loc e of
          Inl err \<Rightarrow> Inl err
        | Inr _ \<Rightarrow>
            if c_at path e = NUL then name_ok
            else if c_at path e = CHR ''@'' \<and> found_snapshot then Inl (NAME_ERR_MULTIPLE_AT, None)
            else let found_snapshot = found_snapshot \<or> c_at path e = CHR ''@''
                 in if c_at path e = CHR ''/'' \<and> found_snapshot then Inl (NAME_ERR_TRAILING_SLASH, None)
                    else dataset_components path (e + 1) found_snapshot)"
  by pat_completeness auto
termination
proof (relation "measure (\<lambda>(path, loc, found). length path - loc)", goal_cases)
  case (2 path loc found e)
  then show ?case using find_end_ge [of loc "[CHR ''/'', CHR ''@'']" path] c_at_nul [of path e] by auto
qed simp

declare dataset_components.simps [simp del]

definition dataset_namecheck :: "string \<Rightarrow> namecheck_result" where
  "dataset_namecheck path =
    (if strlen path \<ge> MAXNAMELEN then Inl (NAME_ERR_TOOLONG, None)
     else if c_at path 0 = CHR ''/'' then Inl (NAME_ERR_LEADING_SLASH, None)
     else if c_at path 0 = NUL then Inl (NAME_ERR_EMPTY_COMPONENT, None)
     else dataset_components path 0 False)"

function mountpoint_components :: "string \<Rightarrow> nat \<Rightarrow> namecheck_result" where
  "mountpoint_components path start =
    (let e = find_end [CHR ''/''] path start
     in if e - start \<ge> MAXNAMELEN then Inl (NAME_ERR_TOOLONG, None)
        else if c_at path e \<noteq> NUL then mountpoint_components path (e + 1) else name_ok)"
  by pat_completeness auto
termination
proof (relation "measure (\<lambda>(path, start). length path - start)", goal_cases)
  case (2 path start e)
  then show ?case using find_end_ge [of start "[CHR ''/'']" path] c_at_nul [of path e] by auto
qed simp

declare mountpoint_components.simps [simp del]

definition mountpoint_namecheck :: "string option \<Rightarrow> namecheck_result" where
  "mountpoint_namecheck path =
    (case path of
       None \<Rightarrow> Inl (NAME_ERR_LEADING_SLASH, None)
     | Some path \<Rightarrow>
         if c_at path 0 \<noteq> CHR ''/'' then Inl (NAME_ERR_LEADING_SLASH, None)
         else mountpoint_components path 1)"

definition pool_namecheck :: "string \<Rightarrow> namecheck_result" where
  "pool_namecheck pool =
    (if strlen pool \<ge> MAXNAMELEN then Inl (NAME_ERR_TOOLONG, None)
     else case check_chars pool 0 of
       Inl err \<Rightarrow> Inl err
     | Inr _ \<Rightarrow>
         let c = c_at pool 0
         in if \<not> (CHR ''a'' \<le> c \<and> c \<le> CHR ''z'') \<and> \<not> (CHR ''A'' \<le> c \<and> c \<le> CHR ''Z'')
            then Inl (NAME_ERR_NOLETTER, None)
            else if take (strlen pool) pool = ''mirror'' \<or> take (strlen pool) pool = ''raidz''
            then Inl (NAME_ERR_RESERVED, None)
            else if c = CHR ''c'' \<and> CHR ''0'' \<le> c_at pool 1 \<and> c_at pool 1 \<le> CHR ''9''
            then Inl (NAME_ERR_DISKLIKE, None)
            else name_ok)"

definition dataset_name_hidden :: "string \<Rightarrow> bool" where
  "dataset_name_hidden name \<longleftrightarrow> CHR ''$'' \<in> set (take (strlen name) name)"

section \<open>The loops in terms of the string\<close>

lemma strlen_from_eq: "NUL \<notin> set p \<Longrightarrow> strlen_from p n = n + length p"
  by (induction p arbitrary: n) auto

lemma strlen_eq [simp]: "NUL \<notin> set p \<Longrightarrow> strlen p = length p"
  by (simp add: strlen_def strlen_from_eq)

lemma c_at_iff: "NUL \<notin> set p \<Longrightarrow> c_at p i = NUL \<longleftrightarrow> length p \<le> i"
  by (auto simp: c_at_def dest: nth_mem)

lemma drop_c_at: "i < length p \<Longrightarrow> drop i p = c_at p i # drop (Suc i) p"
  by (simp add: c_at_def Cons_nth_drop_Suc)

definition first_bad :: "(char \<Rightarrow> bool) \<Rightarrow> string \<Rightarrow> namecheck_result" where
  "first_bad P s = (case find (\<lambda>c. \<not> P c) s of None \<Rightarrow> name_ok | Some c \<Rightarrow> Inl (NAME_ERR_INVALCHAR, Some c))"

lemma first_bad_simps [simp]:
  "first_bad P [] = name_ok"
  "first_bad P (c # s) = (if P c then first_bad P s else Inl (NAME_ERR_INVALCHAR, Some c))"
  by (simp_all add: first_bad_def)

lemma first_bad_ok: "first_bad P s = name_ok \<longleftrightarrow> list_all P s"
  by (induction s) auto

lemma check_chars_eq:
  assumes "NUL \<notin> set path"
  shows "check_chars path loc = first_bad valid_char (drop loc path)"
  using assms
proof (induction path loc rule: check_chars.induct)
  case (1 path loc)
  then show ?case
    by (cases "loc < length path"; subst check_chars.simps) (simp_all add: drop_c_at c_at_iff)
qed

lemma find_end_eq:
  assumes "NUL \<notin> set path" "e \<le> length path"
  shows "find_end stop path e = e + length (takeWhile (\<lambda>c. c \<notin> set stop) (drop e path))"
  using assms
proof (induction stop path e rule: find_end.induct)
  case (1 stop path e)
  then show ?case
    by (cases "e < length path"; subst find_end.simps) (auto simp: drop_c_at c_at_iff)
qed

lemma check_component_eq:
  assumes "e \<le> length path"
  shows "check_component path loc e = first_bad (\<lambda>c. valid_char c \<or> c = CHR ''%'') (take (e - loc) (drop loc path))"
  using assms
proof (induction path loc e rule: check_component.induct)
  case (1 path loc e)
  show ?case
  proof (cases "loc < e")
    case True
    then have "e - loc = Suc (e - Suc loc)" "loc < length path" using 1(2) by auto
    then show ?thesis using 1 True by (subst check_component.simps) (simp add: drop_c_at)
  next
    case False
    then show ?thesis by (subst check_component.simps) simp
  qed
qed

section \<open>The grammar of dataset names\<close>

definition component_ok :: "string \<Rightarrow> bool" where
  "component_ok c \<longleftrightarrow> c \<noteq> [] \<and> list_all (\<lambda>x. valid_char x \<or> x = CHR ''%'') c"

fun join_path :: "string list \<Rightarrow> string" where
  "join_path [] = []" |
  "join_path [c] = c" |
  "join_path (c # cs) = c @ CHR ''/'' # join_path cs"

definition dataset_name :: "string \<Rightarrow> bool" where
  "dataset_name p \<longleftrightarrow> (\<exists>cs. cs \<noteq> [] \<and> list_all component_ok cs \<and>
    (p = join_path cs \<or> (\<exists>snap. component_ok snap \<and> p = join_path cs @ CHR ''@'' # snap)))"

lemma valid_not_sep: "\<not> valid_char (CHR ''/'')" "\<not> valid_char (CHR ''@'')" "\<not> valid_char NUL" "\<not> valid_char (CHR ''%'')"
  by (simp_all add: valid_char_def NUL_def less_eq_char_def)

text \<open>What remains of a name from the start of a component, with or without a \<open>@\<close> behind it.\<close>

definition name_rest :: "bool \<Rightarrow> string \<Rightarrow> bool" where
  "name_rest found q \<longleftrightarrow> (if found then component_ok q else dataset_name q)"

lemma component_sep: "component_ok c \<Longrightarrow> CHR ''/'' \<notin> set c \<and> CHR ''@'' \<notin> set c"
  using valid_not_sep by (auto simp: component_ok_def list_all_iff)

lemma dataset_name_cases:
  "dataset_name p \<longleftrightarrow> component_ok p \<or>
    (\<exists>c q. component_ok c \<and> (p = c @ CHR ''/'' # q \<and> dataset_name q \<or> p = c @ CHR ''@'' # q \<and> component_ok q))"
  (is "_ \<longleftrightarrow> ?r")
proof
  assume "dataset_name p"
  then obtain cs where cs: "cs \<noteq> []" "list_all component_ok cs"
    and p: "p = join_path cs \<or> (\<exists>snap. component_ok snap \<and> p = join_path cs @ CHR ''@'' # snap)"
    by (auto simp: dataset_name_def)
  show ?r
  proof (cases cs rule: join_path.cases)
    case (3 c d ds)
    have "dataset_name (drop (Suc (length c)) p)"
      unfolding dataset_name_def using cs p 3 by (intro exI [of _ "d # ds"]) auto
    moreover have "p = c @ CHR ''/'' # drop (Suc (length c)) p" using p 3 by auto
    ultimately show ?thesis using cs 3 by auto
  qed (use cs p in auto)
next
  have c1: "dataset_name c" if "component_ok c" for c
    unfolding dataset_name_def using that by (intro exI [of _ "[c]"]) simp
  have c2: "dataset_name (c @ CHR ''@'' # q)" if "component_ok c" "component_ok q" for c q
    unfolding dataset_name_def using that by (intro exI [of _ "[c]"]) auto
  have c3: "dataset_name (c @ CHR ''/'' # q)" if c: "component_ok c" and q: "dataset_name q" for c q
  proof -
    obtain cs where cs: "cs \<noteq> []" "list_all component_ok cs"
      and p: "q = join_path cs \<or> (\<exists>snap. component_ok snap \<and> q = join_path cs @ CHR ''@'' # snap)"
      using q by (auto simp: dataset_name_def)
    then obtain d ds where "cs = d # ds" by (cases cs) auto
    then show ?thesis unfolding dataset_name_def using cs p c by (intro exI [of _ "c # cs"]) auto
  qed
  assume ?r
  then show "dataset_name p" using c1 c2 c3 by auto
qed

lemma split_at_sep:
  assumes "x \<notin> set c" "y \<notin> set c" "x \<notin> set d" "y \<notin> set d" "a \<in> {x, y}" "b \<in> {x, y}"
    "c @ a # q = d @ b # r"
  shows "c = d \<and> a = b \<and> q = r"
  using assms by (auto simp: append_eq_append_conv2 append_eq_Cons_conv Cons_eq_append_conv)

lemma dataset_name_split:
  assumes "CHR ''/'' \<notin> set c" "CHR ''@'' \<notin> set c"
  shows "dataset_name c \<longleftrightarrow> component_ok c"
    "dataset_name (c @ CHR ''/'' # q) \<longleftrightarrow> component_ok c \<and> dataset_name q"
    "dataset_name (c @ CHR ''@'' # q) \<longleftrightarrow> component_ok c \<and> component_ok q"
proof -
  have sep: "\<not> component_ok (d @ CHR ''/'' # r)" "\<not> component_ok (d @ CHR ''@'' # r)" for d r
    using component_sep by fastforce+
  show "dataset_name c \<longleftrightarrow> component_ok c"
    using assms by (subst dataset_name_cases) auto
  show "dataset_name (c @ CHR ''/'' # q) \<longleftrightarrow> component_ok c \<and> dataset_name q"
    using sep split_at_sep [where x = "CHR ''/''" and y = "CHR ''@''" and c = c and a = "CHR ''/''"] assms component_sep
    by (subst dataset_name_cases) blast
  show "dataset_name (c @ CHR ''@'' # q) \<longleftrightarrow> component_ok c \<and> component_ok q"
    using sep split_at_sep [where x = "CHR ''/''" and y = "CHR ''@''" and c = c and a = "CHR ''@''"] assms component_sep
    by (subst dataset_name_cases) blast
qed

lemma name_rest_split:
  assumes "CHR ''/'' \<notin> set c" "CHR ''@'' \<notin> set c"
  shows "name_rest found c \<longleftrightarrow> component_ok c"
    "x = CHR ''/'' \<or> x = CHR ''@'' \<Longrightarrow>
      name_rest found (c @ x # s) \<longleftrightarrow> component_ok c \<and> \<not> found \<and> name_rest (x = CHR ''@'') s"
proof -
  show "name_rest found c \<longleftrightarrow> component_ok c" using assms by (simp add: name_rest_def dataset_name_split)
  have "\<not> component_ok (c @ x # s)" if "x = CHR ''/'' \<or> x = CHR ''@''"
    using component_sep [of "c @ x # s"] that by auto
  then show "name_rest found (c @ x # s) \<longleftrightarrow> component_ok c \<and> \<not> found \<and> name_rest (x = CHR ''@'') s"
    if "x = CHR ''/'' \<or> x = CHR ''@''"
    using that assms by (auto simp: name_rest_def dataset_name_split)
qed

lemma find_end_split:
  assumes "NUL \<notin> set path" "loc \<le> length path"
  obtains c e where "find_end stop path loc = e" "e = loc + length c" "set stop \<inter> set c = {}"
    "c = take (e - loc) (drop loc path)"
    "e = length path \<and> c_at path e = NUL \<and> drop loc path = c \<or>
     e < length path \<and> c_at path e \<in> set stop \<and> c_at path e \<noteq> NUL \<and> drop loc path = c @ c_at path e # drop (Suc e) path"
proof -
  define q c where "q = drop loc path" and "c = takeWhile (\<lambda>x. x \<notin> set stop) q"
  define e r where "e = loc + length c" and "r = dropWhile (\<lambda>x. x \<notin> set stop) q"
  have q: "q = c @ r" by (simp add: c_def r_def)
  have len: "length path = e + length r" using assms(2) arg_cong [OF q, of length] by (simp add: q_def e_def)
  have de: "drop e path = r"
  proof -
    have "drop e path = drop (length c) q" unfolding q_def e_def drop_drop by (simp only: add.commute)
    then show ?thesis by (simp add: q)
  qed
  have last: "e = length path \<and> c_at path e = NUL \<and> q = c \<or>
     e < length path \<and> c_at path e \<in> set stop \<and> c_at path e \<noteq> NUL \<and> q = c @ c_at path e # drop (Suc e) path"
  proof (cases "r = []")
    case True
    then show ?thesis using len q by (simp add: c_at_def)
  next
    case False
    then have lt: "e < length path" using len by simp
    from drop_c_at [OF lt] have r: "r = c_at path e # drop (Suc e) path" unfolding de .
    have "hd r \<in> set stop" using False hd_dropWhile [of "\<lambda>x. x \<notin> set stop" q] unfolding r_def by simp
    then have "c_at path e \<in> set stop" using arg_cong [OF r, of hd] by simp
    moreover have "q = c @ c_at path e # drop (Suc e) path" using trans [OF q arg_cong [OF r, of "(@) c"]] .
    ultimately show ?thesis using lt c_at_iff [OF assms(1), of e] not_le by blast
  qed
  show thesis
  proof (rule that [of e c])
    show "find_end stop path loc = e" using find_end_eq [OF assms] by (simp add: e_def c_def q_def)
    show "set stop \<inter> set c = {}" unfolding c_def by (auto dest: set_takeWhileD)
    have "take (e - loc) q = c" using q by (simp add: e_def)
    then show "c = take (e - loc) (drop loc path)" unfolding q_def by (rule sym)
  qed (simp add: e_def, rule last [unfolded q_def])
qed

lemma dataset_components_eq:
  assumes "NUL \<notin> set path" "loc \<le> length path"
  shows "dataset_components path loc found = name_ok \<longleftrightarrow> name_rest found (drop loc path)"
  using assms
proof (induction path loc found rule: dataset_components.induct)
  case (1 path loc found)
  obtain c e where e: "find_end [CHR ''/'', CHR ''@''] path loc = e" "e = loc + length c"
    and c: "set [CHR ''/'', CHR ''@''] \<inter> set c = {}" and tk: "c = take (e - loc) (drop loc path)"
    and last: "e = length path \<and> c_at path e = NUL \<and> drop loc path = c \<or>
     e < length path \<and> c_at path e \<in> set [CHR ''/'', CHR ''@''] \<and> c_at path e \<noteq> NUL \<and>
     drop loc path = c @ c_at path e # drop (Suc e) path"
    by (rule find_end_split [OF 1(2,3), of "[CHR ''/'', CHR ''@'']"])
  have sep: "CHR ''/'' \<notin> set c" "CHR ''@'' \<notin> set c" using c by auto
  have ok: "component_ok c \<longleftrightarrow> c \<noteq> [] \<and> check_component path loc e = name_ok"
  proof -
    have "e \<le> length path" using last by auto
    from check_component_eq [OF this, of loc] show ?thesis
      unfolding tk [symmetric] by (simp add: first_bad_ok component_ok_def)
  qed
  have prev: "c_at path (e - 1) \<noteq> CHR ''/''" if "c \<noteq> []"
  proof -
    have "e - 1 = loc + (length c - 1)" "e - 1 < length path" using that last e(2) by (cases c, auto)
    then have "c_at path (e - 1) = drop loc path ! (length c - 1)" by (simp add: c_at_def)
    also have "\<dots> = List.last c" using that last by (auto simp: last_conv_nth nth_append)
    finally show ?thesis using that sep(1) last_in_set by metis
  qed
  have loc: "loc = e \<longleftrightarrow> c = []" by (simp add: e(2))
  show ?case
  proof (cases "component_ok c")
    case False
    then have "check_component path loc e \<noteq> name_ok \<or> c = []" using ok by blast
    then have "dataset_components path loc found \<noteq> name_ok"
      by (subst dataset_components.simps) (auto simp: e(1) Let_def loc split: sum.split)
    then show ?thesis using False last name_rest_split [OF sep] by auto
  next
    case True
    then have c0: "c \<noteq> []" "check_component path loc e = Inr ()" using ok by auto
    show ?thesis
      using last
    proof
      assume "e = length path \<and> c_at path e = NUL \<and> drop loc path = c"
      then have "c_at path e = NUL" "drop loc path = c" by blast+
      then show ?thesis using True c0 prev name_rest_split(1) [OF sep]
        by (subst dataset_components.simps) (simp add: e(1) loc Let_def)
    next
      assume l: "e < length path \<and> c_at path e \<in> set [CHR ''/'', CHR ''@''] \<and> c_at path e \<noteq> NUL \<and>
        drop loc path = c @ c_at path e # drop (Suc e) path"
      then have x: "c_at path e = CHR ''/'' \<or> c_at path e = CHR ''@''" by simp
      have ih: "dataset_components path (e + 1) (c_at path e = CHR ''@'') = name_ok \<longleftrightarrow>
          name_rest (c_at path e = CHR ''@'') (drop (Suc e) path)" if "\<not> found"
        using 1(1) [OF e(1) [symmetric], of "()" "found \<or> c_at path e = CHR ''@''"] c0 l loc 1(2) that by simp
      have "dataset_components path loc found = name_ok \<longleftrightarrow>
          \<not> found \<and> name_rest (c_at path e = CHR ''@'') (drop (Suc e) path)"
        by (subst dataset_components.simps) (use l c0 ih x in \<open>auto simp: e(1) Let_def loc\<close>)
      then show ?thesis using l name_rest_split(2) [OF sep x] True by simp
    qed
  qed
qed

section \<open>Mount points\<close>

lemma slash_free_infix:
  assumes "x \<notin> set c"
  shows "(\<forall>a d b. c @ x # s = a @ d @ b \<and> x \<notin> set d \<longrightarrow> length d < n) \<longleftrightarrow>
    length c < n \<and> (\<forall>a d b. s = a @ d @ b \<and> x \<notin> set d \<longrightarrow> length d < n)"
proof (intro iffI conjI allI impI)
  assume h: "\<forall>a d b. c @ x # s = a @ d @ b \<and> x \<notin> set d \<longrightarrow> length d < n"
  show "length c < n" using h assms by (metis append_Nil)
  show "length d < n" if "s = a @ d @ b \<and> x \<notin> set d" for a d b
    using h that by (metis append_Cons append_assoc)
next
  fix a d b
  assume h: "length c < n \<and> (\<forall>a d b. s = a @ d @ b \<and> x \<notin> set d \<longrightarrow> length d < n)"
    and s: "c @ x # s = a @ d @ b \<and> x \<notin> set d"
  show "length d < n"
  proof (cases "length a \<le> length c")
    case True
    define a' where "a' = drop (length a) c"
    have tk: "a = take (length a) (c @ x # s)" using s by simp
    then have a: "c = a @ a'" using True append_take_drop_id [of "length a" c] by (simp add: a'_def)
    then have a': "c = a @ a'" "a' @ x # s = d @ b" using s by simp_all
    then have "length d \<le> length a'"
      using s by (auto simp: append_eq_append_conv2 Cons_eq_append_conv)
    then show ?thesis using h a' by simp
  next
    case False
    then obtain a' where "x # s = a' @ d @ b" "a' \<noteq> []" using s by (auto simp: append_eq_append_conv2)
    then show ?thesis using h s by (auto simp: Cons_eq_append_conv)
  qed
qed

lemma mountpoint_components_eq:
  assumes "NUL \<notin> set path" "start \<le> length path"
  shows "mountpoint_components path start = name_ok \<longleftrightarrow>
    (\<forall>a c b. drop start path = a @ c @ b \<and> CHR ''/'' \<notin> set c \<longrightarrow> length c < MAXNAMELEN)"
  using assms
proof (induction path start rule: mountpoint_components.induct)
  case (1 path start)
  obtain c e where e: "find_end [CHR ''/''] path start = e" "e = start + length c"
    and c: "set [CHR ''/''] \<inter> set c = {}"
    and last: "e = length path \<and> c_at path e = NUL \<and> drop start path = c \<or>
     e < length path \<and> c_at path e \<in> set [CHR ''/''] \<and> c_at path e \<noteq> NUL \<and>
     drop start path = c @ c_at path e # drop (Suc e) path"
    by (rule find_end_split [OF 1(2,3), of "[CHR ''/'']"])
  from last show ?case
  proof
    assume l: "e = length path \<and> c_at path e = NUL \<and> drop start path = c"
    have "(\<forall>a d b. c = a @ d @ b \<and> CHR ''/'' \<notin> set d \<longrightarrow> length d < MAXNAMELEN) \<longleftrightarrow> length c < MAXNAMELEN"
      using c by (auto dest: spec [of _ "[]"])
    moreover have "e - start = length c" using e(2) by simp
    moreover have "c_at path e = NUL" "drop start path = c" using l by blast+
    ultimately show ?thesis by (subst mountpoint_components.simps) (simp add: e(1) Let_def)
  next
    assume "e < length path \<and> c_at path e \<in> set [CHR ''/''] \<and> c_at path e \<noteq> NUL \<and>
      drop start path = c @ c_at path e # drop (Suc e) path"
    then have l: "e < length path" "c_at path e \<noteq> NUL" "drop start path = c @ c_at path e # drop (Suc e) path"
      by blast+
    have x: "c_at path e = CHR ''/''" using last l(1) by simp
    have ec: "e - start = length c" using e(2) by simp
    have ih: "mountpoint_components path (e + 1) = name_ok \<longleftrightarrow>
        (\<forall>a c b. drop (Suc e) path = a @ c @ b \<and> CHR ''/'' \<notin> set c \<longrightarrow> length c < MAXNAMELEN)"
      if "length c < MAXNAMELEN"
      using 1(1) [OF e(1) [symmetric]] l(1,2) 1(2) that ec by (simp add: Suc_le_eq)
    have dr: "drop start path = c @ CHR ''/'' # drop (Suc e) path" using l(3) unfolding x .
    have "mountpoint_components path start = name_ok \<longleftrightarrow> length c < MAXNAMELEN \<and> mountpoint_components path (e + 1) = name_ok"
      by (subst mountpoint_components.simps) (use l(2) ec in \<open>simp add: e(1) Let_def\<close>)
    moreover have "CHR ''/'' \<notin> set c" using c by simp
    ultimately show ?thesis unfolding dr slash_free_infix [OF \<open>CHR ''/'' \<notin> set c\<close>] using ih by blast
  qed
qed

section \<open>Single components\<close>

lemma snapshot_eq:
  assumes "NUL \<notin> set path"
  shows "snapshot_namecheck path =
    (if length path \<ge> MAXNAMELEN then Inl (NAME_ERR_TOOLONG, None)
     else if path = [] then Inl (NAME_ERR_EMPTY_COMPONENT, None) else first_bad valid_char path)"
  using assms c_at_iff [OF assms, of 0] by (simp add: snapshot_namecheck_def check_chars_eq)

lemma snapshot_ok:
  "NUL \<notin> set path \<Longrightarrow>
    snapshot_namecheck path = name_ok \<longleftrightarrow> path \<noteq> [] \<and> length path < MAXNAMELEN \<and> list_all valid_char path"
  by (auto simp: snapshot_eq first_bad_ok)

lemma first_bad_split:
  "first_bad P s = Inl (e, what) \<Longrightarrow> \<exists>a c b. s = a @ c # b \<and> list_all P a \<and> \<not> P c \<and> what = Some c"
proof (induction s)
  case (Cons x s)
  show ?case
  proof (cases "P x")
    case True
    then obtain a c b where "s = a @ c # b" "list_all P a" "\<not> P c" "what = Some c" using Cons by auto
    then show ?thesis using True by (intro exI [of _ "x # a"]) auto
  next
    case False
    then show ?thesis using Cons(2) by (intro exI [of _ "[]"]) auto
  qed
qed simp

lemma snapshot_invalchar:
  "NUL \<notin> set path \<Longrightarrow> snapshot_namecheck path = Inl (NAME_ERR_INVALCHAR, what) \<Longrightarrow>
    \<exists>a c b. path = a @ c # b \<and> list_all valid_char a \<and> \<not> valid_char c \<and> what = Some c"
  by (rule first_bad_split) (auto simp: snapshot_eq split: if_splits)

lemma permset_ok:
  assumes "NUL \<notin> set path"
  shows "permset_namecheck path = name_ok \<longleftrightarrow>
    (\<exists>name. path = CHR ''@'' # name \<and> length path < ZFS_PERMSET_MAXLEN \<and> snapshot_namecheck name = name_ok)"
  using assms by (cases path) (auto simp: permset_namecheck_def c_at_def NUL_def)

lemma chars_component: "s \<noteq> [] \<Longrightarrow> list_all valid_char s \<Longrightarrow> component_ok s"
  by (auto simp: component_ok_def list_all_iff)

lemma pool_chars:
  assumes "NUL \<notin> set pool" "pool_namecheck pool = name_ok"
  shows "pool \<noteq> []" "length pool < MAXNAMELEN" "list_all valid_char pool"
proof -
  have "check_chars pool 0 = name_ok" "length pool < MAXNAMELEN" and l: "CHR ''A'' \<le> c_at pool 0"
    using assms by (auto simp: pool_namecheck_def Let_def less_eq_char_def split: sum.splits if_splits)
  then show "length pool < MAXNAMELEN" "list_all valid_char pool"
    using assms(1) by (simp_all add: check_chars_eq first_bad_ok)
  show "pool \<noteq> []" using l by (auto simp: c_at_def NUL_def less_eq_char_def)
qed

lemma dataset_namecheck_eq:
  assumes "NUL \<notin> set path"
  shows "dataset_namecheck path = name_ok \<longleftrightarrow> length path < MAXNAMELEN \<and> dataset_name path"
proof (cases path)
  case Nil
  have "\<not> component_ok []" by (simp add: component_ok_def)
  then have "\<not> dataset_name []" using dataset_name_split(1) [of "[]"] by simp
  then show ?thesis using Nil by (simp add: dataset_namecheck_def c_at_def NUL_def MAXNAMELEN_def strlen_def)
next
  case (Cons c cs)
  have "\<not> dataset_name (CHR ''/'' # q)" for q
    using dataset_name_split(2) [of "[]" q] by (simp add: component_ok_def)
  then show ?thesis
    using assms dataset_components_eq [OF assms, of 0 False] Cons
    by (auto simp: dataset_namecheck_def c_at_def name_rest_def)
qed

lemma pool_dataset:
  assumes "NUL \<notin> set path" "NUL \<notin> set snap"
  shows "pool_namecheck path = name_ok \<and> snapshot_namecheck snap = name_ok \<longrightarrow>
      dataset_namecheck path = name_ok \<and>
      (length path + length snap < 255 \<longrightarrow> dataset_namecheck (path @ CHR ''@'' # snap) = name_ok)"
proof (intro impI conjI)
  assume p: "pool_namecheck path = name_ok \<and> snapshot_namecheck snap = name_ok"
  then have c: "component_ok path" "component_ok snap"
    using pool_chars [OF assms(1)] snapshot_ok [OF assms(2)] by (auto intro: chars_component)
  note sep = conjunct1 [OF component_sep [OF c(1)]] conjunct2 [OF component_sep [OF c(1)]]
  show "dataset_namecheck path = name_ok"
    using dataset_namecheck_eq [OF assms(1)] dataset_name_split(1) [OF sep] c pool_chars(2) [OF assms(1)] p by blast
  assume l: "length path + length snap < 255"
  show "dataset_namecheck (path @ CHR ''@'' # snap) = name_ok"
    using dataset_namecheck_eq [of "path @ CHR ''@'' # snap"] dataset_name_split(3) [OF sep] c l assms
    by (simp add: MAXNAMELEN_def NUL_def)
qed

section \<open>Properties\<close>





text \<open>C28: \<^verbatim>\<open>mountpoint_namecheck\<close> accepts an absolute path exactly when none of its components reaches
  \<^verbatim>\<open>MAXNAMELEN\<close>; a missing or relative path is reported as such, an over-long component as too long,
  and the loop over the components ends for every path.\<close>

theorem mountpoint_namecheck_correct:
  assumes "NUL \<notin> set path"
  shows "mountpoint_namecheck (Some path) = name_ok \<longleftrightarrow> (\<exists>rest. path = CHR ''/'' # rest \<and>
      (\<forall>a c b. rest = a @ c @ b \<and> CHR ''/'' \<notin> set c \<longrightarrow> length c < MAXNAMELEN))"
proof (cases path)
  case (Cons x rest)
  then show ?thesis using mountpoint_components_eq [OF assms, of 1]
    by (cases "x = CHR ''/''") (simp_all add: mountpoint_namecheck_def c_at_def)
qed (simp add: mountpoint_namecheck_def c_at_def NUL_def)

theorem mountpoint_namecheck_correct_witness:
  "mountpoint_namecheck (Some (CHR ''/'' # replicate 300 (CHR ''x''))) \<noteq> name_ok"
proof
  assume "mountpoint_namecheck (Some (CHR ''/'' # replicate 300 (CHR ''x''))) = name_ok"
  moreover have "NUL \<notin> set (CHR ''/'' # replicate 300 (CHR ''x''))" by (simp add: NUL_def)
  ultimately have h: "\<forall>a c b. replicate 300 (CHR ''x'') = a @ c @ b \<and> CHR ''/'' \<notin> set c \<longrightarrow> length c < MAXNAMELEN"
    using mountpoint_namecheck_correct [of "CHR ''/'' # replicate 300 (CHR ''x'')"] by blast
  then have "length (replicate 300 (CHR ''x'')) < MAXNAMELEN"
    by (elim allE [of _ "[]"] allE [of _ "replicate 300 (CHR ''x'')"]) simp
  then show False by (simp add: MAXNAMELEN_def)
qed

end
