(* ===== verification/Byteorder.thy ===== *)
theory Byteorder
  imports Zfs_Prelude
begin

text \<open>
Byte order: the swap macros of \<^verbatim>\<open>uts/common/sys/byteorder.h\<close>, \<^verbatim>\<open>byteswap_uint64_array\<close> of
\<^verbatim>\<open>dmu.c\<close>, and unsigned integers in memory on hosts of either byte order. A word read on a host of the
other byte order is the swapped word.
\<close>

section \<open>Byte swapping\<close>

definition BSWAP_8 :: "'a :: len word \<Rightarrow> 'a word" where
  "BSWAP_8 x = x AND 0xff"

definition BSWAP_16 :: "'a :: len word \<Rightarrow> 'a word" where
  "BSWAP_16 x = push_bit 8 (BSWAP_8 x) OR BSWAP_8 (drop_bit 8 x)"

definition BSWAP_32 :: "'a :: len word \<Rightarrow> 'a word" where
  "BSWAP_32 x = push_bit 16 (BSWAP_16 x) OR BSWAP_16 (drop_bit 16 x)"

definition BSWAP_64 :: "'a :: len word \<Rightarrow> 'a word" where
  "BSWAP_64 x = push_bit 32 (BSWAP_32 x) OR BSWAP_32 (drop_bit 32 x)"

definition byteswap_uint64_array :: "u64 list \<Rightarrow> u64 list" where
  "byteswap_uint64_array buf = map BSWAP_64 buf"

section \<open>Words in memory\<close>

text \<open>An unsigned integer at an address: the bytes most significant first on a big-endian host, least
  significant first on a little-endian one.\<close>

definition load_be :: "u8 list \<Rightarrow> 'a :: len word" where
  "load_be bs = foldl (\<lambda>a b. push_bit 8 a OR ucast b) 0 bs"

definition load :: "bool \<Rightarrow> u8 list \<Rightarrow> 'a :: len word" where
  "load big_endian bs = load_be (if big_endian then bs else rev bs)"

definition store_be :: "nat \<Rightarrow> 'a :: len word \<Rightarrow> u8 list" where
  "store_be n x = map (\<lambda>i. ucast (drop_bit (8 * (n - 1 - i)) x)) [0..<n]"

definition store :: "bool \<Rightarrow> nat \<Rightarrow> 'a :: len word \<Rightarrow> u8 list" where
  "store big_endian n x = (if big_endian then store_be n x else rev (store_be n x))"

lemma load_be_snoc [simp]: "load_be (bs @ [b]) = push_bit 8 (load_be bs) OR ucast b"
  by (simp add: load_be_def)

lemma load_be_Nil [simp]: "load_be [] = 0"
  by (simp add: load_be_def)

lemma bit_load_be:
  "i < LENGTH('a) \<Longrightarrow> bit (load_be bs :: 'a :: len word) i \<longleftrightarrow> i < 8 * length bs \<and> bit (rev bs ! (i div 8)) (i mod 8)"
proof (induction bs arbitrary: i rule: rev_induct)
  case (snoc b bs)
  show ?case
  proof (cases "i < 8")
    case True
    then show ?thesis using snoc by (simp add: bit_simps)
  next
    case False
    then have "i div 8 = Suc ((i - 8) div 8)" "i mod 8 = (i - 8) mod 8" by (simp_all add: le_div_geq le_mod_geq)
    moreover have "\<not> bit b i" using False bit_imp_le_length [of b i] by auto
    ultimately show ?thesis using snoc False by (auto simp: bit_simps)
  qed
qed simp

lemma length_store_be [simp]: "length (store_be n x) = n"
  by (simp add: store_be_def)

lemma length_store [simp]: "length (store b n x) = n"
  by (simp add: store_def)

lemma load_store_be:
  assumes "8 * n = LENGTH('a)"
  shows "load_be (store_be n x) = (x :: 'a :: len word)"
proof (rule bit_word_eqI)
  fix i
  assume i: "i < LENGTH('a)"
  then have d: "i div 8 < n" using assms by auto
  have "bit (rev (store_be n x) ! (i div 8)) (i mod 8) \<longleftrightarrow> bit x (8 * (i div 8) + i mod 8)"
    using d by (simp add: store_be_def rev_nth bit_simps)
  then show "bit (load_be (store_be n x) :: 'a word) i \<longleftrightarrow> bit x i"
    using i assms by (simp add: bit_load_be)
qed

lemma load_store [simp]: "8 * n = LENGTH('a) \<Longrightarrow> load b (store b n x) = (x :: 'a :: len word)"
  by (simp add: load_def store_def load_store_be)

lemma bit_BSWAP_32: "i < 32 \<Longrightarrow> bit (BSWAP_32 (x :: u32)) i \<longleftrightarrow> bit x (8 * (3 - i div 8) + i mod 8)"
proof -
  assume "i < 32"
  then have "i \<in> set [0..<32]" by simp
  moreover have "\<forall>i \<in> set [0..<32]. bit (BSWAP_32 x) i \<longleftrightarrow> bit x (8 * (3 - i div 8) + i mod 8)"
    by (simp add: upt_rec bit_simps BSWAP_32_def BSWAP_16_def BSWAP_8_def)
      (simp add: eval_nat_numeral)
  ultimately show ?thesis by blast
qed

lemma bit_BSWAP_64: "i < 64 \<Longrightarrow> bit (BSWAP_64 (x :: u64)) i \<longleftrightarrow> bit x (8 * (7 - i div 8) + i mod 8)"
proof -
  assume "i < 64"
  then have "i \<in> set [0..<64]" by simp
  moreover have "\<forall>i \<in> set [0..<64]. bit (BSWAP_64 x) i \<longleftrightarrow> bit x (8 * (7 - i div 8) + i mod 8)"
    by (simp add: upt_rec bit_simps BSWAP_64_def BSWAP_32_def BSWAP_16_def BSWAP_8_def)
      (simp add: eval_nat_numeral)
  ultimately show ?thesis by blast
qed

text \<open>A word read on a host of the other byte order is the swapped word.\<close>

lemma load_be_rev:
  fixes f :: "'a :: len word \<Rightarrow> 'a word"
  assumes "length bs = n" "8 * n = LENGTH('a)"
    and swap: "\<And>i. i < LENGTH('a) \<Longrightarrow> bit (f x) i \<longleftrightarrow> bit x (8 * (n - 1 - i div 8) + i mod 8)"
    and "x = (load_be bs :: 'a :: len word)"
  shows "f x = load_be (rev bs)"
proof (rule bit_word_eqI)
  fix i
  assume i: "i < LENGTH('a)"
  define j where "j = 8 * (n - 1 - i div 8) + i mod 8"
  have d: "i div 8 < n" using i assms(2) by auto
  have "i mod 8 < 8" by simp
  then have j: "j < LENGTH('a)" "j div 8 = n - 1 - i div 8" "j mod 8 = i mod 8"
    using d assms(2) by (auto simp: j_def)
  have "bit (f x) i \<longleftrightarrow> bit x j" using swap [OF i] by (simp add: j_def)
  also have "\<dots> \<longleftrightarrow> bit (bs ! (i div 8)) (i mod 8)"
    using d j assms(1,2) by (simp add: assms(4) bit_load_be rev_nth Suc_diff_Suc)
  also have "\<dots> \<longleftrightarrow> bit (load_be (rev bs) :: 'a word) i"
    using i assms(1,2) by (simp add: bit_load_be)
  finally show "bit (f x) i \<longleftrightarrow> bit (load_be (rev bs) :: 'a word) i" .
qed

lemma BSWAP_64_load: "length bs = 8 \<Longrightarrow> BSWAP_64 (load b bs :: u64) = load (\<not> b) bs"
  using load_be_rev [OF _ _ _ refl, where f = BSWAP_64 and n = 8 and bs = "if b then bs else rev bs" and 'a = 64]
    bit_BSWAP_64 by (simp add: load_def split: if_splits)

lemma BSWAP_32_load: "length bs = 4 \<Longrightarrow> BSWAP_32 (load b bs :: u32) = load (\<not> b) bs"
  using load_be_rev [OF _ _ _ refl, where f = BSWAP_32 and n = 4 and bs = "if b then bs else rev bs" and 'a = 32]
    bit_BSWAP_32 by (simp add: load_def split: if_splits)

lemma BSWAP_64_twice [simp]: "BSWAP_64 (BSWAP_64 x) = (x :: u64)"
proof -
  have "x = load True (store True 8 x)" by simp
  then show ?thesis by (metis BSWAP_64_load length_store)
qed

lemma store_load_be:
  assumes "length bs = n" "8 * n = LENGTH('a)"
  shows "store_be n (load_be bs :: 'a :: len word) = bs"
proof (rule nth_equalityI)
  fix i
  assume "i < length (store_be n (load_be bs :: 'a word))"
  then have i: "i < n" by simp
  show "store_be n (load_be bs :: 'a word) ! i = bs ! i"
  proof (rule bit_word_eqI)
    fix k
    assume "k < LENGTH(8)"
    then have k: "k < 8" by simp
    define j where "j = 8 * (n - 1 - i) + k"
    have j: "j < LENGTH('a)" "j div 8 = n - 1 - i" "j mod 8 = k" using i k assms(2) by (auto simp: j_def)
    have "bit (store_be n (load_be bs :: 'a word) ! i) k \<longleftrightarrow> bit (load_be bs :: 'a word) j"
      using i k by (simp add: store_be_def bit_simps j_def)
    also have "\<dots> \<longleftrightarrow> bit (bs ! i) k"
      using i j assms by (simp add: bit_load_be rev_nth Suc_diff_Suc)
    finally show "bit (store_be n (load_be bs :: 'a word) ! i) k \<longleftrightarrow> bit (bs ! i) k" .
  qed
qed (simp add: assms(1))

lemma store_load: "length bs = n \<Longrightarrow> 8 * n = LENGTH('a) \<Longrightarrow> store b n (load b bs :: 'a :: len word) = bs"
  by (simp add: store_def load_def store_load_be)

lemma store_BSWAP_64: "store b 8 (BSWAP_64 x) = store (\<not> b) 8 (x :: u64)"
proof -
  have "BSWAP_64 x = load b (store (\<not> b) 8 x)"
    using BSWAP_64_load [of "store (\<not> b) 8 x" "\<not> b"] by simp
  then show ?thesis by (simp add: store_load)
qed

section \<open>Arrays of words\<close>

text \<open>The elements of size \<open>n\<close> of a buffer; bytes behind the last whole element are not read.\<close>

function chunks :: "nat \<Rightarrow> u8 list \<Rightarrow> u8 list list" where
  "chunks n bs = (if 0 < n \<and> n \<le> length bs then take n bs # chunks n (drop n bs) else [])"
  by pat_completeness auto
termination
  by (relation "measure (\<lambda>(n, bs). length bs)") auto

declare chunks.simps [simp del]

definition words64 :: "bool \<Rightarrow> u8 list \<Rightarrow> u64 list" where
  "words64 big_endian buf = map (load big_endian) (chunks 8 buf)"

definition words32 :: "bool \<Rightarrow> u8 list \<Rightarrow> u32 list" where
  "words32 big_endian buf = map (load big_endian) (chunks 4 buf)"

lemma chunks_length: "c \<in> set (chunks n bs) \<Longrightarrow> length c = n"
proof (induction n bs rule: chunks.induct)
  case (1 n bs)
  then show ?case by (subst (asm) (2) chunks.simps) (auto split: if_splits)
qed

lemma chunks_append:
  assumes "0 < n" "n dvd length a"
  shows "chunks n (a @ b) = chunks n a @ chunks n b"
  using assms
proof (induction n a rule: chunks.induct)
  case (1 n a)
  show ?case
  proof (cases "a = []")
    case True
    then show ?thesis using 1(2) by (simp add: chunks.simps [of n "[]"])
  next
    case False
    then have "n \<le> length a" using 1(3) by (simp add: dvd_imp_le)
    then show ?thesis using 1 by (simp add: chunks.simps [of n a] chunks.simps [of n "a @ b"])
  qed
qed

lemma words64_swap: "map BSWAP_64 (words64 b buf) = words64 (\<not> b) buf"
  using chunks_length [of _ 8 buf] by (simp add: words64_def BSWAP_64_load)

lemma words32_swap: "map BSWAP_32 (words32 b buf) = words32 (\<not> b) buf"
  using chunks_length [of _ 4 buf] by (simp add: words32_def BSWAP_32_load)

end
