(* ===== verification/Fletcher.thy ===== *)
theory Fletcher
  imports Blkptr Byteorder
begin

text \<open>
The Fletcher checksums of \<^verbatim>\<open>fletcher.c\<close>: the sums are kept in 64-bit words that wrap around. The lemmas
show that a checksum can be computed in pieces, what the byte swapping variants compute, and which
corruptions of a buffer change the sums.
\<close>

section \<open>Fletcher checksums\<close>

text \<open>The checksum functions read a buffer of \<^verbatim>\<open>uint64_t\<close> or \<^verbatim>\<open>uint32_t\<close>. \<open>rd\<close> is what the loop
  applies to each element: nothing, or a swap macro. \<^verbatim>\<open>fletcher_2\<close> takes its elements in pairs and so
  would read behind a buffer with an odd number of them: the result is then \<^term>\<open>None\<close>.\<close>

fun fletcher_2_loop :: "(u64 \<Rightarrow> u64) \<Rightarrow> u64 list \<Rightarrow> u64 \<Rightarrow> u64 \<Rightarrow> u64 \<Rightarrow> u64 \<Rightarrow> zio_cksum option" where
  "fletcher_2_loop rd [] a0 a1 b0 b1 = Some (ZIO_SET_CHECKSUM a0 a1 b0 b1)" |
  "fletcher_2_loop rd [ip0] a0 a1 b0 b1 = None" |
  "fletcher_2_loop rd (ip0 # ip1 # ip) a0 a1 b0 b1 =
    (let a0 = a0 + rd ip0; a1 = a1 + rd ip1; b0 = b0 + a0; b1 = b1 + a1
     in fletcher_2_loop rd ip a0 a1 b0 b1)"

definition fletcher_2_native :: "bool \<Rightarrow> u8 list \<Rightarrow> zio_cksum option" where
  "fletcher_2_native big_endian buf = fletcher_2_loop (\<lambda>x. x) (words64 big_endian buf) 0 0 0 0"

definition fletcher_2_byteswap :: "bool \<Rightarrow> u8 list \<Rightarrow> zio_cksum option" where
  "fletcher_2_byteswap big_endian buf = fletcher_2_loop BSWAP_64 (words64 big_endian buf) 0 0 0 0"

fun fletcher_4_loop :: "(u32 \<Rightarrow> u32) \<Rightarrow> u32 list \<Rightarrow> u64 \<Rightarrow> u64 \<Rightarrow> u64 \<Rightarrow> u64 \<Rightarrow> zio_cksum" where
  "fletcher_4_loop rd [] a b c d = ZIO_SET_CHECKSUM a b c d" |
  "fletcher_4_loop rd (ip0 # ip) a b c d =
    (let a = a + ucast (rd ip0); b = b + a; c = c + b; d = d + c in fletcher_4_loop rd ip a b c d)"

definition fletcher_4_native :: "bool \<Rightarrow> u8 list \<Rightarrow> zio_cksum" where
  "fletcher_4_native big_endian buf = fletcher_4_loop (\<lambda>x. x) (words32 big_endian buf) 0 0 0 0"

definition fletcher_4_byteswap :: "bool \<Rightarrow> u8 list \<Rightarrow> zio_cksum" where
  "fletcher_4_byteswap big_endian buf = fletcher_4_loop BSWAP_32 (words32 big_endian buf) 0 0 0 0"

definition fletcher_4_incremental_native :: "bool \<Rightarrow> u8 list \<Rightarrow> zio_cksum \<Rightarrow> zio_cksum" where
  "fletcher_4_incremental_native big_endian buf zc =
    fletcher_4_loop (\<lambda>x. x) (words32 big_endian buf) (zc_word0 zc) (zc_word1 zc) (zc_word2 zc) (zc_word3 zc)"

definition fletcher_4_incremental_byteswap :: "bool \<Rightarrow> u8 list \<Rightarrow> zio_cksum \<Rightarrow> zio_cksum" where
  "fletcher_4_incremental_byteswap big_endian buf zc =
    fletcher_4_loop BSWAP_32 (words32 big_endian buf) (zc_word0 zc) (zc_word1 zc) (zc_word2 zc) (zc_word3 zc)"

lemmas fletcher_defs = fletcher_2_native_def fletcher_2_byteswap_def fletcher_4_native_def fletcher_4_byteswap_def
  fletcher_4_incremental_native_def fletcher_4_incremental_byteswap_def

subsection \<open>Composition and byte order\<close>

lemma fletcher_4_append:
  "fletcher_4_loop rd (xs @ ys) a b c d =
    (let zc = fletcher_4_loop rd xs a b c d
     in fletcher_4_loop rd ys (zc_word0 zc) (zc_word1 zc) (zc_word2 zc) (zc_word3 zc))"
  by (induction xs arbitrary: a b c d) (simp_all add: ZIO_SET_CHECKSUM_def Let_def)

lemma fletcher_2_rd: "fletcher_2_loop rd ws a0 a1 b0 b1 = fletcher_2_loop (\<lambda>x. x) (map rd ws) a0 a1 b0 b1"
  by (induction rd ws a0 a1 b0 b1 rule: fletcher_2_loop.induct) (simp_all add: Let_def)

lemma fletcher_4_rd: "fletcher_4_loop rd ws a b c d = fletcher_4_loop (\<lambda>x. x) (map rd ws) a b c d"
  by (induction rd ws a b c d rule: fletcher_4_loop.induct) (simp_all add: Let_def)

lemma fletcher_swap:
  "fletcher_2_byteswap big buf = fletcher_2_native (\<not> big) buf"
  "fletcher_4_byteswap big buf = fletcher_4_native (\<not> big) buf"
  "fletcher_4_incremental_byteswap big buf zc = fletcher_4_incremental_native (\<not> big) buf zc"
  by (simp_all add: fletcher_defs fletcher_2_rd [of BSWAP_64] fletcher_4_rd [of BSWAP_32] words64_swap words32_swap)

lemma fletcher_4_incremental:
  assumes "4 dvd length buf"
  shows "fletcher_4_incremental_native big buf' (fletcher_4_native big buf) = fletcher_4_native big (buf @ buf')"
  using assms by (simp add: fletcher_defs words32_def chunks_append fletcher_4_append Let_def)

subsection \<open>What the sums detect\<close>

lemma fletcher_2_sums:
  assumes "fletcher_2_loop (\<lambda>x. x) ws a0 a1 b0 b1 = Some zc"
  shows "zc_word0 zc + zc_word1 zc = a0 + a1 + sum_list ws"
  using assms
  by (induction "\<lambda>x :: u64. x" ws a0 a1 b0 b1 rule: fletcher_2_loop.induct)
    (auto simp: ZIO_SET_CHECKSUM_def Let_def algebra_simps)

lemma fletcher_2_some:
  "even (length ws) \<Longrightarrow> \<exists>zc. fletcher_2_loop rd ws a0 a1 b0 b1 = Some zc"
  by (induction rd ws a0 a1 b0 b1 rule: fletcher_2_loop.induct) (auto simp: Let_def)

lemma fletcher_4_sum: "zc_word0 (fletcher_4_loop (\<lambda>x. x) ws a b c d) = a + (\<Sum>w\<leftarrow>ws. ucast w)"
  by (induction ws arbitrary: a b c d) (simp_all add: ZIO_SET_CHECKSUM_def Let_def)

lemma fletcher_4_second:
  "zc_word1 (fletcher_4_loop (\<lambda>x. x) ws a b c d) = b + zc_word1 (fletcher_4_loop (\<lambda>x. x) ws a 0 0 0)"
proof (induction ws arbitrary: a b c d)
  case (Cons w ws)
  show ?case using Cons [of "a + ucast w" "b + (a + ucast w)"] Cons [of "a + ucast w" "a + ucast w"]
    by (simp add: Let_def)
qed (simp add: ZIO_SET_CHECKSUM_def)

lemma load_inj:
  assumes "length u = n" "length v = n" "8 * n = LENGTH('a)" "(load b u :: 'a :: len word) = load b v"
  shows "u = v"
proof -
  have "u = store b n (load b u :: 'a word)" using assms(1,3) by (simp add: store_load)
  also have "\<dots> = store b n (load b v :: 'a word)" unfolding assms(4) ..
  also have "\<dots> = v" using assms(2,3) by (rule store_load)
  finally show ?thesis .
qed

lemma chunks_single: "0 < n \<Longrightarrow> length u = n \<Longrightarrow> chunks n (u @ q) = u # chunks n q"
  by (subst chunks.simps) simp

lemma words32_split: "4 dvd length p \<Longrightarrow> length u = 4 \<Longrightarrow> words32 b (p @ u @ q) = words32 b p @ load b u # words32 b q"
  by (simp only: words32_def chunks_append [of 4 p] chunks_single [of 4 u]) simp

lemma words64_split: "8 dvd length p \<Longrightarrow> length u = 8 \<Longrightarrow> words64 b (p @ u @ q) = words64 b p @ load b u # words64 b q"
  by (simp only: words64_def chunks_append [of 8 p] chunks_single [of 8 u]) simp

lemma ucast_32_64_inj: "(ucast (x :: u32) :: u64) = ucast y \<Longrightarrow> x = y"
proof (rule bit_word_eqI)
  fix n
  assume eq: "(ucast x :: u64) = ucast y" and "n < LENGTH(32)"
  then have "bit (ucast x :: u64) n \<longleftrightarrow> bit (ucast y :: u64) n" "n < 32" by simp_all
  then show "bit x n \<longleftrightarrow> bit y n" by (simp add: bit_simps)
qed

lemma words64_even: "16 dvd length buf \<Longrightarrow> even (length (words64 b buf))"
proof -
  have l: "length (chunks 8 bs) = length bs div 8" for bs
  proof (induction "8 :: nat" bs rule: chunks.induct)
    case (1 bs)
    then show ?case by (subst chunks.simps) (simp add: le_div_geq)
  qed
  assume "16 dvd length buf"
  then show ?thesis by (auto simp: words64_def l elim!: dvdE)
qed

lemma fletcher_2_detects:
  assumes "8 dvd length p" "length u = 8" "length v = 8" "16 dvd length (p @ u @ q)" "u \<noteq> v"
  shows "fletcher_2_native big (p @ u @ q) \<noteq> fletcher_2_native big (p @ v @ q)"
proof
  assume eq: "fletcher_2_native big (p @ u @ q) = fletcher_2_native big (p @ v @ q)"
  obtain zc where "fletcher_2_native big (p @ u @ q) = Some zc"
    using fletcher_2_some [OF words64_even [OF assms(4)]] unfolding fletcher_2_native_def by blast
  with eq have "sum_list (words64 big (p @ u @ q)) = sum_list (words64 big (p @ v @ q))"
    using fletcher_2_sums [of _ 0 0 0 0 zc] unfolding fletcher_2_native_def by (metis add_0)
  then have "load big u = (load big v :: u64)"
    using assms(1-3) by (simp add: words64_split)
  then have "u = v" by (intro load_inj [OF assms(2,3), where 'a = 64 and b = big]) simp_all
  then show False using assms(5) by simp
qed

lemma fletcher_4_detects:
  assumes "4 dvd length p" "length u = 4" "length v = 4" "u \<noteq> v"
  shows "fletcher_4_native big (p @ u @ q) \<noteq> fletcher_4_native big (p @ v @ q)"
    "fletcher_4_native big (p @ u @ v @ q) \<noteq> fletcher_4_native big (p @ v @ u @ q)"
proof -
  have ne: "load big u \<noteq> (load big v :: u32)" 
    using load_inj [OF assms(2,3), where 'a = 32 and b = big] assms(4) by auto
  show "fletcher_4_native big (p @ u @ q) \<noteq> fletcher_4_native big (p @ v @ q)"
  proof
    assume "fletcher_4_native big (p @ u @ q) = fletcher_4_native big (p @ v @ q)"
    then have "(\<Sum>w\<leftarrow>words32 big (p @ u @ q). ucast w :: u64) = (\<Sum>w\<leftarrow>words32 big (p @ v @ q). ucast w)"
      using fletcher_4_sum [of _ 0 0 0 0] unfolding fletcher_4_native_def by (metis add_0)
    then have "ucast (load big u :: u32) = (ucast (load big v :: u32) :: u64)"
      using assms(1-3) by (simp add: words32_split)
    then show False using ne ucast_32_64_inj by blast
  qed
  show "fletcher_4_native big (p @ u @ v @ q) \<noteq> fletcher_4_native big (p @ v @ u @ q)"
  proof
    assume eq: "fletcher_4_native big (p @ u @ v @ q) = fletcher_4_native big (p @ v @ u @ q)"
    have w: "words32 big (p @ x @ y @ q) = words32 big p @ load big x # load big y # words32 big q"
      if "length x = 4" "length y = 4" for x y
      using words32_split [OF assms(1) that(1), of big "y @ q"] that(2)
      by (simp add: words32_def chunks_single)
    define zc where "zc = fletcher_4_loop (\<lambda>x. x) (words32 big p) 0 0 0 0"
    define U V :: u64 where "U = ucast (load big u :: u32)" and "V = ucast (load big v :: u32)"
    have b: "zc_word1 (fletcher_4_native big (p @ x @ y @ q)) =
        zc_word1 zc + (zc_word0 zc + X) + (zc_word0 zc + X + Y) +
        zc_word1 (fletcher_4_loop (\<lambda>x. x) (words32 big q) (zc_word0 zc + X + Y) 0 0 0)"
      if "length x = 4" "length y = 4" "X = ucast (load big x :: u32)" "Y = ucast (load big y :: u32)" for x y X Y
      unfolding fletcher_4_native_def w [OF that(1,2)] fletcher_4_append Let_def zc_def [symmetric] fletcher_4_loop.simps
      unfolding that(3,4) [symmetric] by (rule fletcher_4_second)
    have comm: "zc_word0 zc + V + U = zc_word0 zc + U + V" by (simp add: ac_simps)
    have "zc_word1 zc + (zc_word0 zc + U) = zc_word1 zc + (zc_word0 zc + V)"
      using arg_cong [OF eq, of zc_word1] unfolding b [OF assms(2,3) U_def V_def] b [OF assms(3,2) V_def U_def] comm by simp
    then have "U = V" by simp
    then show False using ne ucast_32_64_inj by (auto simp: U_def V_def)
  qed
qed

subsection \<open>Properties\<close>

text \<open>C32: a Fletcher checksum computed over a buffer in pieces is the checksum of the whole buffer, on
  hosts of either byte order, and the byte swapping variants compute what a host of the other byte order
  computes natively.\<close>

theorem fletcher_incremental_correct:
  assumes "4 dvd length buf"
  shows "fletcher_4_incremental_native big buf' (fletcher_4_native big buf) = fletcher_4_native big (buf @ buf') \<and>
    fletcher_4_incremental_byteswap big buf' (fletcher_4_byteswap big buf) = fletcher_4_byteswap big (buf @ buf') \<and>
    fletcher_4_byteswap big buf' = fletcher_4_native (\<not> big) buf' \<and>
    fletcher_2_byteswap big buf' = fletcher_2_native (\<not> big) buf'"
  using fletcher_4_incremental [OF assms] by (simp add: fletcher_swap)

theorem fletcher_incremental_correct_witness:
  "fletcher_4_incremental_native True [5, 6, 7, 8] (fletcher_4_native True [1, 2, 3, 4]) =
    fletcher_4_native True [1, 2, 3, 4, 5, 6, 7, 8]"
proof -
  have "4 dvd length [1, 2, 3, 4 :: u8]" by code_simp
  from fletcher_incremental_correct [OF this, of True "[5, 6, 7, 8]"] show ?thesis by simp
qed

end
