(* ===== verification/Sha256.thy ===== *)
theory Sha256
  imports Fletcher
begin

text \<open>
\<^verbatim>\<open>sha256.c\<close>: the compression function, the padding, and the hash as a fold over the blocks of the padded
message. The loop counters of the C code are of type \<^verbatim>\<open>int\<close>, enough for the block sizes of the pool
(128 KB at most); the model counts with natural numbers.
\<close>

section \<open>SHA-256\<close>

definition Ch :: "u32 \<Rightarrow> u32 \<Rightarrow> u32 \<Rightarrow> u32" where
  "Ch x y z = z XOR (x AND (y XOR z))"

definition Maj :: "u32 \<Rightarrow> u32 \<Rightarrow> u32 \<Rightarrow> u32" where
  "Maj x y z = (x AND y) XOR (z AND (x XOR y))"

definition Rot32 :: "u32 \<Rightarrow> nat \<Rightarrow> u32" where
  "Rot32 x s = drop_bit s x OR push_bit (32 - s) x"

definition SIGMA0 :: "u32 \<Rightarrow> u32" where
  "SIGMA0 x = Rot32 x 2 XOR Rot32 x 13 XOR Rot32 x 22"

definition SIGMA1 :: "u32 \<Rightarrow> u32" where
  "SIGMA1 x = Rot32 x 6 XOR Rot32 x 11 XOR Rot32 x 25"

definition sigma0 :: "u32 \<Rightarrow> u32" where
  "sigma0 x = Rot32 x 7 XOR Rot32 x 18 XOR drop_bit 3 x"

definition sigma1 :: "u32 \<Rightarrow> u32" where
  "sigma1 x = Rot32 x 17 XOR Rot32 x 19 XOR drop_bit 10 x"

definition SHA256_K :: "u32 list" where
  "SHA256_K = concat [
    [0x428a2f98, 0x71374491, 0xb5c0fbcf, 0xe9b5dba5],
    [0x3956c25b, 0x59f111f1, 0x923f82a4, 0xab1c5ed5],
    [0xd807aa98, 0x12835b01, 0x243185be, 0x550c7dc3],
    [0x72be5d74, 0x80deb1fe, 0x9bdc06a7, 0xc19bf174],
    [0xe49b69c1, 0xefbe4786, 0x0fc19dc6, 0x240ca1cc],
    [0x2de92c6f, 0x4a7484aa, 0x5cb0a9dc, 0x76f988da],
    [0x983e5152, 0xa831c66d, 0xb00327c8, 0xbf597fc7],
    [0xc6e00bf3, 0xd5a79147, 0x06ca6351, 0x14292967],
    [0x27b70a85, 0x2e1b2138, 0x4d2c6dfc, 0x53380d13],
    [0x650a7354, 0x766a0abb, 0x81c2c92e, 0x92722c85],
    [0xa2bfe8a1, 0xa81a664b, 0xc24b8b70, 0xc76c51a3],
    [0xd192e819, 0xd6990624, 0xf40e3585, 0x106aa070],
    [0x19a4c116, 0x1e376c08, 0x2748774c, 0x34b0bcb5],
    [0x391c0cb3, 0x4ed8aa4a, 0x5b9cca4f, 0x682e6ff3],
    [0x748f82ee, 0x78a5636f, 0x84c87814, 0x8cc70208],
    [0x90befffa, 0xa4506ceb, 0xbef9a3f7, 0xc67178f2]]"

definition sha_word :: "u8 list \<Rightarrow> nat \<Rightarrow> u32" where
  "sha_word cp t = push_bit 24 (ucast (cp ! (4 * t))) OR push_bit 16 (ucast (cp ! (4 * t + 1))) OR
     push_bit 8 (ucast (cp ! (4 * t + 2))) OR ucast (cp ! (4 * t + 3))"

definition sha_schedule :: "u8 list \<Rightarrow> u32 list" where
  "sha_schedule cp =
    foldl (\<lambda>W t. W @ [sigma1 (W ! (t - 2)) + W ! (t - 7) + sigma0 (W ! (t - 15)) + W ! (t - 16)])
      (map (sha_word cp) [0..<16]) [16..<64]"

type_synonym sha_vars = "u32 \<times> u32 \<times> u32 \<times> u32 \<times> u32 \<times> u32 \<times> u32 \<times> u32"

definition sha_round :: "u32 list \<Rightarrow> sha_vars \<Rightarrow> nat \<Rightarrow> sha_vars" where
  "sha_round W v t = (case v of (a, b, c, d, e, f, g, h) \<Rightarrow>
    (let T1 = h + SIGMA1 e + Ch e f g + SHA256_K ! t + W ! t;
         T2 = SIGMA0 a + Maj a b c
     in (T1 + T2, a, b, c, d + T1, e, f, g)))"

definition SHA256Transform :: "sha_vars \<Rightarrow> u8 list \<Rightarrow> sha_vars" where
  "SHA256Transform H cp = (case H of (H0, H1, H2, H3, H4, H5, H6, H7) \<Rightarrow>
    (case foldl (sha_round (sha_schedule cp)) H [0..<64] of (a, b, c, d, e, f, g, h) \<Rightarrow>
      (H0 + a, H1 + b, H2 + c, H3 + d, H4 + e, H5 + f, H6 + g, H7 + h)))"

definition sha_init :: sha_vars where
  "sha_init = (0x6a09e667, 0xbb67ae85, 0x3c6ef372, 0xa54ff53a, 0x510e527f, 0x9b05688c, 0x1f83d9ab, 0x5be0cd19)"

text \<open>The loop over blocks of 64 bytes, from \<open>i\<close> while \<open>i < limit\<close>; it runs over the buffer and over
  the padding.\<close>

function sha_blocks :: "sha_vars \<Rightarrow> u8 list \<Rightarrow> nat \<Rightarrow> nat \<Rightarrow> sha_vars" where
  "sha_blocks H buf i limit =
    (if i < limit then sha_blocks (SHA256Transform H (take 64 (drop i buf))) buf (i + 64) limit else H)"
  by pat_completeness auto
termination
  by (relation "measure (\<lambda>(H, buf, i, limit). limit - i)") auto

lemma sha_gap: "(120 - m) mod 64 = (if m \<le> 56 then 56 - m else 120 - m)" if "m < 64" for m :: nat
proof (cases "m \<le> 56")
  case True
  then have "120 - m = 64 + (56 - m)" by simp
  then show ?thesis using True by (simp only: mod_add_self1) simp
qed (use that in simp)

text \<open>The zeroes behind the \<open>0x80\<close>, until eight bytes are missing to a whole block.\<close>

function sha_zeroes :: "u8 list \<Rightarrow> u8 list" where
  "sha_zeroes pad = (if length pad mod 64 \<noteq> 56 then sha_zeroes (pad @ [0]) else pad)"
  by pat_completeness auto
termination
proof (relation "measure (\<lambda>pad. (120 - length pad mod 64) mod 64)", goal_cases)
  case (2 pad)
  have "length pad mod 64 < 64" "Suc (length pad) mod 64 < 64" by simp_all
  then show ?case using 2 by (simp add: sha_gap mod_Suc split: if_splits) (intro conjI impI; linarith)
qed simp

declare sha_blocks.simps [simp del] sha_zeroes.simps [simp del]

definition sha_pad :: "u8 list \<Rightarrow> u8 list" where
  "sha_pad buf =
    (let size = length buf;
         pad = drop (size - size mod 64) buf;
         pad = sha_zeroes (pad @ [0x80])
     in pad @ map (\<lambda>i. ucast (drop_bit i (push_bit 3 (of_nat size :: u64)))) [56, 48, 40, 32, 24, 16, 8, 0])"

definition zio_checksum_SHA256 :: "u8 list \<Rightarrow> zio_cksum" where
  "zio_checksum_SHA256 buf =
    (let size = length buf;
         H = sha_blocks sha_init buf 0 (size - size mod 64);
         pad = sha_pad buf
     in case sha_blocks H pad 0 (length pad) of (H0, H1, H2, H3, H4, H5, H6, H7) \<Rightarrow>
       ZIO_SET_CHECKSUM (push_bit 32 (ucast H0) OR ucast H1) (push_bit 32 (ucast H2) OR ucast H3)
         (push_bit 32 (ucast H4) OR ucast H5) (push_bit 32 (ucast H6) OR ucast H7))"

subsection \<open>The standard\<close>

text \<open>The message of FIPS 180: the data, a one bit, zeroes, and the length in bits.\<close>

definition sha_message :: "u8 list \<Rightarrow> u8 list" where
  "sha_message buf = buf @ 0x80 # replicate ((119 - length buf mod 64) mod 64) 0 @ store_be 8 (of_nat (8 * length buf) :: u64)"

definition sha_digest :: "sha_vars \<Rightarrow> zio_cksum" where
  "sha_digest H = (case H of (H0, H1, H2, H3, H4, H5, H6, H7) \<Rightarrow>
    ZIO_SET_CHECKSUM (load_be (store_be 4 H0 @ store_be 4 H1)) (load_be (store_be 4 H2 @ store_be 4 H3))
      (load_be (store_be 4 H4 @ store_be 4 H5)) (load_be (store_be 4 H6 @ store_be 4 H7)))"

lemma sha_blocks_eq:
  assumes "64 dvd limit - i" "i \<le> limit" "limit \<le> length buf"
  shows "sha_blocks H buf i limit = foldl SHA256Transform H (chunks 64 (take (limit - i) (drop i buf)))"
  using assms
proof (induction H buf i limit rule: sha_blocks.induct)
  case (1 H buf i limit)
  show ?case
  proof (cases "i < limit")
    case True
    then have le: "64 \<le> limit - i" using 1(2) by (simp add: dvd_imp_le)
    have "take (limit - i) (drop i buf) = take 64 (drop i buf) @ take (limit - (i + 64)) (drop (i + 64) buf)"
      using le take_add [of 64 "limit - i - 64" "drop i buf"] by (simp add: add.commute)
    moreover have "64 dvd limit - (i + 64)" using 1(2) le by (metis diff_diff_left dvd_diff_nat dvd_refl)
    ultimately show ?thesis
      using 1 True le by (subst sha_blocks.simps) (simp add: chunks_single)
  next
    case False
    then show ?thesis by (subst sha_blocks.simps) (simp add: chunks.simps)
  qed
qed

lemma sha_zeroes_eq: "sha_zeroes pad = pad @ replicate ((120 - length pad mod 64) mod 64) 0"
proof (induction pad rule: sha_zeroes.induct)
  case (1 pad)
  have "length pad mod 64 < 64" "Suc (length pad) mod 64 < 64" by simp_all
  then have "(120 - length pad mod 64) mod 64 = Suc ((120 - Suc (length pad) mod 64) mod 64)" if "length pad mod 64 \<noteq> 56"
    using that by (simp add: sha_gap mod_Suc split: if_splits) (intro conjI impI; linarith)
  then show ?case using 1 by (subst sha_zeroes.simps) simp
qed

lemma load_be_append: "(load_be (a @ b) :: 'a :: len word) = push_bit (8 * length b) (load_be a) OR load_be b"
proof (induction b rule: rev_induct)
  case (snoc x b)
  have "a @ b @ [x] = (a @ b) @ [x]" by simp
  then have "(load_be (a @ b @ [x]) :: 'a word) = push_bit 8 (load_be (a @ b)) OR ucast x" by (metis load_be_snoc)
  then show ?case using snoc by (simp add: push_bit_or or.assoc add.commute)
qed simp

lemma load_be_ucast: "(load_be (store_be 4 (x :: u32)) :: u64) = ucast x"
proof (rule bit_word_eqI)
  fix i
  assume "i < LENGTH(64)"
  then have i: "i < LENGTH(64)" "i < 64" by simp_all
  show "bit (load_be (store_be 4 x) :: u64) i \<longleftrightarrow> bit (ucast x :: u64) i"
  proof (cases "i < 32")
    case True
    then have "i < LENGTH(32)" by simp
    then have "bit (load_be (store_be 4 x) :: u64) i \<longleftrightarrow> bit (load_be (store_be 4 x) :: u32) i"
      using bit_load_be [OF i(1), of "store_be 4 x"] bit_load_be [of i "store_be 4 x", where 'a = 32] by simp
    then show ?thesis using i by (simp add: load_store_be bit_simps)
  next
    case False
    moreover have "\<not> bit x i" using False bit_imp_le_length [of x i] by auto
    ultimately show ?thesis using bit_load_be [OF i(1), of "store_be 4 x"] by (simp add: bit_simps)
  qed
qed

lemma sha_digest_eq:
  "sha_digest (H0, H1, H2, H3, H4, H5, H6, H7) =
    ZIO_SET_CHECKSUM (push_bit 32 (ucast H0) OR ucast H1) (push_bit 32 (ucast H2) OR ucast H3)
      (push_bit 32 (ucast H4) OR ucast H5) (push_bit 32 (ucast H6) OR ucast H7)"
  by (simp add: sha_digest_def load_be_append load_be_ucast)

lemma sha_length: "map (\<lambda>i. ucast (drop_bit i (push_bit 3 (of_nat n :: u64)))) [56, 48, 40, 32, 24, 16, 8, 0] =
    store_be 8 (of_nat (8 * n) :: u64)"
proof -
  have "push_bit 3 (of_nat n :: u64) = of_nat (8 * n)" by (simp add: push_bit_eq_mult)
  then show ?thesis by (simp add: store_be_def upt_rec)
qed

lemma sha_pad_eq: "sha_pad buf = drop (length buf - length buf mod 64) (sha_message buf)"
proof -
  have r: "length buf mod 64 < 64" by simp
  have "(120 - Suc (length buf mod 64) mod 64) mod 64 = (119 - length buf mod 64) mod 64"
  proof (cases "length buf mod 64 = 63")
    case False
    then have "Suc (length buf mod 64) mod 64 = Suc (length buf mod 64)" using r by simp
    then show ?thesis by simp
  qed simp
  moreover have "length (drop (length buf - length buf mod 64) buf) = length buf mod 64" by simp
  ultimately show ?thesis
    unfolding sha_pad_def Let_def sha_length sha_zeroes_eq sha_message_def by simp
qed

lemma sha_message_length: "64 dvd length (sha_message buf)" "length (sha_pad buf) \<le> 128"
proof -
  define m where "m = length buf mod 64"
  have m: "m < 64" by (simp add: m_def)
  have l: "length (sha_message buf) = length buf - m + (m + 9 + (119 - m) mod 64)"
    by (simp add: sha_message_def m_def)
  have g: "(119 - m) mod 64 = (if m \<le> 55 then 55 - m else 119 - m)"
    using sha_gap [of "Suc m"] m by (cases "m = 63") auto
  have d: "64 dvd length buf - m" unfolding m_def by (rule dvd_minus_mod)
  define k where "k = m + 9 + (119 - m) mod 64"
  have "k = 64 \<or> k = 128" using m g by (auto simp: k_def)
  then have n: "64 dvd k" "k \<le> 128" by auto
  show "64 dvd length (sha_message buf)" unfolding l k_def [symmetric] using d n(1) by (rule dvd_add)
  show "length (sha_pad buf) \<le> 128" using l n(2) by (simp add: sha_pad_eq m_def k_def)
qed

lemma sha_reductions:
  "Ch x y z = (x AND y) XOR (NOT x AND z)" "Maj x y z = (x AND y) XOR (x AND z) XOR (y AND z)"
  by (auto intro!: bit_word_eqI simp: Ch_def Maj_def bit_simps)

lemma sha_fold:
  "sha_blocks (sha_blocks H buf 0 (length buf - length buf mod 64)) (sha_pad buf) 0 (length (sha_pad buf)) =
    foldl SHA256Transform H (chunks 64 (sha_message buf))"
proof -
  define n where "n = length buf - length buf mod 64"
  have d: "64 dvd n" "n \<le> length buf" by (simp_all add: n_def dvd_minus_mod)
  have "64 dvd length (sha_pad buf)"
    using d sha_message_length(1) [of buf] by (simp add: sha_pad_eq n_def [symmetric])
  then have p: "sha_blocks H (sha_pad buf) 0 (length (sha_pad buf)) = foldl SHA256Transform H (chunks 64 (sha_pad buf))" for H
    by (simp add: sha_blocks_eq)
  have b: "sha_blocks H buf 0 n = foldl SHA256Transform H (chunks 64 (take n buf))"
    using d by (simp add: sha_blocks_eq)
  have "sha_message buf = take n buf @ sha_pad buf"
    using d(2) append_take_drop_id [of n "sha_message buf"] by (simp add: sha_pad_eq n_def [symmetric]) (simp add: sha_message_def)
  then show ?thesis unfolding n_def [symmetric] b p using d by (simp add: chunks_append)
qed


end
