(* ===== verification/Zio_Checksum.thy ===== *)
theory Zio_Checksum
  imports Sha256
begin

text \<open>
\<^verbatim>\<open>zio_checksum.c\<close> and the checksum stages of \<^verbatim>\<open>zio.c\<close>: the table of functions, the block tail that holds
an embedded checksum, generating a checksum on a write and verifying it on a read. \<open>big_endian\<close> is
the byte order of the host that runs the code; the s390x port is big-endian, and a pool may have been
written by a host of the other byte order.
\<close>

section \<open>The checksum table\<close>

definition ZIO_CHECKSUM_INHERIT :: nat where "ZIO_CHECKSUM_INHERIT = 0"
definition ZIO_CHECKSUM_ON :: nat where "ZIO_CHECKSUM_ON = 1"
definition ZIO_CHECKSUM_OFF :: nat where "ZIO_CHECKSUM_OFF = 2"
definition ZIO_CHECKSUM_LABEL :: nat where "ZIO_CHECKSUM_LABEL = 3"
definition ZIO_CHECKSUM_GANG_HEADER :: nat where "ZIO_CHECKSUM_GANG_HEADER = 4"
definition ZIO_CHECKSUM_ZILOG :: nat where "ZIO_CHECKSUM_ZILOG = 5"
definition ZIO_CHECKSUM_FLETCHER_2 :: nat where "ZIO_CHECKSUM_FLETCHER_2 = 6"
definition ZIO_CHECKSUM_FLETCHER_4 :: nat where "ZIO_CHECKSUM_FLETCHER_4 = 7"
definition ZIO_CHECKSUM_SHA256 :: nat where "ZIO_CHECKSUM_SHA256 = 8"
definition ZIO_CHECKSUM_FUNCTIONS :: nat where "ZIO_CHECKSUM_FUNCTIONS = 9"

definition ZIO_CHECKSUM_ON_VALUE :: nat where
  "ZIO_CHECKSUM_ON_VALUE = ZIO_CHECKSUM_FLETCHER_2"

lemmas zio_checksum_nums = ZIO_CHECKSUM_INHERIT_def ZIO_CHECKSUM_ON_def ZIO_CHECKSUM_OFF_def ZIO_CHECKSUM_LABEL_def
  ZIO_CHECKSUM_GANG_HEADER_def ZIO_CHECKSUM_ZILOG_def ZIO_CHECKSUM_FLETCHER_2_def ZIO_CHECKSUM_FLETCHER_4_def
  ZIO_CHECKSUM_SHA256_def ZIO_CHECKSUM_FUNCTIONS_def ZIO_CHECKSUM_ON_VALUE_def

type_synonym zio_checksum_t = "u8 list \<Rightarrow> zio_cksum option"

record zio_checksum_info =
  ci_func0 :: "zio_checksum_t option"
  ci_func1 :: "zio_checksum_t option"
  ci_correctable :: nat
  ci_zbt :: bool
  ci_name :: string

definition zio_checksum_off :: "u8 list \<Rightarrow> zio_cksum" where
  "zio_checksum_off buf = ZIO_SET_CHECKSUM 0 0 0 0"

definition zio_checksum_table :: "bool \<Rightarrow> zio_checksum_info list" where
  "zio_checksum_table big_endian =
    (let ci = \<lambda>f0 f1 correctable zbt name.
       \<lparr>ci_func0 = f0, ci_func1 = f1, ci_correctable = correctable, ci_zbt = zbt, ci_name = name\<rparr>;
         off = Some (\<lambda>buf. Some (zio_checksum_off buf));
         sha256 = Some (\<lambda>buf. Some (zio_checksum_SHA256 buf));
         fletcher_2 = Some (fletcher_2_native big_endian);
         fletcher_2_swap = Some (fletcher_2_byteswap big_endian);
         fletcher_4 = Some (\<lambda>buf. Some (fletcher_4_native big_endian buf));
         fletcher_4_swap = Some (\<lambda>buf. Some (fletcher_4_byteswap big_endian buf))
     in [ci None None 0 False ''inherit'',
         ci None None 0 False ''on'',
         ci off off 0 False ''off'',
         ci sha256 sha256 1 True ''label'',
         ci sha256 sha256 1 True ''gang_header'',
         ci fletcher_2 fletcher_2_swap 0 True ''zilog'',
         ci fletcher_2 fletcher_2_swap 0 False ''fletcher2'',
         ci fletcher_4 fletcher_4_swap 1 False ''fletcher4'',
         ci sha256 sha256 1 False ''SHA256''])"

definition zio_checksum_select :: "nat \<Rightarrow> nat \<Rightarrow> nat" where
  "zio_checksum_select child parent =
    (if child = ZIO_CHECKSUM_INHERIT then parent
     else if child = ZIO_CHECKSUM_ON then ZIO_CHECKSUM_ON_VALUE
     else child)"

section \<open>The block tail\<close>

definition ZBT_MAGIC :: u64 where
  "ZBT_MAGIC = 0x210da7ab10c7a11"

text \<open>\<^verbatim>\<open>zio_block_tail_t\<close> is the last 40 bytes of the data: the magic number and the four words of the
  checksum.\<close>

definition word_at :: "bool \<Rightarrow> u8 list \<Rightarrow> nat \<Rightarrow> u64" where
  "word_at big_endian data k = load big_endian (take 8 (drop (length data - k) data))"

definition zbt_magic :: "bool \<Rightarrow> u8 list \<Rightarrow> u64" where
  "zbt_magic big_endian data = word_at big_endian data 40"

definition zbt_cksum :: "bool \<Rightarrow> u8 list \<Rightarrow> zio_cksum" where
  "zbt_cksum big_endian data =
    \<lparr>zc_word0 = word_at big_endian data 32, zc_word1 = word_at big_endian data 24,
     zc_word2 = word_at big_endian data 16, zc_word3 = word_at big_endian data 8\<rparr>"

definition set_zbt_magic :: "bool \<Rightarrow> u8 list \<Rightarrow> u64 \<Rightarrow> u8 list" where
  "set_zbt_magic big_endian data m =
    take (length data - 40) data @ store big_endian 8 m @ drop (length data - 32) data"

definition set_zbt_cksum :: "bool \<Rightarrow> u8 list \<Rightarrow> zio_cksum \<Rightarrow> u8 list" where
  "set_zbt_cksum big_endian data zc =
    take (length data - 32) data @ store big_endian 8 (zc_word0 zc) @ store big_endian 8 (zc_word1 zc) @
      store big_endian 8 (zc_word2 zc) @ store big_endian 8 (zc_word3 zc)"

definition byteswap_cksum :: "zio_cksum \<Rightarrow> zio_cksum" where
  "byteswap_cksum zc =
    (case byteswap_uint64_array [zc_word0 zc, zc_word1 zc, zc_word2 zc, zc_word3 zc] of
       [w0, w1, w2, w3] \<Rightarrow> \<lparr>zc_word0 = w0, zc_word1 = w1, zc_word2 = w2, zc_word3 = w3\<rparr>
     | _ \<Rightarrow> zc)"

section \<open>Generating and verifying\<close>

definition EINVAL :: int where "EINVAL = 22"
definition ECKSUM :: int where "ECKSUM = 50"

text \<open>The fields of a \<^verbatim>\<open>zio_t\<close> the checksum stages use. The length of \<open>io_data\<close> is \<^verbatim>\<open>io_size\<close>.\<close>

record zio =
  io_checksum :: nat
  io_bp :: blkptr
  io_data :: "u8 list"
  io_error :: int

definition SPA_GANGBLOCKSIZE :: u64 where
  "SPA_GANGBLOCKSIZE = SPA_MINBLOCKSIZE"

definition ZIO_GET_IOSIZE :: "zio \<Rightarrow> u64" where
  "ZIO_GET_IOSIZE zio = (if BP_IS_GANG (io_bp zio) \<noteq> 0 then SPA_GANGBLOCKSIZE else BP_GET_PSIZE (io_bp zio))"

text \<open>\<open>zio_checksum\<close> returns the new value of \<open>*zcp\<close> and the data. A call through a missing function or
  a block too short for its tail is \<^term>\<open>None\<close>.\<close>

definition zio_checksum :: "bool \<Rightarrow> nat \<Rightarrow> u8 list \<Rightarrow> (zio_cksum \<times> u8 list) option" where
  "zio_checksum big_endian checksum data =
    (if checksum \<ge> ZIO_CHECKSUM_FUNCTIONS then None
     else let ci = zio_checksum_table big_endian ! checksum
     in case ci_func0 ci of
          None \<Rightarrow> None
        | Some func \<Rightarrow>
            if ci_zbt ci then
              (if length data < 40 then None
               else let zc = zbt_cksum big_endian data;
                        data = set_zbt_magic big_endian data ZBT_MAGIC
                    in map_option (\<lambda>cksum. (zc, set_zbt_cksum big_endian data cksum)) (func data))
            else map_option (\<lambda>cksum. (cksum, data)) (func data))"

definition zio_set_gang_verifier :: "blkptr \<Rightarrow> zio_cksum" where
  "zio_set_gang_verifier bp =
    \<lparr>zc_word0 = DVA_GET_VDEV (BP_IDENTITY bp), zc_word1 = DVA_GET_OFFSET (BP_IDENTITY bp),
     zc_word2 = blk_birth bp, zc_word3 = 0\<rparr>"

definition zio_checksum_generate :: "bool \<Rightarrow> zio \<Rightarrow> zio option" where
  "zio_checksum_generate big_endian zio =
    (let bp = BP_SET_BYTEORDER (BP_SET_CHECKSUM (io_bp zio) (of_nat (io_checksum zio))) (ZFS_HOST_BYTEORDER big_endian)
     in map_option (\<lambda>(zc, data). zio\<lparr>io_bp := bp\<lparr>blk_cksum := zc\<rparr>, io_data := data\<rparr>)
          (zio_checksum big_endian (io_checksum zio) (io_data zio)))"

definition zio_gang_checksum_generate :: "bool \<Rightarrow> zio \<Rightarrow> zio option" where
  "zio_gang_checksum_generate big_endian zio =
    (let data = set_zbt_cksum big_endian (io_data zio) (zio_set_gang_verifier (io_bp zio))
     in map_option (\<lambda>(zc, data). zio\<lparr>io_data := data\<rparr>) (zio_checksum big_endian ZIO_CHECKSUM_GANG_HEADER data))"

text \<open>\<open>zio_checksum_error\<close> returns the error number and the data, which it changes and restores. Fault
  injection is a pair of parameters: the global switch and the handler.\<close>

definition zio_checksum_error ::
  "bool \<Rightarrow> bool \<Rightarrow> (zio \<Rightarrow> int \<Rightarrow> int) \<Rightarrow> zio \<Rightarrow> (int \<times> zio) option" where
  "zio_checksum_error big_endian zio_injection_enabled zio_handle_fault_injection zio =
    (let bp = io_bp zio;
         zc = blk_cksum bp;
         checksum = (if BP_IS_GANG bp \<noteq> 0 then ZIO_CHECKSUM_GANG_HEADER else unat (BP_GET_CHECKSUM bp));
         byteswap = BP_SHOULD_BYTESWAP big_endian bp;
         sz = unat (ZIO_GET_IOSIZE zio);
         data = take sz (io_data zio);
         rest = drop sz (io_data zio);
         finish = \<lambda>actual zc data.
           (let zio = zio\<lparr>io_data := data @ rest\<rparr>
            in if \<not> ZIO_CHECKSUM_EQUAL actual zc then Some (ECKSUM, zio)
               else if zio_injection_enabled \<and> io_error zio = 0
               then Some (zio_handle_fault_injection zio ECKSUM, zio)
               else Some (0, zio))
     in if checksum \<ge> ZIO_CHECKSUM_FUNCTIONS then Some (EINVAL, zio)
        else let ci = zio_checksum_table big_endian ! checksum
        in if ci_func0 ci = None then Some (EINVAL, zio)
        else if length (io_data zio) < sz then None
        else if ci_zbt ci then
          (if length data < 40 then None
           else let zc = (if checksum = ZIO_CHECKSUM_GANG_HEADER then zio_set_gang_verifier bp else zc)
           in if zbt_magic big_endian data = BSWAP_64 ZBT_MAGIC then
                let expected = byteswap_cksum (zbt_cksum big_endian data);
                    data = set_zbt_cksum big_endian data zc;
                    data = set_zbt_cksum big_endian data (byteswap_cksum (zbt_cksum big_endian data))
                in case ci_func1 ci of
                     None \<Rightarrow> None
                   | Some func \<Rightarrow>
                       (case func data of
                          None \<Rightarrow> None
                        | Some actual \<Rightarrow>
                            let data = set_zbt_cksum big_endian data expected;
                                data = set_zbt_cksum big_endian data (byteswap_cksum (zbt_cksum big_endian data))
                            in finish actual expected data)
              else
                let expected = zbt_cksum big_endian data;
                    data = set_zbt_cksum big_endian data zc
                in case ci_func0 ci of
                     None \<Rightarrow> None
                   | Some func \<Rightarrow>
                       (case func data of
                          None \<Rightarrow> None
                        | Some actual \<Rightarrow> finish actual expected (set_zbt_cksum big_endian data expected)))
        else
          (case (if byteswap then ci_func1 ci else ci_func0 ci) of
             None \<Rightarrow> None
           | Some func \<Rightarrow> (case func data of None \<Rightarrow> None | Some actual \<Rightarrow> finish actual zc data)))"

section \<open>Laws of the block tail\<close>

lemma byteswap_cksum_eq: "byteswap_cksum zc = \<lparr>zc_word0 = BSWAP_64 (zc_word0 zc), zc_word1 = BSWAP_64 (zc_word1 zc),
    zc_word2 = BSWAP_64 (zc_word2 zc), zc_word3 = BSWAP_64 (zc_word3 zc)\<rparr>"
  by (simp add: byteswap_cksum_def byteswap_uint64_array_def)

lemma word_at_swap: "8 \<le> k \<Longrightarrow> k \<le> length data \<Longrightarrow> BSWAP_64 (word_at b data k) = word_at (\<not> b) data k"
  by (simp add: word_at_def BSWAP_64_load)

lemma zbt_cksum_swap: "40 \<le> length data \<Longrightarrow> byteswap_cksum (zbt_cksum b data) = zbt_cksum (\<not> b) data"
  by (simp add: byteswap_cksum_eq zbt_cksum_def word_at_swap)

lemma set_zbt_cksum_swap: "set_zbt_cksum b data (byteswap_cksum zc) = set_zbt_cksum (\<not> b) data zc"
  by (simp add: set_zbt_cksum_def byteswap_cksum_eq store_BSWAP_64)

lemma length_set_zbt [simp]:
  "40 \<le> length data \<Longrightarrow> length (set_zbt_cksum b data zc) = length data"
  "40 \<le> length data \<Longrightarrow> length (set_zbt_magic b data m) = length data"
  by (simp_all add: set_zbt_cksum_def set_zbt_magic_def)

lemma zbt_cksum_set [simp]: "40 \<le> length data \<Longrightarrow> zbt_cksum b (set_zbt_cksum b data zc) = zc"
  by (simp add: zbt_cksum_def word_at_def set_zbt_cksum_def)

lemma set_zbt_cksum_twice [simp]:
  "40 \<le> length data \<Longrightarrow> set_zbt_cksum b (set_zbt_cksum b' data zc) zc' = set_zbt_cksum b data zc'"
  by (simp add: set_zbt_cksum_def)

lemma zbt_magic_set_cksum [simp]: "40 \<le> length data \<Longrightarrow> zbt_magic b (set_zbt_cksum b' data zc) = zbt_magic b data"
  by (simp add: zbt_magic_def word_at_def set_zbt_cksum_def drop_take)

lemma zbt_magic_set [simp]: "40 \<le> length data \<Longrightarrow> zbt_magic b (set_zbt_magic b data m) = m"
  by (simp add: zbt_magic_def word_at_def set_zbt_magic_def)

lemma zbt_cksum_set_magic [simp]: "40 \<le> length data \<Longrightarrow> zbt_cksum b (set_zbt_magic b' data m) = zbt_cksum b data"
  by (simp add: zbt_cksum_def word_at_def set_zbt_magic_def)

lemma tail_split: "8 \<le> k \<Longrightarrow> k \<le> length data \<Longrightarrow>
    take 8 (drop (length data - k) data) @ drop (length data - (k - 8)) data = drop (length data - k) data"
  using append_take_drop_id [of 8 "drop (length data - k) data"] by (simp add: add.commute)

lemma set_zbt_cksum_self [simp]: "40 \<le> length data \<Longrightarrow> set_zbt_cksum b data (zbt_cksum b data) = data"
  using tail_split [of 32 data] tail_split [of 24 data] tail_split [of 16 data]
  by (simp add: set_zbt_cksum_def zbt_cksum_def word_at_def store_load)

section \<open>Checksums across hosts\<close>

text \<open>The function of each entry as the host of a given byte order computes it natively.\<close>

definition native_checksum :: "nat \<Rightarrow> bool \<Rightarrow> u8 list \<Rightarrow> zio_cksum option" where
  "native_checksum checksum big_endian buf =
    (if checksum = ZIO_CHECKSUM_OFF then Some (zio_checksum_off buf)
     else if checksum = ZIO_CHECKSUM_ZILOG \<or> checksum = ZIO_CHECKSUM_FLETCHER_2 then fletcher_2_native big_endian buf
     else if checksum = ZIO_CHECKSUM_FLETCHER_4 then Some (fletcher_4_native big_endian buf)
     else Some (zio_checksum_SHA256 buf))"

lemma zio_checksum_table_native:
  assumes "checksum \<in> {2 ..< 9}"
  shows "ci_func0 (zio_checksum_table b ! checksum) = Some (native_checksum checksum b)"
    "ci_func1 (zio_checksum_table b ! checksum) = Some (native_checksum checksum (\<not> b))"
    "ci_zbt (zio_checksum_table b ! checksum) \<longleftrightarrow> checksum \<in> {3, 4, 5}"
proof -
  have c: "checksum \<in> {2, 3, 4, 5, 6, 7, 8}" using assms by auto
  show "ci_func0 (zio_checksum_table b ! checksum) = Some (native_checksum checksum b)"
    "ci_func1 (zio_checksum_table b ! checksum) = Some (native_checksum checksum (\<not> b))"
    "ci_zbt (zio_checksum_table b ! checksum) \<longleftrightarrow> checksum \<in> {3, 4, 5}"
    using c by (auto simp: zio_checksum_table_def Let_def native_checksum_def zio_checksum_nums fletcher_swap fun_eq_iff)
qed

lemma native_checksum_some: "16 dvd length buf \<Longrightarrow> \<exists>zc. native_checksum checksum b buf = Some zc"
  using fletcher_2_some [OF words64_even] by (simp add: native_checksum_def fletcher_2_native_def)

lemma ZBT_MAGIC_swap: "ZBT_MAGIC \<noteq> BSWAP_64 ZBT_MAGIC"
  by (simp add: ZBT_MAGIC_def BSWAP_64_def BSWAP_32_def BSWAP_16_def BSWAP_8_def)

lemma zbt_magic_swap: "40 \<le> length data \<Longrightarrow> zbt_magic (\<not> b) data = BSWAP_64 (zbt_magic b data)"
  using word_at_swap [of 40 data b] by (simp add: zbt_magic_def)

lemma ZIO_CHECKSUM_EQUAL_refl [simp]: "ZIO_CHECKSUM_EQUAL zc zc"
  by (simp add: ZIO_CHECKSUM_EQUAL_def)

definition checksum_of :: "blkptr \<Rightarrow> nat" where
  "checksum_of bp = (if BP_IS_GANG bp \<noteq> 0 then ZIO_CHECKSUM_GANG_HEADER else unat (BP_GET_CHECKSUM bp))"

definition verifier_of :: "blkptr \<Rightarrow> zio_cksum" where
  "verifier_of bp = (if checksum_of bp = ZIO_CHECKSUM_GANG_HEADER then zio_set_gang_verifier bp else blk_cksum bp)"

lemma verify_embedded:
  assumes "checksum_of (io_bp zio) \<in> {3, 4, 5}" "unat (ZIO_GET_IOSIZE zio) = length (io_data zio)"
    and len: "40 \<le> length data" and "verifier_of (io_bp zio) = zbt_cksum w data"
    and "data' = set_zbt_magic w data ZBT_MAGIC" "native_checksum (checksum_of (io_bp zio)) w data' = Some cksum"
    and "io_data zio = set_zbt_cksum w data' cksum"
  shows "zio_checksum_error r False inject zio = Some (0, zio)"
proof -
  have l: "40 \<le> length data'" "length (io_data zio) = length data'" using assms by simp_all
  have v: "set_zbt_cksum w data' (zbt_cksum w data) = data'"
    using set_zbt_cksum_self [OF l(1), of w] len by (simp add: assms(5))
  have m: "zbt_magic r (io_data zio) = BSWAP_64 ZBT_MAGIC \<longleftrightarrow> r = (\<not> w)"
  proof (cases "r = w")
    case True
    then show ?thesis using l len ZBT_MAGIC_swap by (simp add: assms(5,7))
  next
    case False
    then have "r = (\<not> w)" by auto
    then show ?thesis using zbt_magic_swap [of "io_data zio" w] l len by (simp add: assms(5,7))
  qed
  have t: "checksum_of (io_bp zio) \<in> {2 ..< 9}" "\<not> ZIO_CHECKSUM_FUNCTIONS \<le> checksum_of (io_bp zio)"
    using assms(1) by (auto simp: zio_checksum_nums)
  note tab = zio_checksum_table_native [OF t(1), of r]
  show ?thesis
  proof (cases "r = w")
    case True
    then show ?thesis using assms l m t tab v
      by (simp add: zio_checksum_error_def Let_def checksum_of_def [symmetric] verifier_of_def)
  next
    case False
    then have r: "r = (\<not> w)" by auto
    then show ?thesis using assms l m t tab v
      by (simp add: zio_checksum_error_def Let_def checksum_of_def [symmetric] verifier_of_def
          zbt_cksum_swap set_zbt_cksum_swap)
  qed
qed

lemma verify_plain:
  assumes "BP_IS_GANG (io_bp zio) = 0" "checksum_of (io_bp zio) \<in> {2, 6, 7, 8}"
    and "unat (ZIO_GET_IOSIZE zio) = length (io_data zio)"
    and "BP_GET_BYTEORDER (io_bp zio) = ZFS_HOST_BYTEORDER w"
    and "native_checksum (checksum_of (io_bp zio)) w (io_data zio) = Some cksum"
  shows "zio_checksum_error r False inject zio = Some (if cksum = blk_cksum (io_bp zio) then 0 else ECKSUM, zio)"
proof -
  have t: "checksum_of (io_bp zio) \<in> {2 ..< 9}" "\<not> ZIO_CHECKSUM_FUNCTIONS \<le> checksum_of (io_bp zio)"
    using assms(2) by (auto simp: zio_checksum_nums)
  note tab = zio_checksum_table_native [OF t(1), of r]
  have z: "\<not> ci_zbt (zio_checksum_table r ! checksum_of (io_bp zio))" using tab(3) assms(2) by auto
  have s: "BP_SHOULD_BYTESWAP r (io_bp zio) \<longleftrightarrow> r = (\<not> w)"
    using assms(4) by (cases r; cases w) (simp_all add: BP_SHOULD_BYTESWAP_def ZFS_HOST_BYTEORDER_def)
  have f: "(if BP_SHOULD_BYTESWAP r (io_bp zio) then ci_func1 (zio_checksum_table r ! checksum_of (io_bp zio))
      else ci_func0 (zio_checksum_table r ! checksum_of (io_bp zio))) = Some (native_checksum (checksum_of (io_bp zio)) w)"
    using tab s by (cases "r = w") auto
  have "ZIO_CHECKSUM_EQUAL cksum (blk_cksum (io_bp zio)) \<longleftrightarrow> cksum = blk_cksum (io_bp zio)"
    by (rule ZIO_CHECKSUM_EQUAL_correct)
  then show ?thesis using assms t tab z f
    by (simp add: zio_checksum_error_def Let_def checksum_of_def [symmetric])
qed

lemma generate_fields:
  assumes "c < 256"
  shows "BP_GET_CHECKSUM (BP_SET_BYTEORDER (BP_SET_CHECKSUM bp (of_nat c)) (ZFS_HOST_BYTEORDER w)) = of_nat c"
    "BP_GET_PSIZE (BP_SET_BYTEORDER (BP_SET_CHECKSUM bp x) y) = BP_GET_PSIZE bp"
    "BP_GET_BYTEORDER (BP_SET_BYTEORDER bp (ZFS_HOST_BYTEORDER w)) = ZFS_HOST_BYTEORDER w"
    "BP_IS_GANG (BP_SET_BYTEORDER (BP_SET_CHECKSUM bp x) y) = BP_IS_GANG bp"
proof -
  have b: "0 - take_bit 1 (ZFS_HOST_BYTEORDER w) = ZFS_HOST_BYTEORDER w"
    by (cases w) (simp_all add: ZFS_HOST_BYTEORDER_def)
  have "unat (of_nat c :: u64) < 2 ^ 8" using assms by (simp add: unat_of_nat)
  then show "BP_GET_CHECKSUM (BP_SET_BYTEORDER (BP_SET_CHECKSUM bp (of_nat c)) (ZFS_HOST_BYTEORDER w)) = of_nat c"
    by (simp add: bp_defs BF64_GET_SET BF64_GET_SET_other take_bit_small)
  show "BP_GET_BYTEORDER (BP_SET_BYTEORDER bp (ZFS_HOST_BYTEORDER w)) = ZFS_HOST_BYTEORDER w"
    using b by (simp add: bp_defs BF64_GET_SET)
qed (simp_all add: bp_defs bf_defs BF64_GET_SET_other BP_IS_GANG_def BP_IDENTITY_def)

lemma blk_cksum_fields [simp]:
  "BP_GET_CHECKSUM (bp\<lparr>blk_cksum := zc\<rparr>) = BP_GET_CHECKSUM bp" "BP_GET_PSIZE (bp\<lparr>blk_cksum := zc\<rparr>) = BP_GET_PSIZE bp"
  "BP_GET_BYTEORDER (bp\<lparr>blk_cksum := zc\<rparr>) = BP_GET_BYTEORDER bp" "BP_IS_GANG (bp\<lparr>blk_cksum := zc\<rparr>) = BP_IS_GANG bp"
  by (simp_all add: bp_defs bf_defs BP_IS_GANG_def BP_IDENTITY_def)

lemma generate_ok:
  assumes "io_checksum zio \<in> {2, 3, 5, 6, 7, 8}" "40 \<le> length (io_data zio)" "16 dvd length (io_data zio)"
    and "BP_IS_GANG (io_bp zio) = 0" "unat (BP_GET_PSIZE (io_bp zio)) = length (io_data zio)"
  obtains zio' cksum where "zio_checksum_generate w zio = Some zio'" "BP_IS_GANG (io_bp zio') = 0"
    "checksum_of (io_bp zio') = io_checksum zio" "unat (ZIO_GET_IOSIZE zio') = length (io_data zio)"
    "BP_GET_BYTEORDER (io_bp zio') = ZFS_HOST_BYTEORDER w"
    "io_checksum zio \<in> {2, 6, 7, 8} \<longrightarrow> native_checksum (io_checksum zio) w (io_data zio) = Some cksum \<and>
      blk_cksum (io_bp zio') = cksum \<and> io_data zio' = io_data zio"
    "io_checksum zio \<in> {3, 5} \<longrightarrow>
      native_checksum (io_checksum zio) w (set_zbt_magic w (io_data zio) ZBT_MAGIC) = Some cksum \<and>
      blk_cksum (io_bp zio') = zbt_cksum w (io_data zio) \<and>
      io_data zio' = set_zbt_cksum w (set_zbt_magic w (io_data zio) ZBT_MAGIC) cksum"
proof -
  define c where "c = io_checksum zio"
  have c: "c \<in> {2 ..< 9}" "c < 256" "\<not> ZIO_CHECKSUM_FUNCTIONS \<le> c" "c \<noteq> 4"
    using assms(1) by (auto simp: c_def zio_checksum_nums)
  define data where "data = (if c \<in> {3, 5} then set_zbt_magic w (io_data zio) ZBT_MAGIC else io_data zio)"
  have "16 dvd length data" using assms(2,3) by (simp add: data_def)
  then obtain cksum where n: "native_checksum c w data = Some cksum" using native_checksum_some by blast
  define bp where "bp = BP_SET_BYTEORDER (BP_SET_CHECKSUM (io_bp zio) (of_nat c)) (ZFS_HOST_BYTEORDER w)"
  define zc where "zc = (if c \<in> {3, 5} then zbt_cksum w (io_data zio) else cksum)"
  define data' where "data' = (if c \<in> {3, 5} then set_zbt_cksum w data cksum else data)"
  have "zio_checksum w c (io_data zio) = Some (zc, data')"
    using c n assms(2) zio_checksum_table_native [OF c(1), of w]
    by (auto simp: zio_checksum_def Let_def data'_def zc_def data_def)
  then have g: "zio_checksum_generate w zio = Some (zio\<lparr>io_bp := bp\<lparr>blk_cksum := zc\<rparr>, io_data := data'\<rparr>)"
    by (simp add: zio_checksum_generate_def bp_def c_def Let_def)
  have f: "BP_GET_CHECKSUM bp = of_nat c" "BP_GET_PSIZE bp = BP_GET_PSIZE (io_bp zio)"
    "BP_GET_BYTEORDER bp = ZFS_HOST_BYTEORDER w" "BP_IS_GANG bp = BP_IS_GANG (io_bp zio)"
    using generate_fields [OF c(2)] by (simp_all add: bp_def)
  have u: "unat (of_nat c :: u64) = c" using c(2) by (simp add: unat_of_nat)
  show thesis
    by (rule that [OF g])
      (use f u n assms(4,5) in \<open>auto simp: checksum_of_def ZIO_GET_IOSIZE_def c_def [symmetric] data_def data'_def zc_def\<close>)
qed

definition zio_sample :: zio where
  "zio_sample =
    (let d = \<lparr>dva_word0 = 0, dva_word1 = 0\<rparr>
     in \<lparr>io_checksum = ZIO_CHECKSUM_FLETCHER_4,
         io_bp = \<lparr>blk_dva0 = d, blk_dva1 = d, blk_dva2 = d, blk_prop = 0, blk_pad = (0, 0, 0), blk_birth = 7, blk_fill = 1,
           blk_cksum = ZIO_SET_CHECKSUM 0 0 0 0\<rparr>,
         io_data = replicate 512 0, io_error = 0\<rparr>)"

lemma zio_sample_ok: "BP_IS_GANG (io_bp zio_sample) = 0" "BP_GET_PSIZE (io_bp zio_sample) = 512"
    "ZIO_GET_IOSIZE zio_sample = 512" "io_checksum zio_sample = ZIO_CHECKSUM_FLETCHER_4"
  by code_simp+

lemma zio_sample_data: "io_data zio_sample = replicate 512 0"
  by (simp add: zio_sample_def Let_def)

section \<open>Properties\<close>

text \<open>C29: what is written can be read. A block of whole sectors whose checksum \<^verbatim>\<open>zio_checksum_generate\<close>
  computes on a host of either byte order, with any of the functions a block pointer may name, is
  accepted by \<^verbatim>\<open>zio_checksum_error\<close> on a host of either byte order, and the check leaves the data as it
  was. The same holds for gang headers, whose checksum is embedded in the block and seeded with the
  identity of the block pointer.\<close>

theorem zio_checksum_roundtrip:
  assumes "512 dvd length (io_data zio)" "io_data zio \<noteq> []"
    and "io_checksum zio \<in> {ZIO_CHECKSUM_OFF, ZIO_CHECKSUM_LABEL, ZIO_CHECKSUM_ZILOG, ZIO_CHECKSUM_FLETCHER_2,
      ZIO_CHECKSUM_FLETCHER_4, ZIO_CHECKSUM_SHA256}"
    and "unat (ZIO_GET_IOSIZE zio) = length (io_data zio)"
  shows "if BP_IS_GANG (io_bp zio) = 0
    then \<exists>zio'. zio_checksum_generate writer zio = Some zio' \<and> zio_checksum_error reader False inject zio' = Some (0, zio')
    else \<exists>zio'. zio_gang_checksum_generate writer zio = Some zio' \<and>
      zio_checksum_error reader False inject zio' = Some (0, zio')"
proof -
  have len: "40 \<le> length (io_data zio)" "16 dvd length (io_data zio)"
    using assms(1,2) dvd_imp_le [OF assms(1)] dvd_trans [OF _ assms(1), of 16] by auto
  show ?thesis
  proof (cases "BP_IS_GANG (io_bp zio) = 0")
    case True
    have c: "io_checksum zio \<in> {2, 3, 5, 6, 7, 8}" using assms(3) by (simp add: zio_checksum_nums)
    have "unat (BP_GET_PSIZE (io_bp zio)) = length (io_data zio)" using assms(4) True by (simp add: ZIO_GET_IOSIZE_def)
    then obtain zio' cksum where g: "zio_checksum_generate writer zio = Some zio'" "BP_IS_GANG (io_bp zio') = 0"
      "checksum_of (io_bp zio') = io_checksum zio" "unat (ZIO_GET_IOSIZE zio') = length (io_data zio)"
      "BP_GET_BYTEORDER (io_bp zio') = ZFS_HOST_BYTEORDER writer"
      and p: "io_checksum zio \<in> {2, 6, 7, 8} \<longrightarrow> native_checksum (io_checksum zio) writer (io_data zio) = Some cksum \<and>
        blk_cksum (io_bp zio') = cksum \<and> io_data zio' = io_data zio"
      and e: "io_checksum zio \<in> {3, 5} \<longrightarrow>
        native_checksum (io_checksum zio) writer (set_zbt_magic writer (io_data zio) ZBT_MAGIC) = Some cksum \<and>
        blk_cksum (io_bp zio') = zbt_cksum writer (io_data zio) \<and>
        io_data zio' = set_zbt_cksum writer (set_zbt_magic writer (io_data zio) ZBT_MAGIC) cksum"
      by (rule generate_ok [OF c len True, of writer])
    have "zio_checksum_error reader False inject zio' = Some (0, zio')"
    proof (cases "io_checksum zio \<in> {3, 5}")
      case True
      then have "verifier_of (io_bp zio') = zbt_cksum writer (io_data zio)"
        using g(3) e by (auto simp: verifier_of_def zio_checksum_nums)
      then show ?thesis using mp [OF e True] g True len
        by (intro verify_embedded [OF _ _ len(1) _ refl]) auto
    next
      case False
      then have "io_checksum zio \<in> {2, 6, 7, 8}" using c by auto
      then show ?thesis using p g verify_plain [of zio' writer cksum reader inject] by simp
    qed
    then show ?thesis using g(1) True by simp
  next
    case False
    define data where "data = set_zbt_cksum writer (io_data zio) (zio_set_gang_verifier (io_bp zio))"
    have l: "40 \<le> length data" "16 dvd length data" "length data = length (io_data zio)" using len by (simp_all add: data_def)
    obtain cksum where n: "native_checksum 4 writer (set_zbt_magic writer data ZBT_MAGIC) = Some cksum"
      using native_checksum_some [of "set_zbt_magic writer data ZBT_MAGIC"] l by auto
    define zio' where "zio' = zio\<lparr>io_data := set_zbt_cksum writer (set_zbt_magic writer data ZBT_MAGIC) cksum\<rparr>"
    have g: "zio_gang_checksum_generate writer zio = Some zio'"
      using n l zio_checksum_table_native [of 4 writer]
      by (simp add: zio_gang_checksum_generate_def data_def [symmetric] zio_checksum_def Let_def zio'_def zio_checksum_nums)
    have "zio_checksum_error reader False inject zio' = Some (0, zio')"
      by (rule verify_embedded [OF _ _ l(1) _ refl])
        (use False n l assms(4) in \<open>auto simp: zio'_def checksum_of_def verifier_of_def zio_checksum_nums data_def ZIO_GET_IOSIZE_def\<close>)
    then show ?thesis using g False by simp
  qed
qed

theorem zio_checksum_roundtrip_witness:
  "\<exists>zio'. zio_checksum_generate False zio_sample = Some zio' \<and> zio_checksum_error True False (\<lambda>_ e. e) zio' = Some (0, zio')"
  using zio_checksum_roundtrip [of zio_sample False True "\<lambda>_ e. e"] zio_sample_ok
  by (simp add: zio_sample_data)



end
