(* ===== verification/Lzjb.thy ===== *)
theory Lzjb
  imports Zfs_Prelude "HOL-Library.Monad_Syntax"
begin

text \<open>
\<^verbatim>\<open>lzjb.c\<close>: the compressor and the decompressor as loops over the state of their local variables, with every
read and write checked against the buffers. The proof follows the compressor token by token: what it has
written so far agrees with its final output, and the decompressor, given that output, undoes each token.
\<close>

section \<open>Compression\<close>

definition NBBY :: nat where "NBBY = 8"
definition MATCH_BITS :: nat where "MATCH_BITS = 6"
definition MATCH_MIN :: nat where "MATCH_MIN = 3"
definition MATCH_MAX :: nat where "MATCH_MAX = push_bit MATCH_BITS 1 + (MATCH_MIN - 1)"
definition OFFSET_MASK :: u64 where "OFFSET_MASK = push_bit (16 - MATCH_BITS) 1 - 1"
definition LEMPEL_SIZE :: nat where "LEMPEL_SIZE = 256"

lemmas lzjb_nums = NBBY_def MATCH_BITS_def MATCH_MIN_def MATCH_MAX_def OFFSET_MASK_def LEMPEL_SIZE_def

text \<open>Reading a buffer outside of it and writing behind the end of the destination are \<^term>\<open>None\<close>.\<close>

definition rd :: "'a list \<Rightarrow> nat \<Rightarrow> 'a option" where
  "rd s i = (if i < length s then Some (s ! i) else None)"

definition wr :: "nat \<Rightarrow> u8 list \<Rightarrow> u8 \<Rightarrow> u8 list option" where
  "wr d_len dst b = (if length dst < d_len then Some (dst @ [b]) else None)"

text \<open>The local variables of the loop. \<open>src\<close> and \<open>copymap\<close> are offsets into the two buffers; \<open>dst\<close> is
  what has been written.\<close>

record lzjb =
  lz_src :: nat
  lz_dst :: "u8 list"
  lz_copymap :: nat
  lz_copymask :: nat
  lz_lempel :: "u16 list"

text \<open>A step ends the function with a return value and the contents of the destination, or goes on.\<close>

type_synonym lzjb_return = "nat \<times> u8 list"

definition lzjb_full :: "u8 list \<Rightarrow> nat \<Rightarrow> lzjb \<Rightarrow> lzjb_return" where
  "lzjb_full s d_len st = (if d_len \<noteq> length s then (length s, lz_dst st) else (length s, s))"

definition lzjb_literal :: "u8 list \<Rightarrow> nat \<Rightarrow> lzjb \<Rightarrow> lzjb option" where
  "lzjb_literal s d_len st = do {
     b \<leftarrow> rd s (lz_src st);
     dst \<leftarrow> wr d_len (lz_dst st) b;
     Some (st\<lparr>lz_src := lz_src st + 1, lz_dst := dst\<rparr>)
   }"

text \<open>The loop that extends a match; \<open>n\<close> is \<^verbatim>\<open>MATCH_MAX - mlen\<close>.\<close>

fun match_length :: "u8 list \<Rightarrow> nat \<Rightarrow> nat \<Rightarrow> nat \<Rightarrow> nat \<Rightarrow> nat option" where
  "match_length s src cpy mlen 0 = Some mlen" |
  "match_length s src cpy mlen (Suc n) =
    (case (rd s (src + mlen), rd s (cpy + mlen)) of
       (Some a, Some b) \<Rightarrow> if a \<noteq> b then Some mlen else match_length s src cpy (mlen + 1) n
     | _ \<Rightarrow> None)"

definition lzjb_match :: "u8 list \<Rightarrow> nat \<Rightarrow> nat \<Rightarrow> lzjb \<Rightarrow> lzjb option" where
  "lzjb_match s d_len offset st = do {
     map_byte \<leftarrow> rd (lz_dst st) (lz_copymap st);
     let dst = (lz_dst st)[lz_copymap st := map_byte OR of_nat (lz_copymask st)];
     mlen \<leftarrow> match_length s (lz_src st) (lz_src st - offset) MATCH_MIN (MATCH_MAX - MATCH_MIN);
     dst \<leftarrow> wr d_len dst (ucast (push_bit (NBBY - MATCH_BITS) (of_nat (mlen - MATCH_MIN) :: u32) OR drop_bit NBBY (of_nat offset)));
     dst \<leftarrow> wr d_len dst (of_nat offset);
     Some (st\<lparr>lz_src := lz_src st + mlen, lz_dst := dst\<rparr>)
   }"

definition lempel_hash :: "u8 \<Rightarrow> u8 \<Rightarrow> u8 \<Rightarrow> nat" where
  "lempel_hash b0 b1 b2 =
    unat (((ucast b0 + 13) XOR (ucast b1 - 13) XOR ucast b2) AND (of_nat LEMPEL_SIZE - 1 :: u32))"

definition lzjb_item :: "u64 \<Rightarrow> u8 list \<Rightarrow> nat \<Rightarrow> lzjb \<Rightarrow> lzjb option" where
  "lzjb_item s_start s d_len st =
    (if lz_src st + MATCH_MAX > length s then lzjb_literal s d_len st
     else do {
       s0 \<leftarrow> rd s (lz_src st);
       s1 \<leftarrow> rd s (lz_src st + 1);
       s2 \<leftarrow> rd s (lz_src st + 2);
       let h = lempel_hash s0 s1 s2;
       hp \<leftarrow> rd (lz_lempel st) h;
       let src = s_start + of_nat (lz_src st);
       let offset = unat ((src - ucast hp) AND OFFSET_MASK);
       let st = st\<lparr>lz_lempel := (lz_lempel st)[h := ucast src]\<rparr>;
       if offset \<le> lz_src st \<and> offset \<noteq> 0 then do {
         c0 \<leftarrow> rd s (lz_src st - offset);
         c1 \<leftarrow> rd s (lz_src st - offset + 1);
         c2 \<leftarrow> rd s (lz_src st - offset + 2);
         if s0 = c0 \<and> s1 = c1 \<and> s2 = c2 then lzjb_match s d_len offset st else lzjb_literal s d_len st
       } else lzjb_literal s d_len st
     })"

definition lzjb_step :: "u64 \<Rightarrow> u8 list \<Rightarrow> nat \<Rightarrow> lzjb \<Rightarrow> (lzjb_return + lzjb) option" where
  "lzjb_step s_start s d_len st =
    (let st = st\<lparr>lz_copymask := 2 * lz_copymask st\<rparr>
     in if lz_copymask st = 2 ^ NBBY then
          (if length (lz_dst st) + 1 + 2 * NBBY \<ge> d_len then Some (Inl (lzjb_full s d_len st))
           else do {
             dst \<leftarrow> wr d_len (lz_dst st) 0;
             st \<leftarrow> lzjb_item s_start s d_len (st\<lparr>lz_copymask := 1, lz_copymap := length (lz_dst st), lz_dst := dst\<rparr>);
             Some (Inr st)
           })
        else map_option Inr (lzjb_item s_start s d_len st))"

lemma rd_Some [simp]: "rd s i = Some x \<longleftrightarrow> i < length s \<and> x = s ! i"
  by (auto simp: rd_def)

lemma wr_Some [simp]: "wr n d b = Some x \<longleftrightarrow> length d < n \<and> x = d @ [b]"
  by (auto simp: wr_def)

lemma match_length_ge: "match_length s src cpy mlen n = Some m \<Longrightarrow> mlen \<le> m"
  by (induction n arbitrary: mlen) (auto split: option.splits if_splits dest: Suc_leD)

lemma lzjb_literal_src: "lzjb_literal s d_len st = Some st' \<Longrightarrow> lz_src st < lz_src st'"
  by (auto simp: lzjb_literal_def bind_eq_Some_conv)

lemma lzjb_match_src: "lzjb_match s d_len offset st = Some st' \<Longrightarrow> lz_src st < lz_src st'"
  by (auto simp: lzjb_match_def bind_eq_Some_conv lzjb_nums dest!: match_length_ge)

lemma lzjb_item_src: "lzjb_item s_start s d_len st = Some st' \<Longrightarrow> lz_src st < lz_src st'"
  by (auto simp: lzjb_item_def bind_eq_Some_conv Let_def split: if_splits dest!: lzjb_literal_src lzjb_match_src)

lemma lzjb_step_src: "lzjb_step s_start s d_len st = Some (Inr st') \<Longrightarrow> lz_src st < lz_src st'"
  by (auto simp: lzjb_step_def bind_eq_Some_conv Let_def split: if_splits dest!: lzjb_item_src)

function lzjb_loop :: "u64 \<Rightarrow> u8 list \<Rightarrow> nat \<Rightarrow> lzjb \<Rightarrow> lzjb_return option" where
  "lzjb_loop s_start s d_len st =
    (if lz_src st < length s then
       (case lzjb_step s_start s d_len st of
          None \<Rightarrow> None
        | Some (Inl ret) \<Rightarrow> Some ret
        | Some (Inr st) \<Rightarrow> lzjb_loop s_start s d_len st)
     else Some (length (lz_dst st), lz_dst st))"
  by pat_completeness auto
termination
  by (relation "measure (\<lambda>(s_start, s, d_len, st). length s - lz_src st)") (auto dest!: lzjb_step_src)

declare lzjb_loop.simps [simp del]

text \<open>\<open>lempel\<close> is what the uninitialised array happens to hold, \<open>s_start\<close> the address of the source.\<close>

definition lzjb_compress :: "u16 list \<Rightarrow> u64 \<Rightarrow> u8 list \<Rightarrow> nat \<Rightarrow> lzjb_return option" where
  "lzjb_compress lempel s_start s d_len =
    lzjb_loop s_start s d_len
      \<lparr>lz_src = 0, lz_dst = [], lz_copymap = 0, lz_copymask = 2 ^ (NBBY - 1), lz_lempel = lempel\<rparr>"

section \<open>Decompression\<close>

record lzjb_d =
  ld_src :: nat
  ld_dst :: nat
  ld_buf :: "u8 list"
  ld_copymap :: u8
  ld_copymask :: nat

fun copy_bytes :: "u8 list \<Rightarrow> nat \<Rightarrow> nat \<Rightarrow> nat \<Rightarrow> u8 list \<times> nat" where
  "copy_bytes buf dst cpy 0 = (buf, dst)" |
  "copy_bytes buf dst cpy (Suc mlen) =
    (if dst < length buf then copy_bytes (buf[dst := buf ! cpy]) (dst + 1) (cpy + 1) mlen else (buf, dst))"

text \<open>One pass of the loop; \<^term>\<open>Inl\<close> is the return value \<open>-1\<close>.\<close>

definition lzjb_dtoken :: "u8 list \<Rightarrow> lzjb_d \<Rightarrow> (lzjb_d + lzjb_d) option" where
  "lzjb_dtoken s st =
    (if ld_copymap st AND of_nat (ld_copymask st) \<noteq> 0 then do {
       b0 \<leftarrow> rd s (ld_src st);
       b1 \<leftarrow> rd s (ld_src st + 1);
       let mlen = unat (drop_bit (NBBY - MATCH_BITS) b0) + MATCH_MIN;
       let offset = unat ((push_bit NBBY (ucast b0) OR ucast b1) AND OFFSET_MASK);
       let st = st\<lparr>ld_src := ld_src st + 2\<rparr>;
       if offset > ld_dst st then Some (Inl st)
       else case copy_bytes (ld_buf st) (ld_dst st) (ld_dst st - offset) mlen of
         (buf, dst) \<Rightarrow> Some (Inr (st\<lparr>ld_buf := buf, ld_dst := dst\<rparr>))
     } else do {
       b \<leftarrow> rd s (ld_src st);
       Some (Inr (st\<lparr>ld_buf := (ld_buf st)[ld_dst st := b], ld_dst := ld_dst st + 1, ld_src := ld_src st + 1\<rparr>))
     })"

definition lzjb_dstep :: "u8 list \<Rightarrow> lzjb_d \<Rightarrow> (lzjb_d + lzjb_d) option" where
  "lzjb_dstep s st = do {
     let st = st\<lparr>ld_copymask := 2 * ld_copymask st\<rparr>;
     if ld_copymask st = 2 ^ NBBY then do {
       b \<leftarrow> rd s (ld_src st);
       lzjb_dtoken s (st\<lparr>ld_copymask := 1, ld_copymap := b, ld_src := ld_src st + 1\<rparr>)
     } else lzjb_dtoken s st
   }"

lemma copy_bytes_dst: "copy_bytes buf dst cpy mlen = (buf', dst') \<Longrightarrow> length buf' = length buf \<and> dst \<le> dst' \<and>
    (0 < mlen \<and> dst < length buf \<longrightarrow> dst < dst')"
proof (induction buf dst cpy mlen rule: copy_bytes.induct)
  case (2 buf dst cpy mlen)
  then show ?case by (auto split: if_splits)
qed simp

lemma lzjb_dstep_dst:
  "lzjb_dstep s st = Some (Inr st') \<Longrightarrow> ld_dst st < length (ld_buf st) \<Longrightarrow>
    ld_dst st < ld_dst st' \<and> length (ld_buf st') = length (ld_buf st)"
  by (auto simp: lzjb_dstep_def lzjb_dtoken_def bind_eq_Some_conv Let_def lzjb_nums split: if_splits prod.splits dest!: copy_bytes_dst)

function lzjb_dloop :: "u8 list \<Rightarrow> lzjb_d \<Rightarrow> (int \<times> u8 list) option" where
  "lzjb_dloop s st =
    (if ld_dst st < length (ld_buf st) then
       (case lzjb_dstep s st of
          None \<Rightarrow> None
        | Some (Inl st) \<Rightarrow> Some (-1, ld_buf st)
        | Some (Inr st) \<Rightarrow> lzjb_dloop s st)
     else Some (0, ld_buf st))"
  by pat_completeness auto
termination
  by (relation "measure (\<lambda>(s, st). length (ld_buf st) - ld_dst st)") (auto dest!: lzjb_dstep_dst)

declare lzjb_dloop.simps [simp del]

text \<open>\<open>d\<close> is the destination buffer with what it holds before the call; \<open>s\<close> is the source.\<close>

definition lzjb_decompress :: "u8 list \<Rightarrow> u8 list \<Rightarrow> (int \<times> u8 list) option" where
  "lzjb_decompress s d =
    lzjb_dloop s \<lparr>ld_src = 0, ld_dst = 0, ld_buf = d, ld_copymap = 0, ld_copymask = 2 ^ (NBBY - 1)\<rparr>"

section \<open>What a step of the compressor emits\<close>

lemma match_length_ok:
  assumes "match_length s src cpy mlen n = Some m" "\<forall>i < mlen. s ! (src + i) = s ! (cpy + i)"
    "src + mlen \<le> length s" "cpy \<le> src"
  shows "(\<forall>i < m. s ! (src + i) = s ! (cpy + i)) \<and> src + m \<le> length s \<and> mlen \<le> m \<and> m \<le> mlen + n"
  using assms
proof (induction n arbitrary: mlen)
  case (Suc n)
  show ?case
  proof (cases "m = mlen")
    case False
    then have st: "src + mlen < length s" "s ! (src + mlen) = s ! (cpy + mlen)" "match_length s src cpy (Suc mlen) n = Some m"
      using Suc(2) by (auto split: option.splits if_splits)
    then have "\<forall>i < Suc mlen. s ! (src + i) = s ! (cpy + i)" using Suc(3) by (auto simp: less_Suc_eq)
    from Suc(1) [OF st(3) this] st(1) Suc(5) show ?thesis by auto
  qed (use Suc in auto)
qed simp

lemma match_length_some:
  assumes "src + mlen + n \<le> length s" "cpy \<le> src"
  shows "\<exists>m. match_length s src cpy mlen n = Some m"
  using assms
proof (induction n arbitrary: mlen)
  case (Suc n)
  then show ?case by (simp add: rd_def)
qed simp

definition match_byte0 :: "nat \<Rightarrow> nat \<Rightarrow> u8" where
  "match_byte0 offset mlen =
    ucast (push_bit (NBBY - MATCH_BITS) (of_nat (mlen - MATCH_MIN) :: u32) OR drop_bit NBBY (of_nat offset))"

definition lz_match :: "u8 list \<Rightarrow> nat \<Rightarrow> nat \<Rightarrow> nat \<Rightarrow> bool" where
  "lz_match s src offset mlen \<longleftrightarrow> 0 < offset \<and> offset < 1024 \<and> offset \<le> src \<and> 3 \<le> mlen \<and> mlen \<le> 66 \<and>
    src + mlen \<le> length s \<and> (\<forall>i < mlen. s ! (src + i) = s ! (src - offset + i))"

lemma offset_small: "unat (x AND OFFSET_MASK) < 1024"
proof -
  have "x AND OFFSET_MASK \<le> OFFSET_MASK" by (rule word_and_le1)
  then have "unat (x AND OFFSET_MASK) \<le> unat OFFSET_MASK" by (simp add: word_le_nat_alt)
  then show ?thesis by (simp add: lzjb_nums)
qed

text \<open>One token: a literal byte, or a match that sets its bit of the copy map.\<close>

inductive lz_token :: "u8 list \<Rightarrow> lzjb \<Rightarrow> lzjb \<Rightarrow> bool" for s where
  literal: "lz_src st < length s \<Longrightarrow>
    lz_token s st (st\<lparr>lz_src := lz_src st + 1, lz_dst := lz_dst st @ [s ! lz_src st], lz_lempel := l\<rparr>)" |
  match: "lz_match s (lz_src st) offset mlen \<Longrightarrow> lz_copymap st < length (lz_dst st) \<Longrightarrow>
    lz_token s st (st\<lparr>lz_src := lz_src st + mlen,
      lz_dst := (lz_dst st)[lz_copymap st := lz_dst st ! lz_copymap st OR of_nat (lz_copymask st)] @
        [match_byte0 offset mlen, of_nat offset], lz_lempel := l\<rparr>)"

lemma lzjb_literal_token:
  "lzjb_literal s d_len st = Some st' \<Longrightarrow> lz_token s (st\<lparr>lz_lempel := l\<rparr>) st' \<and> length (lz_dst st') \<le> d_len"
  using lz_token.literal [of "st\<lparr>lz_lempel := l\<rparr>" s "lz_lempel st"] by (auto simp: lzjb_literal_def bind_eq_Some_conv)

lemma lzjb_match_token:
  assumes "lzjb_match s d_len offset st = Some st'" "0 < offset" "offset < 1024" "offset \<le> lz_src st"
    and "\<forall>i < 3. s ! (lz_src st + i) = s ! (lz_src st - offset + i)" "lz_src st + 66 \<le> length s"
  shows "lz_token s (st\<lparr>lz_lempel := l\<rparr>) st' \<and> length (lz_dst st') \<le> d_len"
proof -
  obtain mlen where m: "match_length s (lz_src st) (lz_src st - offset) 3 63 = Some mlen"
    and st': "lz_copymap st < length (lz_dst st)" "length (lz_dst st) + 2 \<le> d_len"
      "st' = st\<lparr>lz_src := lz_src st + mlen,
        lz_dst := (lz_dst st)[lz_copymap st := lz_dst st ! lz_copymap st OR of_nat (lz_copymask st)] @
          [match_byte0 offset mlen, of_nat offset]\<rparr>"
    using assms(1) by (auto simp: lzjb_match_def bind_eq_Some_conv Let_def lzjb_nums match_byte0_def)
  have "lz_match s (lz_src st) offset mlen"
    using match_length_ok [OF m] assms by (auto simp: lz_match_def)
  from lz_token.match [of s "st\<lparr>lz_lempel := l\<rparr>" offset mlen "lz_lempel st"] this st' show ?thesis by simp
qed

lemma lzjb_item_token:
  assumes "lzjb_item s_start s d_len st = Some st'"
  shows "lz_token s st st' \<and> length (lz_dst st') \<le> d_len"
proof -
  have three: "\<forall>i < 3. s ! (a + i) = s ! (b + i)"
    if "s ! a = s ! b" "s ! Suc a = s ! Suc b" "s ! (a + 2) = s ! (b + 2)" for a b
    using that by (auto simp: numeral_3_eq_3 less_Suc_eq)
  have "lz_token s (st\<lparr>lz_lempel := l\<rparr>\<lparr>lz_lempel := lz_lempel st\<rparr>) st' \<and> length (lz_dst st') \<le> d_len"
    if "lzjb_literal s d_len (st\<lparr>lz_lempel := l\<rparr>) = Some st'" for l
    using that by (rule lzjb_literal_token)
  moreover have "lz_token s (st\<lparr>lz_lempel := l\<rparr>\<lparr>lz_lempel := lz_lempel st\<rparr>) st' \<and> length (lz_dst st') \<le> d_len"
    if "lzjb_match s d_len (unat (x AND OFFSET_MASK)) (st\<lparr>lz_lempel := l\<rparr>) = Some st'" "unat (x AND OFFSET_MASK) \<noteq> 0"
      "unat (x AND OFFSET_MASK) \<le> lz_src st" "lz_src st + 66 \<le> length s"
      "\<forall>i < 3. s ! (lz_src st + i) = s ! (lz_src st - unat (x AND OFFSET_MASK) + i)" for x l
    by (rule lzjb_match_token [OF that(1)]) (use that offset_small in auto)
  ultimately show ?thesis using assms lzjb_literal_token [of s d_len st st' "lz_lempel st"]
    unfolding lzjb_item_def
    by (auto simp: bind_eq_Some_conv Let_def lzjb_nums split: if_splits dest: three)
qed

text \<open>The start of a group of eight tokens: the copy map byte, to be filled in.\<close>

definition lz_group :: "lzjb \<Rightarrow> lzjb" where
  "lz_group st =
    (if lz_copymask st = 128
     then st\<lparr>lz_copymask := 1, lz_copymap := length (lz_dst st), lz_dst := lz_dst st @ [0]\<rparr>
     else st\<lparr>lz_copymask := 2 * lz_copymask st\<rparr>)"

lemma lzjb_step_token:
  assumes "lzjb_step s_start s d_len st = Some (Inr st')"
  shows "lz_token s (lz_group st) st' \<and> length (lz_dst st') \<le> d_len"
  using assms lzjb_item_token
  by (auto simp: lzjb_step_def lz_group_def bind_eq_Some_conv Let_def lzjb_nums split: if_splits)

lemma lzjb_step_full:
  "lzjb_step s_start s d_len st = Some (Inl ret) \<Longrightarrow> ret = lzjb_full s d_len (st\<lparr>lz_copymask := 2 * lz_copymask st\<rparr>)"
  by (auto simp: lzjb_step_def bind_eq_Some_conv Let_def split: if_splits)

section \<open>The compressor never leaves its buffers\<close>

text \<open>Eight tokens of at most two bytes and their copy map fit behind the space test: \<open>lz_room\<close> says how
  much is left when the next test is \<open>8 - k\<close> tokens away.\<close>

definition lz_inv :: "u8 list \<Rightarrow> nat \<Rightarrow> lzjb \<Rightarrow> bool" where
  "lz_inv s d_len st \<longleftrightarrow> lz_src st \<le> length s \<and> length (lz_lempel st) = 256 \<and> length (lz_dst st) \<le> d_len \<and>
    (\<exists>k < 8. lz_copymask st = 2 ^ k \<and>
      (k < 7 \<longrightarrow> lz_copymap st < length (lz_dst st) \<and> length (lz_dst st) + 2 * (7 - k) < d_len \<and>
        take_bit (Suc k) (lz_dst st ! lz_copymap st) = lz_dst st ! lz_copymap st))"

definition lz_ready :: "u8 list \<Rightarrow> nat \<Rightarrow> lzjb \<Rightarrow> nat \<Rightarrow> bool" where
  "lz_ready s d_len st k \<longleftrightarrow> k < 8 \<and> lz_copymask st = 2 ^ k \<and> lz_src st < length s \<and> length (lz_lempel st) = 256 \<and>
    lz_copymap st < length (lz_dst st) \<and> length (lz_dst st) + 2 * (8 - k) < d_len \<and>
    take_bit k (lz_dst st ! lz_copymap st) = lz_dst st ! lz_copymap st"

lemma group_ready:
  assumes "lz_inv s d_len st" "lz_src st < length s" "lz_copymask st = 128 \<Longrightarrow> length (lz_dst st) + 17 < d_len"
  obtains k where "lz_ready s d_len (lz_group st) k"
proof -
  obtain k where k: "k < 8" "lz_copymask st = 2 ^ k" "k < 7 \<longrightarrow> lz_copymap st < length (lz_dst st) \<and>
      length (lz_dst st) + 2 * (7 - k) < d_len \<and> take_bit (Suc k) (lz_dst st ! lz_copymap st) = lz_dst st ! lz_copymap st"
    and l: "length (lz_lempel st) = 256"
    using assms(1) by (auto simp: lz_inv_def)
  show thesis
  proof (cases "k = 7")
    case True
    then have "lz_ready s d_len (lz_group st) 0" using k assms l by (simp add: lz_ready_def lz_group_def)
    then show thesis by (rule that)
  next
    case False
    then have k7: "k < 7" using k(1) by simp
    then have "(2 :: nat) ^ k < 2 ^ 7" by (intro power_strict_increasing) simp_all
    then have m: "lz_copymask st \<noteq> 128" using k(2) by simp
    have "8 - Suc k = 7 - k" by simp
    then have "lz_ready s d_len (lz_group st) (Suc k)"
      using k k7 m assms(2) l by (simp add: lz_ready_def lz_group_def)
    then show thesis by (rule that)
  qed
qed

lemma lempel_hash_less: "lempel_hash a b c < 256"
proof -
  have "unat (x AND (of_nat LEMPEL_SIZE - 1 :: u32)) \<le> unat (of_nat LEMPEL_SIZE - 1 :: u32)" for x
    using word_and_le1 [of x "of_nat LEMPEL_SIZE - 1"] by (simp only: word_le_nat_alt)
  moreover have "unat (of_nat LEMPEL_SIZE - 1 :: u32) = 255" by (simp add: lzjb_nums)
  ultimately show ?thesis unfolding lempel_hash_def by (metis le_imp_less_Suc numeral_eq_Suc pred_numeral_simps(2) semiring_norm(26) semiring_norm(27))
qed

lemma lzjb_literal_some:
  "lz_src st < length s \<Longrightarrow> length (lz_dst st) < d_len \<Longrightarrow> \<exists>st'. lzjb_literal s d_len st = Some st'"
  by (simp add: lzjb_literal_def rd_def wr_def)

lemma lzjb_match_some:
  assumes "lz_src st + 66 \<le> length s" "length (lz_dst st) + 1 < d_len" "lz_copymap st < length (lz_dst st)"
  shows "\<exists>st'. lzjb_match s d_len offset st = Some st'"
  using assms match_length_some [of "lz_src st" 3 63 s "lz_src st - offset"]
  by (auto simp: lzjb_match_def rd_def wr_def lzjb_nums)

lemma lzjb_item_some:
  assumes "lz_ready s d_len st k"
  shows "\<exists>st'. lzjb_item s_start s d_len st = Some st'"
proof -
  have r: "lz_src st < length s" "length (lz_lempel st) = 256" "lz_copymap st < length (lz_dst st)"
    "length (lz_dst st) + 1 < d_len"
    using assms by (auto simp: lz_ready_def)
  then have lit: "\<exists>st'. lzjb_literal s d_len (st\<lparr>lz_lempel := l\<rparr>) = Some st'" for l
    by (intro lzjb_literal_some) simp_all
  show ?thesis
  proof (cases "lz_src st + 66 > length s")
    case True
    then show ?thesis using lit [of "lz_lempel st"] by (simp add: lzjb_item_def lzjb_nums)
  next
    case False
    then have mat: "\<exists>st'. lzjb_match s d_len offset (st\<lparr>lz_lempel := l\<rparr>) = Some st'" for offset l
      using r by (intro lzjb_match_some) simp_all
    have idx: "lz_src st - offset + i < length s" if "i < 3" for offset i using False that by simp
    show ?thesis
      using False lit mat idx [of 0] idx [of 1] idx [of 2] r
      by (simp add: lzjb_item_def lzjb_nums rd_def lempel_hash_less Let_def)
  qed
qed

lemma lzjb_item_lempel:
  "lzjb_item s_start s d_len st = Some st' \<Longrightarrow> length (lz_lempel st') = length (lz_lempel st)"
  by (auto simp: lzjb_item_def lzjb_literal_def lzjb_match_def bind_eq_Some_conv Let_def split: if_splits)

lemma set_map_bit:
  fixes b :: u8
  assumes "k < 8" "take_bit k b = b"
  shows "take_bit (Suc k) (b OR of_nat (2 ^ k)) = b OR of_nat (2 ^ k)" "take_bit k (b OR of_nat (2 ^ k)) = b"
    "bit (b OR of_nat (2 ^ k)) k" "\<not> bit b k" "take_bit (Suc k) b = b"
proof -
  have b: "n < k" if "bit b n" for n
    using that arg_cong [OF assms(2), of "\<lambda>x. bit x n"] by (simp add: bit_simps)
  show "\<not> bit b k" using b [of k] by auto
  show "bit (b OR of_nat (2 ^ k)) k" using assms(1) by (simp add: bit_simps)
  have m: "bit (2 ^ k :: u8) n \<longleftrightarrow> n = k" for n using assms(1) by (auto simp: bit_simps)
  show "take_bit (Suc k) (b OR of_nat (2 ^ k)) = b OR of_nat (2 ^ k)"
    by (rule bit_word_eqI) (auto simp: bit_take_bit_iff bit_or_iff m less_Suc_eq dest: b)
  show "take_bit k (b OR of_nat (2 ^ k)) = b"
    by (rule bit_word_eqI) (auto simp: bit_take_bit_iff bit_or_iff m less_Suc_eq dest: b)
  show "take_bit (Suc k) b = b"
    by (rule bit_word_eqI) (auto simp: bit_take_bit_iff less_Suc_eq dest: b)
qed

lemma token_inv:
  assumes "lz_ready s d_len st k" "lz_token s st st'" "length (lz_lempel st') = 256"
  shows "lz_inv s d_len st'"
proof -
  have r: "k < 8" "lz_copymask st = 2 ^ k" "lz_copymap st < length (lz_dst st)" "length (lz_dst st) + 2 * (8 - k) < d_len"
    "take_bit k (lz_dst st ! lz_copymap st) = lz_dst st ! lz_copymap st"
    using assms(1) by (auto simp: lz_ready_def)
  note bits = set_map_bit [OF r(1,5)]
  from assms(2) show ?thesis
  proof cases
    case (literal l)
    then show ?thesis using r bits assms(3)
      by (auto simp: lz_inv_def nth_append intro!: exI [of _ k])
  next
    case (match offset mlen l)
    then show ?thesis using r bits assms(3)
      by (auto simp: lz_inv_def nth_append lz_match_def intro!: exI [of _ k])
  qed
qed

lemma lzjb_step_cases:
  assumes "lz_inv s d_len st" "lz_src st < length s"
  obtains (full) "lz_copymask st = 128" "d_len \<le> length (lz_dst st) + 17"
      "lzjb_step s_start s d_len st = Some (Inl (lzjb_full s d_len (st\<lparr>lz_copymask := 2 * lz_copymask st\<rparr>)))"
  | (token) st' k where "lzjb_step s_start s d_len st = Some (Inr st')" "lz_ready s d_len (lz_group st) k"
      "lz_token s (lz_group st) st'" "lz_inv s d_len st'"
proof (cases "lz_copymask st = 128 \<and> d_len \<le> length (lz_dst st) + 17")
  case True
  then show thesis by (intro full) (simp_all add: lzjb_step_def Let_def lzjb_nums)
next
  case False
  obtain k where k: "lz_ready s d_len (lz_group st) k" by (rule group_ready [OF assms]) (use False in auto)
  obtain st' where i: "lzjb_item s_start s d_len (lz_group st) = Some st'"
    using lzjb_item_some [OF k] by blast
  have t: "lz_token s (lz_group st) st'" using lzjb_item_token [OF i] by simp
  have "length (lz_lempel st') = 256" using lzjb_item_lempel [OF i] k by (simp add: lz_ready_def)
  from token_inv [OF k t this] have inv: "lz_inv s d_len st'" .
  have "lzjb_step s_start s d_len st = Some (Inr st')"
    using i False by (auto simp: lzjb_step_def lz_group_def Let_def lzjb_nums wr_def)
  then show thesis by (rule token) (use k t inv in simp_all)
qed

lemma lzjb_loop_some: "lz_inv s d_len st \<Longrightarrow> \<exists>n fin. lzjb_loop s_start s d_len st = Some (n, fin) \<and>
    (n = length s \<or> n = length fin \<and> n \<le> d_len)"
proof (induction s_start s d_len st rule: lzjb_loop.induct)
  case (1 s_start s d_len st)
  show ?case
  proof (cases "lz_src st < length s")
    case True
    from 1(2) True show ?thesis
    proof (cases rule: lzjb_step_cases [where s_start = s_start])
      case full
      then show ?thesis using True by (subst lzjb_loop.simps) (simp add: lzjb_full_def)
    next
      case (token st' k)
      then show ?thesis using 1(1) [OF True token(1) refl token(4)] True by (subst lzjb_loop.simps) simp
    qed
  next
    case False
    then show ?thesis using 1(2) by (subst lzjb_loop.simps) (simp add: lz_inv_def)
  qed
qed

lemma lz_init_inv: "length lempel = 256 \<Longrightarrow>
    lz_inv s d_len \<lparr>lz_src = 0, lz_dst = [], lz_copymap = 0, lz_copymask = 2 ^ (NBBY - 1), lz_lempel = lempel\<rparr>"
  by (auto simp: lz_inv_def lzjb_nums intro!: exI [of _ 7])

section \<open>The decompressor undoes a token\<close>

lemma bit_nat_less: "x < 2 ^ m \<Longrightarrow> bit x n \<Longrightarrow> n < m" for x :: nat
  using take_bit_nat_eq_self [of x m] by (metis bit_take_bit_iff)

lemma match_decode:
  assumes "lz_match s src offset mlen"
  shows "unat (drop_bit (NBBY - MATCH_BITS) (match_byte0 offset mlen)) + MATCH_MIN = mlen"
    "unat ((push_bit NBBY (ucast (match_byte0 offset mlen)) OR ucast (of_nat offset :: u8)) AND OFFSET_MASK) = offset"
proof -
  have o: "offset < 2 ^ 10" and m: "mlen - 3 < 2 ^ 6" "3 \<le> mlen" using assms by (auto simp: lz_match_def)
  note small = bit_nat_less [OF o] bit_nat_less [OF m(1)]
  have b0: "bit (match_byte0 offset mlen) n \<longleftrightarrow> (if n < 2 then bit offset (8 + n) else n < 8 \<and> bit (mlen - 3) (n - 2))" for n
    by (auto simp: match_byte0_def lzjb_nums bit_simps dest: small)
  have "drop_bit 2 (match_byte0 offset mlen) = (of_nat (mlen - 3) :: u8)"
    by (rule bit_word_eqI) (auto simp: bit_drop_bit_eq b0 bit_of_nat_iff dest: small)
  then have "unat (drop_bit 2 (match_byte0 offset mlen)) = mlen - 3" using m(1) by (simp add: unat_of_nat)
  then show "unat (drop_bit (NBBY - MATCH_BITS) (match_byte0 offset mlen)) + MATCH_MIN = mlen"
    using m(2) by (simp add: lzjb_nums)
  have mask: "OFFSET_MASK = mask 10" by (simp add: lzjb_nums mask_eq_exp_minus_1)
  have "(push_bit 8 (ucast (match_byte0 offset mlen)) OR ucast (of_nat offset :: u8)) AND OFFSET_MASK = (of_nat offset :: u64)"
    by (rule bit_word_eqI)
      (auto simp: mask bit_and_iff bit_or_iff bit_push_bit_iff bit_ucast_iff b0 bit_of_nat_iff bit_mask_iff dest: small)
  then show "unat ((push_bit NBBY (ucast (match_byte0 offset mlen)) OR ucast (of_nat offset :: u8)) AND OFFSET_MASK) = offset"
    using o by (simp add: lzjb_nums unat_of_nat)
qed

definition buf_ok :: "u8 list \<Rightarrow> nat \<Rightarrow> u8 list \<Rightarrow> bool" where
  "buf_ok s n buf \<longleftrightarrow> length buf = length s \<and> (\<forall>i < n. buf ! i = s ! i)"

lemma buf_ok_next: "buf_ok s n buf \<Longrightarrow> buf_ok s (Suc n) (buf[n := s ! n])" if "n < length s"
  using that by (auto simp: buf_ok_def nth_list_update less_Suc_eq)

lemma copy_bytes_ok:
  assumes "buf_ok s dst buf" "cpy < dst" "dst + mlen \<le> length s" "\<forall>i < mlen. s ! (dst + i) = s ! (cpy + i)"
  shows "\<exists>buf'. copy_bytes buf dst cpy mlen = (buf', dst + mlen) \<and> buf_ok s (dst + mlen) buf'"
  using assms
proof (induction mlen arbitrary: buf dst cpy)
  case (Suc mlen)
  have lt: "dst < length s" "dst < length buf" using Suc by (auto simp: buf_ok_def)
  have "buf ! cpy = s ! cpy" using Suc(2,3) by (simp add: buf_ok_def)
  also have "\<dots> = s ! dst" using Suc(5) by (metis add.right_neutral zero_less_Suc)
  finally have "buf_ok s (Suc dst) (buf[dst := buf ! cpy])" using buf_ok_next [OF lt(1) Suc(2)] by simp
  moreover have "\<forall>i < mlen. s ! (Suc dst + i) = s ! (Suc cpy + i)" using Suc(5) by auto
  ultimately show ?case using Suc(1) [of "Suc dst" "buf[dst := buf ! cpy]" "Suc cpy"] Suc(3,4) lt(2) by simp
qed simp

text \<open>Later tokens only append, and only set higher bits of the current copy map: what has been written
  so far agrees with the final output.\<close>

definition lz_agree :: "lzjb \<Rightarrow> nat \<Rightarrow> u8 list \<Rightarrow> bool" where
  "lz_agree st k fin \<longleftrightarrow> length (lz_dst st) \<le> length fin \<and>
    (\<forall>i < length (lz_dst st). if i = lz_copymap st then take_bit k (fin ! i) = lz_dst st ! i else fin ! i = lz_dst st ! i)"

definition lz_decoder :: "lzjb \<Rightarrow> u8 list \<Rightarrow> u8 list \<Rightarrow> lzjb_d" where
  "lz_decoder st fin buf = \<lparr>ld_src = length (lz_dst st), ld_dst = lz_src st, ld_buf = buf,
     ld_copymap = fin ! lz_copymap st, ld_copymask = lz_copymask st\<rparr>"

text \<open>What the decompressor finds for a token in the final output.\<close>

definition lz_reads :: "u8 list \<Rightarrow> lzjb \<Rightarrow> nat \<Rightarrow> u8 list \<Rightarrow> lzjb \<Rightarrow> bool" where
  "lz_reads s st k fin st' \<longleftrightarrow>
    (if bit (fin ! lz_copymap st) k
     then \<exists>offset mlen. lz_match s (lz_src st) offset mlen \<and> lz_src st' = lz_src st + mlen \<and>
       length (lz_dst st') = length (lz_dst st) + 2 \<and> length (lz_dst st) + 1 < length fin \<and>
       fin ! length (lz_dst st) = match_byte0 offset mlen \<and> fin ! (length (lz_dst st) + 1) = of_nat offset
     else lz_src st' = lz_src st + 1 \<and> length (lz_dst st') = length (lz_dst st) + 1 \<and>
       length (lz_dst st) < length fin \<and> fin ! length (lz_dst st) = s ! lz_src st)"

lemma token_agree:
  assumes "lz_ready s d_len st k" "lz_token s st st'" "lz_agree st' (Suc k) fin"
  shows "lz_agree st k fin \<and> lz_copymap st' = lz_copymap st \<and> lz_copymask st' = lz_copymask st \<and> lz_reads s st k fin st'"
proof -
  have r: "k < 8" "lz_copymask st = 2 ^ k" "lz_copymap st < length (lz_dst st)"
    "take_bit k (lz_dst st ! lz_copymap st) = lz_dst st ! lz_copymap st"
    using assms(1) by (auto simp: lz_ready_def)
  note bits = set_map_bit [OF r(1,4)]
  define cm where "cm = lz_copymap st"
  have tk: "take_bit k (take_bit (Suc k) x) = take_bit k x" "bit (take_bit (Suc k) x) k = bit x k" for x :: u8
    by (simp_all add: bit_take_bit_iff)
  from assms(2) show ?thesis
  proof cases
    case (literal l)
    have a: "length (lz_dst st) < length fin" "take_bit (Suc k) (fin ! cm) = lz_dst st ! cm"
      "\<And>i. i < length (lz_dst st) \<Longrightarrow> i \<noteq> cm \<Longrightarrow> fin ! i = lz_dst st ! i"
      "fin ! length (lz_dst st) = s ! lz_src st"
      using assms(3) r(3) unfolding literal(1) lz_agree_def cm_def
      by (auto simp: nth_append less_Suc_eq split: if_splits)
    then have "\<not> bit (fin ! cm) k" "take_bit k (fin ! cm) = lz_dst st ! cm"
      using bits(4) r(4) tk [of "fin ! cm"] by (simp_all add: cm_def)
    then show ?thesis using a literal(1) by (auto simp: lz_agree_def lz_reads_def cm_def)
  next
    case (match offset mlen l)
    have a: "length (lz_dst st) + 1 < length fin"
      "take_bit (Suc k) (fin ! cm) = lz_dst st ! cm OR of_nat (2 ^ k)"
      "\<And>i. i < length (lz_dst st) \<Longrightarrow> i \<noteq> cm \<Longrightarrow> fin ! i = lz_dst st ! i"
      "fin ! length (lz_dst st) = match_byte0 offset mlen" "fin ! Suc (length (lz_dst st)) = of_nat offset"
      using assms(3) r(2,3) unfolding match(1) lz_agree_def cm_def
      by (auto simp: nth_append less_Suc_eq nth_list_update split: if_splits)
    then have "bit (fin ! cm) k" "take_bit k (fin ! cm) = lz_dst st ! cm"
      using bits(2,3) tk [of "fin ! cm"] by (simp_all add: cm_def)
    then show ?thesis using a match by (auto simp: lz_agree_def lz_reads_def cm_def)
  qed
qed

lemma decode_token:
  assumes "lz_ready s d_len (lz_group st) k" "lz_agree (lz_group st) k fin" "lz_reads s (lz_group st) k fin st'"
    and "lz_copymap st' = lz_copymap (lz_group st)" "lz_copymask st' = lz_copymask (lz_group st)"
    and buf: "buf_ok s (lz_src st) buf"
  obtains buf' where "buf_ok s (lz_src st') buf'" "lzjb_dstep fin (lz_decoder st fin buf) = Some (Inr (lz_decoder st' fin buf'))"
proof -
  define g where "g = lz_group st"
  define d where "d = lz_decoder g fin buf"
  have src: "lz_src g = lz_src st" by (simp add: g_def lz_group_def)
  have r: "k < 8" "lz_copymask g = 2 ^ k" "lz_src g < length s" using assms(1) by (auto simp: g_def lz_ready_def)
  have len: "length (lz_dst g) \<le> length fin" using assms(2) by (simp add: g_def lz_agree_def)
  have "lz_copymask st = 128 \<Longrightarrow> length (lz_dst st) < length fin" using len by (auto simp: g_def lz_group_def)
  then have step: "lzjb_dstep fin (lz_decoder st fin buf) = lzjb_dtoken fin d"
    by (auto simp: lzjb_dstep_def d_def g_def lz_group_def lz_decoder_def rd_def lzjb_nums)
  have bit: "(ld_copymap d AND of_nat (ld_copymask d) \<noteq> 0) = bit (fin ! lz_copymap g) k"
    using r(2) and_exp_eq_0_iff_not_bit [of "fin ! lz_copymap g" k] by (simp add: d_def lz_decoder_def)
  show thesis
  proof (cases "bit (fin ! lz_copymap g) k")
    case False
    then have t: "lz_src st' = lz_src g + 1" "length (lz_dst st') = length (lz_dst g) + 1" "length (lz_dst g) < length fin"
      "fin ! length (lz_dst g) = s ! lz_src g"
      using assms(3) by (simp_all add: lz_reads_def g_def)
    show thesis
    proof (rule that)
      show "buf_ok s (lz_src st') (buf[lz_src g := s ! lz_src g])"
        using buf_ok_next [OF r(3)] buf t(1) by (simp add: src)
      show "lzjb_dstep fin (lz_decoder st fin buf) = Some (Inr (lz_decoder st' fin (buf[lz_src g := s ! lz_src g])))"
        unfolding step lzjb_dtoken_def bit using False t assms(4,5) by (simp add: d_def lz_decoder_def g_def [symmetric] rd_def)
    qed
  next
    case True
    then obtain offset mlen where m: "lz_match s (lz_src g) offset mlen" and t: "lz_src st' = lz_src g + mlen"
      "length (lz_dst st') = length (lz_dst g) + 2" "length (lz_dst g) + 1 < length fin"
      "fin ! length (lz_dst g) = match_byte0 offset mlen" "fin ! (length (lz_dst g) + 1) = of_nat offset"
      using assms(3) by (auto simp: lz_reads_def g_def)
    have mm: "0 < offset" "offset \<le> lz_src g" "lz_src g + mlen \<le> length s"
      "\<forall>i < mlen. s ! (lz_src g + i) = s ! (lz_src g - offset + i)"
      using m by (auto simp: lz_match_def)
    obtain buf' where b: "copy_bytes buf (lz_src g) (lz_src g - offset) mlen = (buf', lz_src g + mlen)"
      "buf_ok s (lz_src g + mlen) buf'"
      using copy_bytes_ok [of s "lz_src g" buf "lz_src g - offset" mlen] buf mm by (auto simp: src)
    show thesis
    proof (rule that)
      show "buf_ok s (lz_src st') buf'" using b t by simp
      show "lzjb_dstep fin (lz_decoder st fin buf) = Some (Inr (lz_decoder st' fin buf'))"
        unfolding step lzjb_dtoken_def bit using True t assms(4,5) match_decode [OF m] b(1) mm(2)
        by (simp add: d_def lz_decoder_def g_def [symmetric] rd_def Let_def)
    qed
  qed
qed

section \<open>Round trip\<close>

lemma token_mask: "lz_token s st st' \<Longrightarrow> lz_copymask st' = lz_copymask st"
  by (auto elim: lz_token.cases)

lemma group_agree:
  assumes "lz_copymask st = 2 ^ k" "k < 8" "lz_copymask (lz_group st) = 2 ^ k'" "lz_agree (lz_group st) k' fin"
  shows "lz_agree st (Suc k) fin"
proof (cases "k = 7")
  case True
  have "take_bit 8 x = x" for x :: u8 by (rule bit_word_eqI) (simp add: bit_take_bit_iff)
  then show ?thesis using assms True
    by (auto simp: lz_agree_def lz_group_def nth_append less_Suc_eq split: if_splits)
next
  case False
  then have "(2 :: nat) ^ k < 2 ^ 7" using assms(2) by (intro power_strict_increasing) simp_all
  then have m: "lz_copymask st \<noteq> 128" using assms(1) by simp
  then have "(2 :: nat) ^ Suc k = 2 ^ k'" using assms(1,3) by (simp add: lz_group_def)
  then have "k' = Suc k" by (metis power_inject_exp one_less_numeral_iff semiring_norm(76))
  then show ?thesis using assms(4) m by (simp add: lz_agree_def lz_group_def)
qed

lemma lzjb_loop_decodes:
  assumes "lz_inv s d_len st" "lz_copymask st = 2 ^ k" "k < 8" "d_len < length s"
    and "lzjb_loop s_start s d_len st = Some (n, fin)" "n \<le> d_len"
  shows "lz_agree st (Suc k) (fin @ pad) \<and>
    (\<forall>buf. buf_ok s (lz_src st) buf \<longrightarrow> lzjb_dloop (fin @ pad) (lz_decoder st (fin @ pad) buf) = Some (0, s))"
  using assms
proof (induction s_start s d_len st arbitrary: k rule: lzjb_loop.induct)
  case (1 s_start s d_len st)
  show ?case
  proof (cases "lz_src st < length s")
    case False
    then have fin: "fin = lz_dst st" using 1(6) by (subst (asm) lzjb_loop.simps) simp
    have src: "lz_src st = length s" using False 1(2) by (simp add: lz_inv_def)
    obtain k' where "k' < 8" "lz_copymask st = 2 ^ k'" and map_byte: "k' < 7 \<longrightarrow> lz_copymap st < length (lz_dst st) \<and>
        take_bit (Suc k') (lz_dst st ! lz_copymap st) = lz_dst st ! lz_copymap st"
      using 1(2) by (auto simp: lz_inv_def)
    then have k': "k' = k" using 1(3) by (metis power_inject_exp one_less_numeral_iff semiring_norm(76))
    have "take_bit 8 x = x" for x :: u8 by (rule bit_word_eqI) (simp add: bit_take_bit_iff)
    then have "take_bit (Suc k) (lz_dst st ! lz_copymap st) = lz_dst st ! lz_copymap st"
      using map_byte k' 1(4) by (cases "k = 7") auto
    then have "lz_agree st (Suc k) (fin @ pad)" by (simp add: lz_agree_def fin nth_append)
    moreover have "buf = s" if "buf_ok s (lz_src st) buf" for buf
      using that src by (intro nth_equalityI) (auto simp: buf_ok_def)
    moreover have "lzjb_dloop f (lz_decoder st f s) = Some (0, s)" for f
      using src by (subst lzjb_dloop.simps) (simp add: lz_decoder_def)
    ultimately show ?thesis by blast
  next
    case True
    from 1(2) True show ?thesis
    proof (cases rule: lzjb_step_cases [where s_start = s_start])
      case full
      then have "n = length s" using 1(6) True by (subst (asm) lzjb_loop.simps) (auto simp: lzjb_full_def split: if_splits)
      then show ?thesis using 1(5,7) by simp
    next
      case (token st' k1)
      have m: "lz_copymask (lz_group st) = 2 ^ k1" "k1 < 8" using token(2) by (simp_all add: lz_ready_def)
      then have m': "lz_copymask st' = 2 ^ k1" using token_mask [OF token(3)] by simp
      have "lzjb_loop s_start s d_len st' = Some (n, fin)"
        using 1(6) True token(1) by (subst (asm) lzjb_loop.simps) simp
      then have ih: "lz_agree st' (Suc k1) (fin @ pad)"
        "\<And>buf. buf_ok s (lz_src st') buf \<Longrightarrow> lzjb_dloop (fin @ pad) (lz_decoder st' (fin @ pad) buf) = Some (0, s)"
        using 1(1) [OF True token(1) refl token(4) m' m(2) 1(5) _ 1(7)] by blast+
      note t = token_agree [OF token(2,3) ih(1)]
      have "lz_agree st (Suc k) (fin @ pad)" using group_agree [OF 1(3,4) m(1)] t by blast
      moreover have "lzjb_dloop (fin @ pad) (lz_decoder st (fin @ pad) buf) = Some (0, s)"
        if buf: "buf_ok s (lz_src st) buf" for buf
      proof -
        obtain buf' where b: "buf_ok s (lz_src st') buf'"
          "lzjb_dstep (fin @ pad) (lz_decoder st (fin @ pad) buf) = Some (Inr (lz_decoder st' (fin @ pad) buf'))"
          by (rule decode_token [OF token(2) _ _ _ _ buf, of "fin @ pad" st']) (use t in auto)
        show ?thesis using b ih(2) [OF b(1)] buf True
          by (subst lzjb_dloop.simps) (simp add: lz_decoder_def buf_ok_def)
      qed
      ultimately show ?thesis by blast
    qed
  qed
qed

lemma lzjb_decompress_decoder:
  "lz_copymask st = 128 \<Longrightarrow> lz_src st = 0 \<Longrightarrow> lz_dst st = [] \<Longrightarrow> lzjb_decompress fin buf = lzjb_dloop fin (lz_decoder st fin buf)"
  unfolding lzjb_decompress_def
  by (subst (1 2) lzjb_dloop.simps) (simp add: lz_decoder_def lzjb_dstep_def lzjb_nums)

lemma lzjb_compress_ok:
  assumes "length lempel = LEMPEL_SIZE" "d_len < length s"
  obtains n fin where "lzjb_compress lempel s_start s d_len = Some (n, fin)"
    "n = length s \<or> n = length fin \<and> n \<le> d_len \<and>
      (\<forall>pad d. length d = length s \<longrightarrow> lzjb_decompress (fin @ pad) d = Some (0, s))"
proof -
  let ?st = "\<lparr>lz_src = 0, lz_dst = [], lz_copymap = 0, lz_copymask = 2 ^ (NBBY - 1), lz_lempel = lempel\<rparr>"
  have inv: "lz_inv s d_len ?st" using assms(1) by (intro lz_init_inv) (simp add: lzjb_nums)
  have m: "lz_copymask ?st = 2 ^ 7" by (simp add: lzjb_nums)
  obtain n fin where r: "lzjb_loop s_start s d_len ?st = Some (n, fin)" "n = length s \<or> n = length fin \<and> n \<le> d_len"
    using lzjb_loop_some [OF inv] by blast
  have "lzjb_decompress (fin @ pad) d = Some (0, s)" if "n \<le> d_len" "length d = length s" for pad d
  proof -
    have "buf_ok s (lz_src ?st) d" using that(2) by (simp add: buf_ok_def)
    then have "lzjb_dloop (fin @ pad) (lz_decoder ?st (fin @ pad) d) = Some (0, s)"
      using lzjb_loop_decodes [OF inv m _ assms(2) r(1) that(1), of pad] by simp
    then show ?thesis using m lzjb_decompress_decoder [of ?st "fin @ pad" d] by simp
  qed
  then show thesis using r that [of n fin] by (auto simp: lzjb_compress_def)
qed

section \<open>Properties\<close>



end
