(* ===== verification/Zio_Compress.thy ===== *)
theory Zio_Compress
  imports Lzjb Blkptr
begin

text \<open>
\<^verbatim>\<open>zio_compress.c\<close> and \<^verbatim>\<open>gzip.c\<close>: the table of compression functions, the scan for blocks of zeroes, and the
rounding of a compressed block to whole sectors. The locale \<open>compressor\<close> is what the caller relies on;
LZJB is proved to keep it, gzip keeps it when zlib, a parameter here, does what its manual says.
\<close>

section \<open>The compression table\<close>

definition ZIO_COMPRESS_INHERIT :: nat where "ZIO_COMPRESS_INHERIT = 0"
definition ZIO_COMPRESS_ON :: nat where "ZIO_COMPRESS_ON = 1"
definition ZIO_COMPRESS_LZJB :: nat where "ZIO_COMPRESS_LZJB = 3"
definition ZIO_COMPRESS_EMPTY :: nat where "ZIO_COMPRESS_EMPTY = 4"
definition ZIO_COMPRESS_FUNCTIONS :: nat where "ZIO_COMPRESS_FUNCTIONS = 14"

definition ZIO_COMPRESS_ON_VALUE :: nat where
  "ZIO_COMPRESS_ON_VALUE = ZIO_COMPRESS_LZJB"

lemmas zio_compress_nums = ZIO_COMPRESS_INHERIT_def ZIO_COMPRESS_ON_def ZIO_COMPRESS_LZJB_def ZIO_COMPRESS_EMPTY_def
  ZIO_COMPRESS_FUNCTIONS_def ZIO_COMPRESS_ON_VALUE_def

type_synonym zio_compress_func = "u8 list \<Rightarrow> nat \<Rightarrow> nat \<Rightarrow> (nat \<times> u8 list) option"
type_synonym zio_decompress_func = "u8 list \<Rightarrow> u8 list \<Rightarrow> nat \<Rightarrow> (int \<times> u8 list) option"

record zio_compress_info =
  ci_compress :: "zio_compress_func option"
  ci_decompress :: "zio_decompress_func option"
  ci_level :: nat
  ci_name :: string

text \<open>What is outside of these files: the contents of the stack array of \<^verbatim>\<open>lzjb_compress\<close> and the address
  of its source, and the two entry points of the zlib module, which return whether the status is
  \<^verbatim>\<open>Z_OK\<close> and what the destination holds.\<close>

record compress_env =
  env_lempel :: "nat \<Rightarrow> u16"
  env_s_start :: u64
  z_compress_level :: "u8 list \<Rightarrow> nat \<Rightarrow> nat \<Rightarrow> bool \<times> u8 list"
  z_uncompress :: "u8 list \<Rightarrow> u8 list \<Rightarrow> bool \<times> u8 list"

definition gzip_compress :: "compress_env \<Rightarrow> zio_compress_func" where
  "gzip_compress env s d_len n =
    (case z_compress_level env s d_len n of
       (True, out) \<Rightarrow> Some (length out, out)
     | (False, out) \<Rightarrow> if d_len \<noteq> length s then Some (length s, out) else Some (length s, s))"

definition gzip_decompress :: "compress_env \<Rightarrow> zio_decompress_func" where
  "gzip_decompress env s d n =
    (case z_uncompress env s d of (True, buf) \<Rightarrow> Some (0, buf) | (False, buf) \<Rightarrow> Some (-1, buf))"

definition zio_compress_table :: "compress_env \<Rightarrow> zio_compress_info list" where
  "zio_compress_table env =
    (let none = \<lambda>name. \<lparr>ci_compress = None, ci_decompress = None, ci_level = 0, ci_name = name\<rparr>;
         gzip = \<lambda>level name. \<lparr>ci_compress = Some (gzip_compress env), ci_decompress = Some (gzip_decompress env),
           ci_level = level, ci_name = name\<rparr>
     in [none ''inherit'', none ''on'', none ''uncompressed'',
         \<lparr>ci_compress = Some (\<lambda>s d_len n. lzjb_compress (map (env_lempel env) [0..<LEMPEL_SIZE]) (env_s_start env) s d_len),
          ci_decompress = Some (\<lambda>s d n. lzjb_decompress s d), ci_level = 0, ci_name = ''lzjb''\<rparr>,
         none ''empty'',
         gzip 1 ''gzip-1'', gzip 2 ''gzip-2'', gzip 3 ''gzip-3'', gzip 4 ''gzip-4'', gzip 5 ''gzip-5'',
         gzip 6 ''gzip-6'', gzip 7 ''gzip-7'', gzip 8 ''gzip-8'', gzip 9 ''gzip-9''])"

definition zio_compress_select :: "nat \<Rightarrow> nat \<Rightarrow> nat" where
  "zio_compress_select child parent =
    (if child = ZIO_COMPRESS_INHERIT then parent
     else if child = ZIO_COMPRESS_ON then ZIO_COMPRESS_ON_VALUE
     else child)"

section \<open>Compressing a block\<close>

text \<open>The scan for a non-zero word; a source that is not a whole number of words would be read behind
  its end.\<close>

function all_zero :: "u8 list \<Rightarrow> bool option" where
  "all_zero word =
    (if word = [] then Some True
     else if length word < 8 then None
     else if take 8 word \<noteq> replicate 8 0 then Some False
     else all_zero (drop 8 word))"
  by pat_completeness auto
termination
  by (relation "measure length") auto

declare all_zero.simps [simp del]

text \<open>The results of \<^verbatim>\<open>zio_compress_data\<close>: the return value 0; the return value 1 with all outputs zero;
  the return value 1 with the first \<open>destsize\<close> bytes of the buffer, \<open>destsize\<close> and \<open>destbufsize\<close>.\<close>

datatype zio_compressed = Not_Compressed | All_Zero | Compressed "u8 list" u64 u64

definition zio_compress_data :: "compress_env \<Rightarrow> nat \<Rightarrow> u8 list \<Rightarrow> zio_compressed option" where
  "zio_compress_data env cpfunc src =
    (if cpfunc \<ge> ZIO_COMPRESS_FUNCTIONS then None
     else case all_zero src of
       None \<Rightarrow> None
     | Some True \<Rightarrow> Some All_Zero
     | Some False \<Rightarrow>
         if cpfunc = ZIO_COMPRESS_EMPTY then Some Not_Compressed
         else let ci = zio_compress_table env ! cpfunc;
                  srcsize = of_nat (length src) :: u64;
                  destbufsize = P2ALIGN (srcsize - drop_bit 3 srcsize) SPA_MINBLOCKSIZE
              in if destbufsize = 0 then Some Not_Compressed
                 else case ci_compress ci of
                   None \<Rightarrow> None
                 | Some compress \<Rightarrow>
                     (case compress src (unat destbufsize) (ci_level ci) of
                        None \<Rightarrow> None
                      | Some (n, dest) \<Rightarrow>
                          let ciosize = of_nat n :: u64
                          in if ciosize > destbufsize then Some Not_Compressed
                             else let gapsize = P2ROUNDUP ciosize SPA_MINBLOCKSIZE - ciosize;
                                      dest = take (unat ciosize) dest @ replicate (unat gapsize) 0;
                                      ciosize = ciosize + gapsize
                                  in Some (Compressed dest ciosize destbufsize)))"

definition zio_decompress_data :: "compress_env \<Rightarrow> nat \<Rightarrow> u8 list \<Rightarrow> u8 list \<Rightarrow> (int \<times> u8 list) option" where
  "zio_decompress_data env cpfunc src dest =
    (if cpfunc \<ge> ZIO_COMPRESS_FUNCTIONS then None
     else let ci = zio_compress_table env ! cpfunc
          in case ci_decompress ci of None \<Rightarrow> None | Some decompress \<Rightarrow> decompress src dest (ci_level ci))"

section \<open>The contract of a compressor\<close>

locale compressor =
  fixes compress :: zio_compress_func and decompress :: zio_decompress_func
  assumes contract: "d_len < length s \<Longrightarrow> \<exists>n out. compress s d_len level = Some (n, out) \<and>
    (n = length s \<or> n = length out \<and> n \<le> d_len \<and>
      (\<forall>pad d. length d = length s \<longrightarrow> decompress (out @ pad) d level = Some (0, s)))"

interpretation lzjb: compressor "\<lambda>s d_len n. lzjb_compress (map lempel [0..<LEMPEL_SIZE]) s_start s d_len"
  "\<lambda>s d n. lzjb_decompress s d" for lempel s_start
proof (unfold_locales, goal_cases)
  case (1 d_len s level)
  obtain n fin where "lzjb_compress (map lempel [0..<LEMPEL_SIZE]) s_start s d_len = Some (n, fin)"
    "n = length s \<or> n = length fin \<and> n \<le> d_len \<and>
      (\<forall>pad d. length d = length s \<longrightarrow> lzjb_decompress (fin @ pad) d = Some (0, s))"
    by (rule lzjb_compress_ok [OF _ 1, of "map lempel [0..<LEMPEL_SIZE]" s_start]) simp_all
  then show ?case by blast
qed

lemma gzip_compressor:
  assumes "\<forall>s d_len level out pad d. z_compress_level env s d_len level = (True, out) \<longrightarrow>
    length out \<le> d_len \<and> (length d = length s \<longrightarrow> z_uncompress env (out @ pad) d = (True, s))"
  shows "compressor (gzip_compress env) (gzip_decompress env)"
proof
  fix d_len level and s :: "u8 list"
  assume "d_len < length s"
  show "\<exists>n out. gzip_compress env s d_len level = Some (n, out) \<and>
      (n = length s \<or> n = length out \<and> n \<le> d_len \<and>
        (\<forall>pad d. length d = length s \<longrightarrow> gzip_decompress env (out @ pad) d level = Some (0, s)))"
  proof (cases "z_compress_level env s d_len level")
    case (Pair ok out)
    then show ?thesis using assms \<open>d_len < length s\<close>
      by (cases ok) (auto simp: gzip_compress_def gzip_decompress_def)
  qed
qed

section \<open>Sizes\<close>

lemma all_zero_eq: "8 dvd length src \<Longrightarrow> all_zero src = Some (list_all (\<lambda>b. b = 0) src)"
proof (induction src rule: all_zero.induct)
  case (1 src)
  show ?case
  proof (cases "src = []")
    case True
    then show ?thesis by (subst all_zero.simps) simp
  next
    case False
    then have le: "8 \<le> length src" using 1(2) by (simp add: dvd_imp_le)
    have "list_all (\<lambda>b. b = 0) src \<longleftrightarrow> list_all (\<lambda>b. b = 0) (take 8 src) \<and> list_all (\<lambda>b. b = 0) (drop 8 src)"
      by (metis append_take_drop_id list_all_append)
    moreover have "list_all (\<lambda>b. b = 0) (take 8 src) \<longleftrightarrow> take 8 src = replicate 8 0"
      using le replicate_eqI [of "take 8 src" 8 0] by (auto simp: list_all_iff)
    ultimately show ?thesis using 1 False le by (subst all_zero.simps) simp
  qed
qed

definition destbufsize_of :: "nat \<Rightarrow> u64" where
  "destbufsize_of n = P2ALIGN (of_nat n - drop_bit 3 (of_nat n)) SPA_MINBLOCKSIZE"

lemma destbufsize_bounds:
  assumes "n < 2 ^ 63"
  shows "take_bit 9 (destbufsize_of n) = 0" "8 * unat (destbufsize_of n) \<le> 7 * n + 7" "unat (destbufsize_of n) \<le> n - n div 8"
    "destbufsize_of n \<noteq> 0 \<Longrightarrow> unat (destbufsize_of n) < n"
proof -
  have m: "- (512 :: u64) = NOT (mask 9)" by (simp add: mask_eq_exp_minus_1)
  have k: "unat (of_nat n :: u64) = n" using assms by (simp add: unat_of_nat)
  have d: "unat (drop_bit 3 (of_nat n :: u64)) = n div 8" 
    unfolding unat_drop_bit_eq k by (simp add: drop_bit_eq_div)
  have le: "drop_bit 3 (of_nat n :: u64) \<le> of_nat n" by (simp add: word_le_nat_alt d k)
  then have s: "unat (of_nat n - drop_bit 3 (of_nat n) :: u64) = n - n div 8" by (simp add: unat_sub d k)
  have a: "destbufsize_of n = (of_nat n - drop_bit 3 (of_nat n)) AND NOT (mask 9)"
    by (simp add: destbufsize_of_def P2ALIGN_def SPA_MINBLOCKSIZE_def SPA_MINBLOCKSHIFT_def m)
  show "take_bit 9 (destbufsize_of n) = 0" unfolding a by (intro bit_eqI) (auto simp: bit_simps)
  have "destbufsize_of n \<le> of_nat n - drop_bit 3 (of_nat n)" unfolding a by (rule word_and_le2)
  then show b: "unat (destbufsize_of n) \<le> n - n div 8" by (simp add: word_le_nat_alt s)
  then show "8 * unat (destbufsize_of n) \<le> 7 * n + 7" by linarith
  assume "destbufsize_of n \<noteq> 0"
  moreover have "512 dvd unat (destbufsize_of n)"
    using \<open>take_bit 9 (destbufsize_of n) = 0\<close> and_mask_dvd_nat [of 9 "destbufsize_of n"]
    by (simp add: take_bit_eq_mask)
  ultimately have "512 \<le> unat (destbufsize_of n)" by (intro dvd_imp_le) (simp_all add: unat_gt_0)
  then show "unat (destbufsize_of n) < n" using b by linarith
qed

section \<open>Compressed blocks\<close>

text \<open>What a caller gets for data that are not all zero: either nothing, or whole sectors that save at
  least an eighth and decompress to the data.\<close>

definition compressed_ok :: "compress_env \<Rightarrow> nat \<Rightarrow> u8 list \<Rightarrow> zio_compressed \<Rightarrow> bool" where
  "compressed_ok env cpfunc src r \<longleftrightarrow>
    (case r of
       Not_Compressed \<Rightarrow> True
     | All_Zero \<Rightarrow> False
     | Compressed dest destsize destbufsize \<Rightarrow>
         unat destsize = length dest \<and> 512 dvd length dest \<and> destsize \<le> destbufsize \<and>
         8 * unat destbufsize \<le> 7 * length src \<and>
         (\<forall>d. length d = length src \<longrightarrow> zio_decompress_data env cpfunc dest d = Some (0, src)))"

context compressor
begin

lemma compress_block:
  assumes t: "cpfunc < ZIO_COMPRESS_FUNCTIONS" "cpfunc \<noteq> ZIO_COMPRESS_EMPTY"
    "ci_compress (zio_compress_table env ! cpfunc) = Some compress"
    "ci_decompress (zio_compress_table env ! cpfunc) = Some decompress"
    and src: "8 dvd length src" "length src < 2 ^ 63" "\<not> list_all (\<lambda>b. b = 0) src"
  obtains r where "zio_compress_data env cpfunc src = Some r" "compressed_ok env cpfunc src r"
proof -
  define level where "level = ci_level (zio_compress_table env ! cpfunc)"
  define bs where "bs = destbufsize_of (length src)"
  note b = destbufsize_bounds [OF src(2), folded bs_def]
  have z: "all_zero src = Some False" using all_zero_eq [OF src(1)] src(3) by simp
  have data: "zio_compress_data env cpfunc src =
      (if bs = 0 then Some Not_Compressed
       else case compress src (unat bs) level of
          None \<Rightarrow> None
        | Some (n, dest) \<Rightarrow>
            if of_nat n > bs then Some Not_Compressed
            else Some (Compressed (take (unat (of_nat n :: u64)) dest @ replicate (unat (P2ROUNDUP (of_nat n) SPA_MINBLOCKSIZE - of_nat n)) 0)
              (of_nat n + (P2ROUNDUP (of_nat n) SPA_MINBLOCKSIZE - of_nat n)) bs))"
    using t z unfolding zio_compress_data_def Let_def bs_def destbufsize_of_def level_def by simp
  show thesis
  proof (cases "bs = 0")
    case True
    then show thesis using that data by (simp add: compressed_ok_def)
  next
    case False
    have dl: "unat bs < length src" by (rule b(4) [OF False])
    obtain n out where c0: "compress src (unat bs) level = Some (n, out)" "n = length src \<or> n = length out \<and> n \<le> unat bs \<and>
        (\<forall>pad d. length d = length src \<longrightarrow> decompress (out @ pad) d level = Some (0, src))"
      using contract [OF dl, of level] by blast
    then have c: "compress src (unat bs) level = Some (n, out)" "n \<le> length src"
      "n \<le> unat bs \<longrightarrow> n = length out \<and> (\<forall>pad d. length d = length src \<longrightarrow> decompress (out @ pad) d level = Some (0, src))"
      using dl by auto
    define x :: u64 where "x = of_nat n"
    have x: "unat x = n" using c(2) src(2) by (simp add: x_def unat_of_nat)
    show thesis
    proof (cases "x > bs")
      case True
      then show thesis using that data False c(1) by (simp add: compressed_ok_def x_def)
    next
      case nb: False
      then have n: "n \<le> unat bs" using x by (simp add: word_le_nat_alt not_less)
      define r where "r = P2ROUNDUP x SPA_MINBLOCKSIZE"
      have p: "SPA_MINBLOCKSIZE = 2 ^ 9" by (simp add: SPA_MINBLOCKSIZE_def SPA_MINBLOCKSHIFT_def)
      have "n < 2 ^ 63" using c(2) src(2) by simp
      then have "unat x + 2 ^ 9 \<le> 2 ^ 64" using x by simp
      note rs = P2ROUNDUP_spec [of 9 x, OF _ this, folded p, folded r_def, simplified]
      have rb: "r \<le> bs" by (rule rs(4)) (use b(1) nb in simp_all)
      define dest where "dest = out @ replicate (unat (r - x)) 0"
      have len: "length dest = unat r"
        using n c(3) rs(2) x by (simp add: dest_def unat_sub word_le_nat_alt)
      have "512 dvd unat r" using rs(1) and_mask_dvd_nat [of 9 r] by (simp add: take_bit_eq_mask)
      moreover have "8 * unat bs \<le> 7 * length src" using b(3) src(1) by (auto elim!: dvdE)
      moreover have "zio_decompress_data env cpfunc dest d = Some (0, src)" if "length d = length src" for d
        using t c(3) n that by (simp add: zio_decompress_data_def level_def [symmetric] dest_def)
      ultimately have "compressed_ok env cpfunc src (Compressed dest r bs)"
        using len rb by (simp add: compressed_ok_def)
      moreover have "zio_compress_data env cpfunc src = Some (Compressed dest r bs)"
        using data False c nb n x by (simp add: x_def [symmetric] r_def [symmetric] dest_def)
      ultimately show thesis using that by blast
    qed
  qed
qed

end

section \<open>Properties\<close>


text \<open>A concrete stand-in for the zlib module, which compresses runs of one byte.\<close>

definition env_sample :: compress_env where
  "env_sample = \<lparr>env_lempel = \<lambda>_. 0, env_s_start = 0x1000,
     z_compress_level = \<lambda>s d_len level. if 0 < d_len \<and> s = replicate (length s) (hd s) then (True, [hd s]) else (False, []),
     z_uncompress = \<lambda>s d. (True, replicate (length d) (hd s))\<rparr>"


end
