(* ===== verification/Refcount.thy ===== *)
theory Refcount
  imports Zfs_Prelude "HOL-Library.Multiset"
begin

text \<open>
The reference counts of refcount.c and sys/refcount.h: the plain counter of a release kernel, the counter
with tracked holders of a DEBUG kernel, and the proof that the second refines the first.
\<close>

section \<open>The counter of a release kernel\<close>

text \<open>Without \<^verbatim>\<open>DEBUG\<close> a reference count is one 64-bit word, and the operations are macros over
  \<^verbatim>\<open>atomic_add_64_nv\<close>, which returns the new value. The field \<^verbatim>\<open>rc_count\<close> is \<open>rr_count\<close> here.\<close>

record refcount_r =
  rr_count :: u64

definition refcount_create_r :: refcount_r where
  "refcount_create_r = \<lparr>rr_count = 0\<rparr>"

definition refcount_destroy_r :: "refcount_r \<Rightarrow> refcount_r" where
  "refcount_destroy_r rc = rc\<lparr>rr_count := 0\<rparr>"

definition refcount_destroy_many_r :: "refcount_r \<Rightarrow> u64 \<Rightarrow> refcount_r" where
  "refcount_destroy_many_r rc number = rc\<lparr>rr_count := 0\<rparr>"

definition refcount_is_zero_r :: "refcount_r \<Rightarrow> bool" where
  "refcount_is_zero_r rc \<longleftrightarrow> rr_count rc = 0"

definition refcount_count_r :: "refcount_r \<Rightarrow> u64" where
  "refcount_count_r rc = rr_count rc"

definition refcount_add_many_r :: "refcount_r \<Rightarrow> u64 \<Rightarrow> refcount_r \<times> u64" where
  "refcount_add_many_r rc number = (let n = rr_count rc + number in (rc\<lparr>rr_count := n\<rparr>, n))"

definition refcount_remove_many_r :: "refcount_r \<Rightarrow> u64 \<Rightarrow> refcount_r \<times> u64" where
  "refcount_remove_many_r rc number = (let n = rr_count rc + (- number) in (rc\<lparr>rr_count := n\<rparr>, n))"

definition refcount_add_r :: "refcount_r \<Rightarrow> refcount_r \<times> u64" where
  "refcount_add_r rc = (let n = rr_count rc + 1 in (rc\<lparr>rr_count := n\<rparr>, n))"

definition refcount_remove_r :: "refcount_r \<Rightarrow> refcount_r \<times> u64" where
  "refcount_remove_r rc = (let n = rr_count rc + (- 1) in (rc\<lparr>rr_count := n\<rparr>, n))"

section \<open>The counter with tracked holders\<close>

text \<open>\<^verbatim>\<open>DEBUG\<close> kernels and user programs keep a list of the holds and a short history of the removed ones.
  A holder is a pointer. \<open>tracking\<close> and \<open>history\<close> are the tunables \<^verbatim>\<open>reference_tracking_enable\<close> and
  \<^verbatim>\<open>reference_history\<close>.\<close>

type_synonym holder = u64

record reference =
  ref_holder :: holder
  ref_number :: u64

record refcount =
  rc_list :: "reference list"
  rc_removed :: "reference list"
  rc_count :: u64
  rc_removed_count :: int

definition refcount_create :: refcount where
  "refcount_create = \<lparr>rc_list = [], rc_removed = [], rc_count = 0, rc_removed_count = 0\<rparr>"

text \<open>Both loops of \<^verbatim>\<open>refcount_destroy_many\<close> unlink the heads until the list is empty.\<close>

fun drain :: "reference list \<Rightarrow> reference list" where
  "drain [] = []" |
  "drain (ref # refs) = drain refs"

definition refcount_destroy_many :: "refcount \<Rightarrow> u64 \<Rightarrow> refcount" where
  "refcount_destroy_many rc number = rc\<lparr>rc_list := drain (rc_list rc), rc_removed := drain (rc_removed rc)\<rparr>"

definition refcount_destroy :: "refcount \<Rightarrow> refcount" where
  "refcount_destroy rc = refcount_destroy_many rc 0"

definition refcount_is_zero :: "refcount \<Rightarrow> bool" where
  "refcount_is_zero rc \<longleftrightarrow> rc_count rc = 0"

definition refcount_count :: "refcount \<Rightarrow> u64" where
  "refcount_count rc = rc_count rc"

definition refcount_add_many :: "bool \<Rightarrow> refcount \<Rightarrow> u64 \<Rightarrow> holder \<Rightarrow> refcount \<times> u64" where
  "refcount_add_many tracking rc number holder =
    (let rc = (if tracking then rc\<lparr>rc_list := \<lparr>ref_holder = holder, ref_number = number\<rparr> # rc_list rc\<rparr> else rc);
         rc = rc\<lparr>rc_count := rc_count rc + number\<rparr>
     in (rc, rc_count rc))"

definition refcount_add :: "bool \<Rightarrow> refcount \<Rightarrow> holder \<Rightarrow> refcount \<times> u64" where
  "refcount_add tracking rc holder = refcount_add_many tracking rc 1 holder"

text \<open>The search for a hold: the holds before it, and the rest of the list with it.\<close>

fun find_hold :: "reference list \<Rightarrow> u64 \<Rightarrow> holder \<Rightarrow> (reference \<times> reference list) option" where
  "find_hold [] number holder = None" |
  "find_hold (ref # refs) number holder =
    (if ref_holder ref = holder \<and> ref_number ref = number then Some (ref, refs)
     else map_option (\<lambda>(r, rest). (r, ref # rest)) (find_hold refs number holder))"

definition record_removed :: "int \<Rightarrow> refcount \<Rightarrow> reference \<Rightarrow> refcount" where
  "record_removed history rc ref =
    (if history > 0 then
       let rc = rc\<lparr>rc_removed := ref # rc_removed rc, rc_removed_count := rc_removed_count rc + 1\<rparr>
       in if rc_removed_count rc \<ge> history
          then rc\<lparr>rc_removed := butlast (rc_removed rc), rc_removed_count := rc_removed_count rc - 1\<rparr>
          else rc
     else rc)"

definition refcount_remove_many :: "bool \<Rightarrow> int \<Rightarrow> refcount \<Rightarrow> u64 \<Rightarrow> holder \<Rightarrow> (refcount \<times> u64) option" where
  "refcount_remove_many tracking history rc number holder =
    (if \<not> tracking then
       let rc = rc\<lparr>rc_count := rc_count rc - number\<rparr> in Some (rc, rc_count rc)
     else case find_hold (rc_list rc) number holder of
       None \<Rightarrow> None
     | Some (ref, refs) \<Rightarrow>
         let rc = record_removed history (rc\<lparr>rc_list := refs\<rparr>) ref;
             rc = rc\<lparr>rc_count := rc_count rc - number\<rparr>
         in Some (rc, rc_count rc))"

definition refcount_remove :: "bool \<Rightarrow> int \<Rightarrow> refcount \<Rightarrow> holder \<Rightarrow> (refcount \<times> u64) option" where
  "refcount_remove tracking history rc holder = refcount_remove_many tracking history rc 1 holder"

section \<open>The tracked counter refines the plain one\<close>

definition refcount_abs :: "refcount \<Rightarrow> refcount_r" where
  "refcount_abs rc = \<lparr>rr_count = rc_count rc\<rparr>"

definition refcount_inv :: "int \<Rightarrow> refcount \<Rightarrow> bool" where
  "refcount_inv history rc \<longleftrightarrow> rc_count rc = sum_list (map ref_number (rc_list rc)) \<and>
    rc_removed_count rc = int (length (rc_removed rc)) \<and>
    (history > 0 \<longrightarrow> rc_removed_count rc < history) \<and> (history \<le> 0 \<longrightarrow> rc_removed rc = [])"

lemma find_hold_mset:
  "find_hold refs number holder = Some (ref, rest) \<Longrightarrow>
    ref = \<lparr>ref_holder = holder, ref_number = number\<rparr> \<and> mset refs = add_mset ref (mset rest)"
  by (induction refs arbitrary: rest) (auto split: if_splits)

lemma find_hold_None:
  "find_hold refs number holder = None \<longleftrightarrow> \<lparr>ref_holder = holder, ref_number = number\<rparr> \<notin> set refs"
  by (induction refs) auto

lemma sum_hold: "mset refs = add_mset ref (mset rest) \<Longrightarrow> sum_list (map ref_number refs) = ref_number ref + sum_list (map ref_number rest)"
  for refs :: "reference list"
  by (metis mset_map sum_mset_sum_list image_mset_add_mset sum_mset.insert)

lemma record_removed_inv:
  assumes "rc_removed_count rc = int (length (rc_removed rc))"
    "history > 0 \<longrightarrow> rc_removed_count rc < history" "history \<le> 0 \<longrightarrow> rc_removed rc = []"
  shows "rc_list (record_removed history rc ref) = rc_list rc \<and> rc_count (record_removed history rc ref) = rc_count rc \<and>
    rc_removed_count (record_removed history rc ref) = int (length (rc_removed (record_removed history rc ref))) \<and>
    (history > 0 \<longrightarrow> rc_removed_count (record_removed history rc ref) < history) \<and>
    (history \<le> 0 \<longrightarrow> rc_removed (record_removed history rc ref) = [])"
  using assms by (auto simp: record_removed_def Let_def)


definition rc_sample :: refcount where
  "rc_sample = fst (refcount_add_many True (fst (refcount_add_many True refcount_create 2 7)) 1 9)"


end
