(* ===== verification/Rrwlock.thy ===== *)
theory Rrwlock
  imports Refcount
begin

text \<open>
The re-entrant read locks of rrwlock.c. Each operation is a function on the lock and on the nodes of the
calling thread; the runs of any number of threads that use one lock are a step relation. Shown: exclusion,
exact counts, re-entry without waiting, no lost wake-up, and that readers do not starve writers.
\<close>

section \<open>The lock\<close>

text \<open>Threads and locks are known by their addresses. The condition variable and the mutex, which every
  operation holds from beginning to end except while it waits, are not part of the record.\<close>

type_synonym thread = u64
type_synonym lock_id = u64

record rrwlock =
  rr_writer :: "thread option"
  rr_anon_rcount :: refcount_r
  rr_linked_rcount :: refcount_r
  rr_writer_wanted :: bool

text \<open>The nodes of a thread: the value of \<^verbatim>\<open>rrw_tsd_key\<close>, as the list of its \<^verbatim>\<open>rn_rrl\<close>.\<close>

type_synonym rrw_nodes = "lock_id list"

definition rrn_find :: "rrwlock \<Rightarrow> lock_id \<Rightarrow> rrw_nodes \<Rightarrow> bool" where
  "rrn_find rrl l nodes =
    (if refcount_count_r (rr_linked_rcount rrl) = 0 then False else List.member nodes l)"

definition rrn_add :: "lock_id \<Rightarrow> rrw_nodes \<Rightarrow> rrw_nodes" where
  "rrn_add l nodes = l # nodes"

fun unlink_node :: "lock_id \<Rightarrow> rrw_nodes \<Rightarrow> bool \<times> rrw_nodes" where
  "unlink_node l [] = (False, [])" |
  "unlink_node l (rn # rest) =
    (if rn = l then (True, rest) else case unlink_node l rest of (found, rest) \<Rightarrow> (found, rn # rest))"

definition rrn_find_and_remove :: "rrwlock \<Rightarrow> lock_id \<Rightarrow> rrw_nodes \<Rightarrow> bool \<times> rrw_nodes" where
  "rrn_find_and_remove rrl l nodes =
    (if refcount_count_r (rr_linked_rcount rrl) = 0 then (False, nodes) else unlink_node l nodes)"

definition rrw_init :: rrwlock where
  "rrw_init = \<lparr>rr_writer = None, rr_anon_rcount = refcount_create_r, rr_linked_rcount = refcount_create_r,
     rr_writer_wanted = False\<rparr>"

definition rrw_destroy :: "rrwlock \<Rightarrow> rrwlock" where
  "rrw_destroy rrl = rrl\<lparr>rr_anon_rcount := refcount_destroy_r (rr_anon_rcount rrl),
     rr_linked_rcount := refcount_destroy_r (rr_linked_rcount rrl)\<rparr>"

text \<open>Entering waits in a loop. \<^term>\<open>Inl\<close> is one pass that ends in \<^verbatim>\<open>cv_wait\<close>, with the lock as it leaves
  it; \<^term>\<open>Inr\<close> is the pass that gets the lock.\<close>

definition rrw_enter_read :: "rrwlock \<Rightarrow> lock_id \<Rightarrow> rrw_nodes \<Rightarrow> rrwlock + rrwlock \<times> rrw_nodes" where
  "rrw_enter_read rrl l nodes =
    (if rr_writer rrl \<noteq> None \<or>
        rr_writer_wanted rrl \<and> refcount_is_zero_r (rr_anon_rcount rrl) \<and> \<not> rrn_find rrl l nodes
     then Inl rrl
     else if rr_writer_wanted rrl
     then Inr (rrl\<lparr>rr_linked_rcount := fst (refcount_add_r (rr_linked_rcount rrl))\<rparr>, rrn_add l nodes)
     else Inr (rrl\<lparr>rr_anon_rcount := fst (refcount_add_r (rr_anon_rcount rrl))\<rparr>, nodes))"

definition rrw_enter_write :: "thread \<Rightarrow> rrwlock \<Rightarrow> rrwlock + rrwlock" where
  "rrw_enter_write curthread rrl =
    (if refcount_count_r (rr_anon_rcount rrl) > 0 \<or> refcount_count_r (rr_linked_rcount rrl) > 0 \<or> rr_writer rrl \<noteq> None
     then Inl (rrl\<lparr>rr_writer_wanted := True\<rparr>)
     else Inr (rrl\<lparr>rr_writer_wanted := False, rr_writer := Some curthread\<rparr>))"

datatype krw = RW_WRITER | RW_READER

definition rrw_enter :: "thread \<Rightarrow> rrwlock \<Rightarrow> krw \<Rightarrow> lock_id \<Rightarrow> rrw_nodes \<Rightarrow> rrwlock + rrwlock \<times> rrw_nodes" where
  "rrw_enter curthread rrl rw l nodes =
    (case rw of
       RW_READER \<Rightarrow> rrw_enter_read rrl l nodes
     | RW_WRITER \<Rightarrow> (case rrw_enter_write curthread rrl of Inl rrl \<Rightarrow> Inl rrl | Inr rrl \<Rightarrow> Inr (rrl, nodes)))"

text \<open>\<open>rrw_exit\<close> also tells whether it calls \<^verbatim>\<open>cv_broadcast\<close>.\<close>

definition rrw_exit :: "rrwlock \<Rightarrow> lock_id \<Rightarrow> rrw_nodes \<Rightarrow> rrwlock \<times> rrw_nodes \<times> bool" where
  "rrw_exit rrl l nodes =
    (if rr_writer rrl = None then
       (case rrn_find_and_remove rrl l nodes of
          (True, nodes) \<Rightarrow>
            (case refcount_remove_r (rr_linked_rcount rrl) of
               (rc, n) \<Rightarrow> (rrl\<lparr>rr_linked_rcount := rc\<rparr>, nodes, n = 0))
        | (False, nodes) \<Rightarrow>
            (case refcount_remove_r (rr_anon_rcount rrl) of
               (rc, n) \<Rightarrow> (rrl\<lparr>rr_anon_rcount := rc\<rparr>, nodes, n = 0)))
     else (rrl\<lparr>rr_writer := None\<rparr>, nodes, True))"

definition rrw_held :: "thread \<Rightarrow> rrwlock \<Rightarrow> krw \<Rightarrow> bool" where
  "rrw_held curthread rrl rw =
    (case rw of
       RW_WRITER \<Rightarrow> rr_writer rrl = Some curthread
     | RW_READER \<Rightarrow> \<not> refcount_is_zero_r (rr_anon_rcount rrl) \<or> \<not> refcount_is_zero_r (rr_linked_rcount rrl))"

lemmas refcount_r_defs = refcount_create_r_def refcount_is_zero_r_def refcount_count_r_def refcount_add_r_def refcount_remove_r_def

section \<open>Threads at work\<close>

text \<open>The system: one lock \<open>l\<close>, the nodes of every thread, and, for the specification, the multiset of the
  threads that hold the lock for reading, once per hold.\<close>

record rrw_system =
  sys_lock :: rrwlock
  sys_nodes :: "thread \<Rightarrow> rrw_nodes"
  sys_readers :: "thread multiset"

definition sys_init :: "(thread \<Rightarrow> rrw_nodes) \<Rightarrow> rrw_system" where
  "sys_init nodes = \<lparr>sys_lock = rrw_init, sys_nodes = nodes, sys_readers = {#}\<rparr>"

text \<open>A thread may be anywhere in its program: it tries to enter, and waits or gets the lock, or it leaves a
  lock it holds; threads work on other locks too, which changes their other nodes. There are fewer holds
  than \<open>2\<^sup>6\<^sup>4\<close> at any time.\<close>

inductive rrw_step :: "lock_id \<Rightarrow> rrw_system \<Rightarrow> rrw_system \<Rightarrow> bool" for l where
  enter: "rrw_enter t (sys_lock s) rw l (sys_nodes s t) = Inr (rrl, nodes) \<Longrightarrow> size (sys_readers s) + 1 < 2 ^ 64 \<Longrightarrow>
    rrw_step l s (s\<lparr>sys_lock := rrl, sys_nodes := (sys_nodes s)(t := nodes),
      sys_readers := (if rw = RW_READER then add_mset t (sys_readers s) else sys_readers s)\<rparr>)" |
  wait: "rrw_enter t (sys_lock s) rw l (sys_nodes s t) = Inl rrl \<Longrightarrow> rrw_step l s (s\<lparr>sys_lock := rrl\<rparr>)" |
  exit_read: "t \<in># sys_readers s \<Longrightarrow> rrw_exit (sys_lock s) l (sys_nodes s t) = (rrl, nodes, wake) \<Longrightarrow>
    rrw_step l s (s\<lparr>sys_lock := rrl, sys_nodes := (sys_nodes s)(t := nodes), sys_readers := sys_readers s - {#t#}\<rparr>)" |
  exit_write: "rr_writer (sys_lock s) = Some t \<Longrightarrow> rrw_exit (sys_lock s) l (sys_nodes s t) = (rrl, nodes, wake) \<Longrightarrow>
    rrw_step l s (s\<lparr>sys_lock := rrl, sys_nodes := (sys_nodes s)(t := nodes)\<rparr>)" |
  other_lock: "filter (\<lambda>x. x = l) nodes = filter (\<lambda>x. x = l) (sys_nodes s t) \<Longrightarrow>
    rrw_step l s (s\<lparr>sys_nodes := (sys_nodes s)(t := nodes)\<rparr>)"

inductive_cases rrw_stepE: "rrw_step l s s'"

definition rrw_reachable :: "lock_id \<Rightarrow> rrw_system \<Rightarrow> bool" where
  "rrw_reachable l s \<longleftrightarrow> (\<exists>nodes. (\<forall>t. l \<notin> set (nodes t)) \<and> (rrw_step l)\<^sup>*\<^sup>* (sys_init nodes) s)"

section \<open>The invariant\<close>

definition own_nodes :: "lock_id \<Rightarrow> rrw_nodes \<Rightarrow> nat" where
  "own_nodes l nodes = length (filter (\<lambda>x. x = l) nodes)"

lemma own_nodes_simps [simp]:
  "own_nodes l [] = 0" "own_nodes l (x # nodes) = (if x = l then Suc (own_nodes l nodes) else own_nodes l nodes)"
  by (simp_all add: own_nodes_def)

lemma own_nodes_pos: "0 < own_nodes l nodes \<longleftrightarrow> l \<in> set nodes"
  by (induction nodes) auto

lemma unlink_node_cases:
  "unlink_node l nodes = (found, nodes') \<Longrightarrow>
    (found \<longleftrightarrow> l \<in> set nodes) \<and> (if found then own_nodes l nodes = Suc (own_nodes l nodes') else nodes' = nodes)"
  by (induction nodes arbitrary: nodes') (auto split: if_splits prod.splits)

text \<open>\<open>L\<close> are the linked holds: the nodes of the lock, thread by thread. The two counters are exact, and a
  writer excludes readers.\<close>

definition rrw_inv :: "lock_id \<Rightarrow> rrw_system \<Rightarrow> thread multiset \<Rightarrow> bool" where
  "rrw_inv l s L \<longleftrightarrow> (\<forall>t. count L t = own_nodes l (sys_nodes s t)) \<and> L \<subseteq># sys_readers s \<and> size (sys_readers s) < 2 ^ 64 \<and>
    rr_count (rr_linked_rcount (sys_lock s)) = of_nat (size L) \<and>
    rr_count (rr_anon_rcount (sys_lock s)) = of_nat (size (sys_readers s) - size L) \<and>
    (rr_writer (sys_lock s) \<noteq> None \<longrightarrow> sys_readers s = {#})"

lemma of_nat_zero64: "n < 2 ^ 64 \<Longrightarrow> (of_nat n :: u64) = 0 \<longleftrightarrow> n = 0"
  by (auto simp: word_of_nat_eq_0_iff dest: dvd_imp_le)

lemma rrw_inv_counts:
  assumes "rrw_inv l s L"
  shows "size L \<le> size (sys_readers s)" "size (sys_readers s) < 2 ^ 64"
    "rr_count (rr_linked_rcount (sys_lock s)) = 0 \<longleftrightarrow> L = {#}"
    "rr_count (rr_anon_rcount (sys_lock s)) = 0 \<longleftrightarrow> sys_readers s = L"
    "rrn_find (sys_lock s) l (sys_nodes s t) \<longleftrightarrow> l \<in> set (sys_nodes s t)"
    "rrn_find_and_remove (sys_lock s) l (sys_nodes s t) = unlink_node l (sys_nodes s t)"
proof -
  show le: "size L \<le> size (sys_readers s)" using assms by (simp add: rrw_inv_def size_mset_mono)
  show lt: "size (sys_readers s) < 2 ^ 64" using assms by (simp add: rrw_inv_def)
  show link: "rr_count (rr_linked_rcount (sys_lock s)) = 0 \<longleftrightarrow> L = {#}"
    using assms of_nat_zero64 [of "size L"] le_less_trans [OF le lt] by (simp add: rrw_inv_def)
  have "size (sys_readers s) - size L = 0 \<longleftrightarrow> sys_readers s = L"
  proof
    assume "size (sys_readers s) - size L = 0"
    then have "size (sys_readers s - L) = 0" using assms by (simp add: rrw_inv_def size_Diff_submset)
    then show "sys_readers s = L" using assms by (metis rrw_inv_def size_eq_0_iff_empty subset_mset.add_diff_inverse add_0_right)
  qed simp
  moreover have "(of_nat (size (sys_readers s) - size L) :: u64) = 0 \<longleftrightarrow> size (sys_readers s) - size L = 0"
    by (rule of_nat_zero64) (use lt in simp)
  ultimately show "rr_count (rr_anon_rcount (sys_lock s)) = 0 \<longleftrightarrow> sys_readers s = L"
    using assms unfolding rrw_inv_def by argo
  have "count L t = own_nodes l (sys_nodes s t)" using assms by (simp add: rrw_inv_def)
  then have own: "l \<in> set (sys_nodes s t) \<longleftrightarrow> t \<in># L" using own_nodes_pos [of l] by (metis count_greater_zero_iff)
  then show "rrn_find (sys_lock s) l (sys_nodes s t) \<longleftrightarrow> l \<in> set (sys_nodes s t)"
    using link by (auto simp: rrn_find_def refcount_count_r_def)
  have "unlink_node l nodes = (False, nodes)" if "l \<notin> set nodes" for nodes
    using that unlink_node_cases [of l nodes] by (cases "unlink_node l nodes") auto
  then show "rrn_find_and_remove (sys_lock s) l (sys_nodes s t) = unlink_node l (sys_nodes s t)"
    using own link by (auto simp: rrn_find_and_remove_def refcount_count_r_def)
qed

lemma rrw_init_inv: "\<forall>t. l \<notin> set (nodes t) \<Longrightarrow> rrw_inv l (sys_init nodes) {#}"
  using own_nodes_pos [of l] by (auto simp: rrw_inv_def sys_init_def rrw_init_def refcount_create_r_def)

lemma enter_read_inv:
  assumes inv: "rrw_inv l s L" and e: "rrw_enter_read (sys_lock s) l (sys_nodes s t) = Inr (rrl, nodes)"
    and sz: "size (sys_readers s) + 1 < 2 ^ 64"
    and s': "s' = s\<lparr>sys_lock := rrl, sys_nodes := (sys_nodes s)(t := nodes), sys_readers := add_mset t (sys_readers s)\<rparr>"
  shows "\<exists>L'. rrw_inv l s' L'"
proof (cases "rr_writer_wanted (sys_lock s)")
  case True
  then have "rrw_inv l s' (add_mset t L)"
    using inv e sz rrw_inv_counts(1) [OF inv] unfolding s'
    by (auto simp: rrw_inv_def rrw_enter_read_def rrn_add_def refcount_r_defs Let_def add.commute split: if_splits)
  then show ?thesis by blast
next
  case False
  then have "rrw_inv l s' L"
    using inv e sz rrw_inv_counts(1) [OF inv] unfolding s'
    by (auto simp: rrw_inv_def rrw_enter_read_def refcount_r_defs Let_def Suc_diff_le add.commute
        intro: subset_mset.order_trans split: if_splits)
  then show ?thesis by blast
qed

lemma enter_write_inv:
  assumes inv: "rrw_inv l s L" and e: "rrw_enter_write t (sys_lock s) = Inr rrl" and s': "s' = s\<lparr>sys_lock := rrl\<rparr>"
  shows "rrw_inv l s' L"
  using inv e rrw_inv_counts(3,4) [OF inv] unfolding s'
  by (auto simp: rrw_inv_def rrw_enter_write_def refcount_r_defs word_gt_0 split: if_splits)

lemma exit_read_inv:
  assumes inv: "rrw_inv l s L" and t: "t \<in># sys_readers s"
    and e: "rrw_exit (sys_lock s) l (sys_nodes s t) = (rrl, nodes, wake)"
    and s': "s' = s\<lparr>sys_lock := rrl, sys_nodes := (sys_nodes s)(t := nodes), sys_readers := sys_readers s - {#t#}\<rparr>"
  shows "\<exists>L'. rrw_inv l s' L'"
proof -
  have w: "rr_writer (sys_lock s) = None" using inv t by (auto simp: rrw_inv_def)
  note c = rrw_inv_counts [OF inv]
  have sub: "\<forall>t. count L t = own_nodes l (sys_nodes s t)" "L \<subseteq># sys_readers s" using inv by (simp_all add: rrw_inv_def)
  obtain found nodes' where u: "unlink_node l (sys_nodes s t) = (found, nodes')" by fastforce
  note uc = unlink_node_cases [OF u]
  have le: "size (sys_readers s - {#t#}) = size (sys_readers s) - 1" "0 < size (sys_readers s)"
    using t by (auto simp: size_Diff_singleton nonempty_has_size [symmetric])
  show ?thesis
  proof (cases found)
    case True
    then have tL: "t \<in># L" using sub(1) uc own_nodes_pos [of l] by (metis count_greater_zero_iff)
    then have L: "size (L - {#t#}) = size L - 1" "0 < size L"
      by (auto simp: size_Diff_singleton nonempty_has_size [symmetric])
    have "rrl = sys_lock s\<lparr>rr_linked_rcount := \<lparr>rr_count = of_nat (size L) - 1\<rparr>\<rparr>" "nodes = nodes'"
      using True e w u c(6) [of t] inv by (auto simp: rrw_exit_def refcount_r_defs Let_def rrw_inv_def)
    moreover have "L - {#t#} \<subseteq># sys_readers s - {#t#}"
      using sub(2) by (auto simp: subseteq_mset_def intro: diff_le_mono)
    ultimately have "rrw_inv l s' (L - {#t#})"
      using True uc inv le L w by (auto simp: rrw_inv_def s' of_nat_diff)
    then show ?thesis by blast
  next
    case False
    then have tL: "t \<notin># L" using sub(1) uc own_nodes_pos [of l] by (metis count_greater_zero_iff)
    have "L + {#t#} \<subseteq># sys_readers s"
      using sub(2) tL t by (auto simp: subseteq_mset_def not_in_iff Suc_le_eq)
    then have "L \<subseteq># sys_readers s - {#t#}" "size (L + {#t#}) \<le> size (sys_readers s)"
      by (simp add: insert_subset_eq_iff) (rule size_mset_mono, fact)
    moreover have "rrl = sys_lock s\<lparr>rr_anon_rcount := \<lparr>rr_count = of_nat (size (sys_readers s) - size L) - 1\<rparr>\<rparr>" "nodes = sys_nodes s t"
      using False e w u uc c(6) [of t] inv by (auto simp: rrw_exit_def refcount_r_defs Let_def rrw_inv_def)
    ultimately have "rrw_inv l s' L"
      using inv le w by (auto simp: rrw_inv_def s' of_nat_diff)
    then show ?thesis by blast
  qed
qed

lemma wait_inv:
  assumes "rrw_inv l s L" "rrw_enter t (sys_lock s) rw l (sys_nodes s t) = Inl rrl"
  shows "rrw_inv l (s\<lparr>sys_lock := rrl\<rparr>) L"
  using assms by (auto simp: rrw_inv_def rrw_enter_def rrw_enter_read_def rrw_enter_write_def split: krw.splits if_splits sum.splits)

lemma rrw_step_inv: "rrw_step l s s' \<Longrightarrow> rrw_inv l s L \<Longrightarrow> \<exists>L'. rrw_inv l s' L'"
proof (induction rule: rrw_step.induct)
  case (enter t s rw rrl nodes)
  show ?case
  proof (cases rw)
    case RW_READER
    then show ?thesis using enter by (intro enter_read_inv [of l s L t rrl nodes]) (simp_all add: rrw_enter_def)
  next
    case RW_WRITER
    then have "rrw_enter_write t (sys_lock s) = Inr rrl" "nodes = sys_nodes s t"
      using enter(1) by (auto simp: rrw_enter_def split: sum.splits)
    then show ?thesis using enter_write_inv [OF enter(3), of t rrl] RW_WRITER by auto
  qed
next
  case wait then show ?case using wait_inv by blast
next
  case exit_read then show ?case using exit_read_inv by blast
next
  case (exit_write s t rrl nodes wake)
  then show ?case by (intro exI [of _ L]) (auto simp: rrw_inv_def rrw_exit_def)
next
  case (other_lock nodes s t)
  then show ?case by (intro exI [of _ L]) (auto simp: rrw_inv_def own_nodes_def)
qed

lemma rrw_run_inv: "(rrw_step l)\<^sup>*\<^sup>* s s' \<Longrightarrow> rrw_inv l s L \<Longrightarrow> \<exists>L'. rrw_inv l s' L'"
  by (induction rule: rtranclp_induct) (use rrw_step_inv in blast)+

lemma rrw_reachable_inv: "rrw_reachable l s \<Longrightarrow> \<exists>L. rrw_inv l s L"
  unfolding rrw_reachable_def using rrw_run_inv rrw_init_inv by blast

section \<open>Exclusion\<close>

lemma rrw_counts_add:
  assumes "rrw_inv l s L"
  shows "unat (rr_count (rr_anon_rcount (sys_lock s))) + unat (rr_count (rr_linked_rcount (sys_lock s))) = size (sys_readers s)"
proof -
  note c = rrw_inv_counts(1,2) [OF assms]
  have "unat (rr_count (rr_anon_rcount (sys_lock s))) = size (sys_readers s) - size L"
    using assms unat_of_nat64 [of "size (sys_readers s) - size L"] c unfolding rrw_inv_def by (metis less_imp_diff_less)
  moreover have "unat (rr_count (rr_linked_rcount (sys_lock s))) = size L"
    using assms unat_of_nat64 [of "size L"] c unfolding rrw_inv_def by (metis le_less_trans)
  ultimately show ?thesis using c(1) by simp
qed

lemma rrw_held_reader:
  assumes "rrw_inv l s L"
  shows "rrw_held t (sys_lock s) RW_READER \<longleftrightarrow> sys_readers s \<noteq> {#}"
  using rrw_inv_counts(3,4) [OF assms] assms by (auto simp: rrw_held_def refcount_r_defs rrw_inv_def)

lemma rrw_enter_write_free:
  assumes "rrw_inv l s L"
  shows "(\<exists>rrl. rrw_enter_write t (sys_lock s) = Inr rrl) \<longleftrightarrow> sys_readers s = {#} \<and> rr_writer (sys_lock s) = None"
  using rrw_inv_counts(3,4) [OF assms] assms
  by (auto simp: rrw_enter_write_def refcount_r_defs word_gt_0 rrw_inv_def)

section \<open>Re-entry and wake-ups\<close>

lemma rrw_linked_reader:
  assumes "rrw_inv l s L"
  shows "rrn_find (sys_lock s) l (sys_nodes s t) \<longleftrightarrow> t \<in># L"
proof -
  have "count L t = own_nodes l (sys_nodes s t)" using assms by (simp add: rrw_inv_def)
  then show ?thesis using rrw_inv_counts(5) [OF assms] own_nodes_pos [of l] by (metis count_greater_zero_iff)
qed

lemma rrw_reenter:
  assumes inv: "rrw_inv l s L" and t: "t \<in># sys_readers s"
  shows "\<exists>r. rrw_enter_read (sys_lock s) l (sys_nodes s t) = Inr r"
proof -
  have "rr_writer (sys_lock s) = None" using inv t by (auto simp: rrw_inv_def)
  moreover have "rr_count (rr_anon_rcount (sys_lock s)) \<noteq> 0 \<or> rrn_find (sys_lock s) l (sys_nodes s t)"
    using rrw_inv_counts(4) [OF inv] rrw_linked_reader [OF inv] t by metis
  ultimately show ?thesis by (auto simp: rrw_enter_read_def refcount_r_defs)
qed

lemma rrw_exit_quiet:
  assumes inv: "rrw_inv l s L" and t: "t \<in># sys_readers s \<or> rr_writer (sys_lock s) = Some t"
    and e: "rrw_exit (sys_lock s) l (sys_nodes s t) = (rrl, nodes, False)"
    and b: "rrw_enter u (sys_lock s) rw l (sys_nodes s u) = Inl r"
  shows "\<exists>r. rrw_enter u rrl rw l (sys_nodes s u) = Inl r"
proof -
  have w: "rr_writer (sys_lock s) = None" using e by (auto simp: rrw_exit_def split: if_splits)
  then have tr: "t \<in># sys_readers s" using t by simp
  obtain found nodes' where u: "rrn_find_and_remove (sys_lock s) l (sys_nodes s t) = (found, nodes')" by fastforce
  show ?thesis
  proof (cases found)
    case True
    then have "rrl = sys_lock s\<lparr>rr_linked_rcount := \<lparr>rr_count = rr_count (rr_linked_rcount (sys_lock s)) - 1\<rparr>\<rparr>"
      "rr_count (rr_linked_rcount rrl) \<noteq> 0" "rr_count (rr_linked_rcount (sys_lock s)) \<noteq> 0"
      using e w u by (auto simp: rrw_exit_def rrn_find_and_remove_def refcount_r_defs Let_def split: if_splits)
    then show ?thesis using b w
      by (cases rw) (auto simp: rrw_enter_def rrw_enter_read_def rrw_enter_write_def rrn_find_def refcount_r_defs word_gt_0
          split: if_splits)
  next
    case False
    then have "t \<notin># L"
      using u rrw_inv_counts(5,6) [OF inv, of t] rrw_linked_reader [OF inv, of t] unlink_node_cases by metis
    then have "rr_count (rr_anon_rcount (sys_lock s)) \<noteq> 0" using rrw_inv_counts(4) [OF inv] tr by blast
    moreover have "rrl = sys_lock s\<lparr>rr_anon_rcount := \<lparr>rr_count = rr_count (rr_anon_rcount (sys_lock s)) - 1\<rparr>\<rparr>"
      "rr_count (rr_anon_rcount rrl) \<noteq> 0"
      using False e w u by (auto simp: rrw_exit_def refcount_r_defs Let_def)
    ultimately show ?thesis using b w
      by (cases rw) (auto simp: rrw_enter_def rrw_enter_read_def rrw_enter_write_def rrn_find_def refcount_r_defs word_gt_0
          split: if_splits)
  qed
qed

section \<open>Writers are not starved\<close>

text \<open>A step while a writer waits, up to the one that lets a writer in.\<close>

definition no_writer_step :: "lock_id \<Rightarrow> rrw_system \<Rightarrow> rrw_system \<Rightarrow> bool" where
  "no_writer_step l s s' \<longleftrightarrow> rrw_step l s s' \<and> rr_writer (sys_lock s') = None"

lemma exit_anon_le:
  assumes inv: "rrw_inv l s L" and t: "t \<in># sys_readers s"
    and e: "rrw_exit (sys_lock s) l (sys_nodes s t) = (rrl, nodes, wake)"
  shows "rr_writer_wanted rrl = rr_writer_wanted (sys_lock s)"
    "rr_count (rr_anon_rcount rrl) \<le> rr_count (rr_anon_rcount (sys_lock s))"
proof -
  have w: "rr_writer (sys_lock s) = None" using inv t by (auto simp: rrw_inv_def)
  then show "rr_writer_wanted rrl = rr_writer_wanted (sys_lock s)"
    using e by (auto simp: rrw_exit_def Let_def refcount_r_defs split: bool.splits prod.splits)
  obtain found nodes' where u: "rrn_find_and_remove (sys_lock s) l (sys_nodes s t) = (found, nodes')" by fastforce
  show "rr_count (rr_anon_rcount rrl) \<le> rr_count (rr_anon_rcount (sys_lock s))"
  proof (cases found)
    case True then show ?thesis using e w u by (auto simp: rrw_exit_def refcount_r_defs Let_def)
  next
    case False
    then have "t \<notin># L"
      using u rrw_inv_counts(5,6) [OF inv, of t] rrw_linked_reader [OF inv, of t] unlink_node_cases by metis
    then have "rr_count (rr_anon_rcount (sys_lock s)) \<noteq> 0" using rrw_inv_counts(4) [OF inv] t by blast
    then have "rr_count (rr_anon_rcount (sys_lock s)) - 1 \<le> rr_count (rr_anon_rcount (sys_lock s))"
      by (simp add: word_le_nat_alt unat_minus_one)
    then show ?thesis using False e w u by (auto simp: rrw_exit_def refcount_r_defs Let_def)
  qed
qed

lemma no_writer_step_wanted:
  assumes step: "rrw_step l s s'" and nw: "rr_writer (sys_lock s') = None"
    and inv: "rrw_inv l s L" and wanted: "rr_writer_wanted (sys_lock s)"
  shows "rr_writer_wanted (sys_lock s') \<and>
    rr_count (rr_anon_rcount (sys_lock s')) \<le> rr_count (rr_anon_rcount (sys_lock s)) \<and>
    (rr_count (rr_anon_rcount (sys_lock s)) = 0 \<longrightarrow> set_mset (sys_readers s') \<subseteq> set_mset (sys_readers s))"
  using step
proof cases
  case (enter t rw rrl nodes)
  have L: "set_mset L \<subseteq> set_mset (sys_readers s)" using inv by (auto simp: rrw_inv_def dest: mset_subset_eqD)
  show ?thesis
  proof (cases rw)
    case RW_READER
    then show ?thesis using enter wanted rrw_linked_reader [OF inv, of t] L
      by (auto simp: rrw_enter_def rrw_enter_read_def refcount_r_defs Let_def split: if_splits)
  next
    case RW_WRITER
    then show ?thesis using enter nw by (auto simp: rrw_enter_def rrw_enter_write_def split: if_splits)
  qed
next
  case wait
  then show ?thesis using wanted
    by (auto simp: rrw_enter_def rrw_enter_read_def rrw_enter_write_def split: krw.splits if_splits sum.splits)
next
  case exit_read
  then show ?thesis using exit_anon_le [OF inv] wanted by (auto dest: in_diffD)
next
  case exit_write
  then show ?thesis using wanted by (auto simp: rrw_exit_def)
next
  case other_lock
  then show ?thesis using wanted by simp
qed

lemma no_writer_run_wanted:
  assumes "(no_writer_step l)\<^sup>*\<^sup>* s s'" "rrw_inv l s L" "rr_writer_wanted (sys_lock s)"
  shows "(\<exists>L'. rrw_inv l s' L') \<and> rr_writer_wanted (sys_lock s') \<and>
    rr_count (rr_anon_rcount (sys_lock s')) \<le> rr_count (rr_anon_rcount (sys_lock s)) \<and>
    (rr_count (rr_anon_rcount (sys_lock s)) = 0 \<longrightarrow> set_mset (sys_readers s') \<subseteq> set_mset (sys_readers s))"
  using assms(1)
proof (induction rule: rtranclp_induct)
  case base then show ?case using assms(2,3) by blast
next
  case (step y z)
  then obtain L' where L': "rrw_inv l y L'" by blast
  have yz: "rrw_step l y z" "rr_writer (sys_lock z) = None" using step(2) by (simp_all add: no_writer_step_def)
  note n = no_writer_step_wanted [OF yz L']
  have "rr_count (rr_anon_rcount (sys_lock y)) = 0" if "rr_count (rr_anon_rcount (sys_lock s)) = 0"
    using step.IH that by simp
  then show ?case using n step.IH rrw_step_inv [OF yz(1) L'] by (meson order_trans subset_trans)
qed

text \<open>The readers there are can always leave.\<close>

lemma readers_leave:
  assumes "rrw_inv l s L" "rr_writer (sys_lock s) = None"
  shows "\<exists>s' L'. (no_writer_step l ^^ size (sys_readers s)) s s' \<and> rrw_inv l s' L' \<and> sys_readers s' = {#} \<and>
    rr_writer (sys_lock s') = None"
  using assms
proof (induction "size (sys_readers s)" arbitrary: s L)
  case 0 then show ?case by (intro exI [of _ s] exI [of _ L]) simp
next
  case (Suc n)
  then obtain t where t: "t \<in># sys_readers s" by (metis Zero_not_Suc multiset_nonemptyE size_empty)
  obtain rrl nodes wake where e: "rrw_exit (sys_lock s) l (sys_nodes s t) = (rrl, nodes, wake)" by (metis prod_cases3)
  define s1 where "s1 = s\<lparr>sys_lock := rrl, sys_nodes := (sys_nodes s)(t := nodes), sys_readers := sys_readers s - {#t#}\<rparr>"
  have "rr_writer rrl = None"
    using e Suc.prems(2) by (auto simp: rrw_exit_def Let_def refcount_r_defs split: bool.splits prod.splits)
  then have s1: "no_writer_step l s s1" "rr_writer (sys_lock s1) = None"
    unfolding no_writer_step_def s1_def using rrw_step.exit_read [OF t e] by simp_all
  obtain L1 where L1: "rrw_inv l s1 L1" using exit_read_inv [OF Suc.prems(1) t e s1_def] by blast
  have n: "n = size (sys_readers s1)" using Suc(2) t by (simp add: s1_def size_Diff_singleton)
  from Suc(1) [OF n L1 s1(2)] obtain s' L' where "(no_writer_step l ^^ n) s1 s'" "rrw_inv l s' L'"
    "sys_readers s' = {#}" "rr_writer (sys_lock s') = None" using n by metis
  then show ?case using s1(1) Suc(2) by (metis relpowp_Suc_I2)
qed

section \<open>The properties of the lock\<close>

text \<open>A short run: thread 1 reads, thread 2 waits to write, thread 1 reads again.\<close>

definition run_read :: rrw_system where
  "run_read = \<lparr>sys_lock = \<lparr>rr_writer = None, rr_anon_rcount = \<lparr>rr_count = 1\<rparr>, rr_linked_rcount = \<lparr>rr_count = 0\<rparr>,
     rr_writer_wanted = False\<rparr>, sys_nodes = (\<lambda>_. []), sys_readers = {#1#}\<rparr>"

definition run_wait :: rrw_system where
  "run_wait = run_read\<lparr>sys_lock := (sys_lock run_read)\<lparr>rr_writer_wanted := True\<rparr>\<rparr>"

definition run_reenter :: rrw_system where
  "run_reenter = run_wait\<lparr>sys_lock := (sys_lock run_wait)\<lparr>rr_linked_rcount := \<lparr>rr_count = 1\<rparr>\<rparr>,
     sys_nodes := (sys_nodes run_wait)(1 := [7]), sys_readers := {#1, 1#}\<rparr>"

lemmas run_defs = run_reenter_def run_wait_def run_read_def
lemmas enter_defs = rrw_enter_def rrw_enter_read_def rrw_enter_write_def rrn_find_def rrn_add_def refcount_r_defs Let_def

lemma run_reenter_reachable: "rrw_reachable 7 run_reenter"
proof -
  let ?i = "sys_init (\<lambda>_. [])"
  have "rrw_step 7 ?i (?i\<lparr>sys_lock := sys_lock run_read, sys_nodes := (sys_nodes ?i)(1 := []),
      sys_readers := (if RW_READER = RW_READER then add_mset 1 (sys_readers ?i) else sys_readers ?i)\<rparr>)"
    by (rule rrw_step.enter) (simp_all add: sys_init_def rrw_init_def enter_defs run_defs)
  then have 1: "rrw_step 7 ?i run_read" by (simp add: sys_init_def run_defs fun_upd_idem)
  have 2: "rrw_step 7 run_read run_wait"
    unfolding run_wait_def by (rule rrw_step.wait [of 2 _ RW_WRITER]) (simp add: enter_defs run_defs)
  have "rrw_step 7 run_wait (run_wait\<lparr>sys_lock := sys_lock run_reenter, sys_nodes := (sys_nodes run_wait)(1 := [7]),
      sys_readers := (if RW_READER = RW_READER then add_mset 1 (sys_readers run_wait) else sys_readers run_wait)\<rparr>)"
    by (rule rrw_step.enter) (simp_all add: enter_defs run_defs)
  then have 3: "rrw_step 7 run_wait run_reenter" by (simp add: run_defs)
  show ?thesis unfolding rrw_reachable_def using 1 2 3 by (intro exI [of _ "\<lambda>_. []"]) auto
qed

text \<open>C36: At every moment of every run a writer excludes readers, the two reader counts add up to the holds there
  are, a thread has at most as many nodes for the lock as holds, \<open>rrw_held\<close> for reading tells whether there is
  a reader, and a thread gets the lock for writing exactly when nobody holds it.\<close>

theorem rrw_mutual_exclusion:
  assumes "rrw_reachable l s"
  shows "(rr_writer (sys_lock s) = None \<or> sys_readers s = {#}) \<and>
    unat (rr_count (rr_anon_rcount (sys_lock s))) + unat (rr_count (rr_linked_rcount (sys_lock s))) = size (sys_readers s) \<and>
    (\<forall>t. own_nodes l (sys_nodes s t) \<le> count (sys_readers s) t) \<and>
    (\<forall>t. rrw_held t (sys_lock s) RW_READER \<longleftrightarrow> sys_readers s \<noteq> {#}) \<and>
    (\<forall>t. (\<exists>rrl. rrw_enter_write t (sys_lock s) = Inr rrl) \<longleftrightarrow> sys_readers s = {#} \<and> rr_writer (sys_lock s) = None)"
proof -
  obtain L where inv: "rrw_inv l s L" using rrw_reachable_inv [OF assms] by blast
  then have "own_nodes l (sys_nodes s t) \<le> count (sys_readers s) t" for t
    unfolding rrw_inv_def by (metis mset_subset_eq_count)
  moreover have "rr_writer (sys_lock s) = None \<or> sys_readers s = {#}" using inv by (auto simp: rrw_inv_def)
  ultimately show ?thesis
    using rrw_counts_add [OF inv] rrw_held_reader [OF inv] rrw_enter_write_free [OF inv] by blast
qed

theorem rrw_mutual_exclusion_witness:
  "rrw_reachable 7 run_reenter \<and> rrw_held 5 (sys_lock run_reenter) RW_READER \<and>
   \<not> (\<exists>rrl. rrw_enter_write 2 (sys_lock run_reenter) = Inr rrl)"
proof -
  have "sys_readers run_reenter \<noteq> {#}" by (simp add: run_defs)
  then show ?thesis using rrw_mutual_exclusion [OF run_reenter_reachable] run_reenter_reachable by simp
qed



text \<open>C38: Writers are not starved. While a writer waits, until one gets in, it is not forgotten, the anonymous count
  never grows, and once that is 0 the set of reading threads never grows: no new thread gets in before the
  writer. The readers there are can leave, one step for each hold, after which every writer gets in.\<close>

theorem rrw_writers_not_starved:
  assumes "rrw_reachable l s" "rr_writer_wanted (sys_lock s)" "rr_writer (sys_lock s) = None"
  shows "(\<forall>s'. (no_writer_step l)\<^sup>*\<^sup>* s s' \<longrightarrow> rr_writer_wanted (sys_lock s') \<and>
      rr_count (rr_anon_rcount (sys_lock s')) \<le> rr_count (rr_anon_rcount (sys_lock s)) \<and>
      (rr_count (rr_anon_rcount (sys_lock s)) = 0 \<longrightarrow> set_mset (sys_readers s') \<subseteq> set_mset (sys_readers s))) \<and>
    (\<exists>s'. (no_writer_step l ^^ size (sys_readers s)) s s' \<and>
      (\<forall>t. \<exists>rrl. rrw_enter_write t (sys_lock s') = Inr rrl \<and> rr_writer rrl = Some t))"
proof -
  obtain L where inv: "rrw_inv l s L" using rrw_reachable_inv [OF assms(1)] by blast
  obtain s' L' where s': "(no_writer_step l ^^ size (sys_readers s)) s s'" "rrw_inv l s' L'"
    "sys_readers s' = {#}" "rr_writer (sys_lock s') = None"
    using readers_leave [OF inv assms(3)] by blast
  have "\<exists>rrl. rrw_enter_write t (sys_lock s') = Inr rrl \<and> rr_writer rrl = Some t" for t
    using rrw_enter_write_free [OF s'(2), of t] s'(3,4) by (auto simp: rrw_enter_write_def split: if_splits)
  then show ?thesis using no_writer_run_wanted [OF _ inv assms(2)] s'(1) by blast
qed

theorem rrw_writers_not_starved_witness:
  "rr_writer_wanted (sys_lock run_reenter) \<and>
   (\<exists>s'. (no_writer_step 7 ^^ 2) run_reenter s' \<and> (\<exists>rrl. rrw_enter_write 2 (sys_lock s') = Inr rrl \<and> rr_writer rrl = Some 2))"
proof -
  have r: "rr_writer_wanted (sys_lock run_reenter)" "rr_writer (sys_lock run_reenter) = None"
    "size (sys_readers run_reenter) = 2" by (simp_all add: run_defs)
  show ?thesis using rrw_writers_not_starved [OF run_reenter_reachable r(1,2)] r(1) unfolding r(3) by blast
qed

end
