(* ===== verification/Spec2Isabelle.thy ===== *)
theory Spec2Isabelle
  imports Avl_Interface Space_Map_Properties Bitops Blkptr Metaslab_Txg Zfs_Namecheck Zio_Checksum Zio_Compress Rrwlock
begin

text \<open>
  The storage allocation core of ZFS.
\<close>

end
